(* ===== verification/Prelude.thy ===== *)
theory Prelude
  imports Main "HOL-Library.Word" "HOL-Library.Monad_Syntax"
begin

unbundle bit_operations_syntax

text \<open>
  Shared vocabulary of the development.

  \<^item> Machine integers: \<open>u8\<close>, \<open>u16\<close>, \<open>u32\<close>, \<open>u64\<close> are words of that width, with the saturating
    operations of the Rust standard library written out.
  \<^item> Panics: a Rust operation that can panic (an index or a slice out of range, \<open>unwrap\<close> on
    \<open>None\<close>, \<open>unreachable!\<close>, an arithmetic overflow in a build with overflow checks) returns
    \<open>'a may_panic\<close>, which is \<open>None\<close> exactly when the code panics. A Rust \<open>Option<T>\<close> is a HOL option
    of its own, so an operation that returns \<open>Option<T>\<close> and may panic has type
    \<open>'a option may_panic\<close>. A Rust \<open>Result<T, E>\<close> is \<open>'e + 'a\<close>, \<open>Inl\<close> being the error.
  \<^item> Byte strings and their fixed-width encodings: the locale \<open>fixed_codec\<close> is the contract of a
    packed wire structure (\<open>zerocopy\<close>'s \<open>AsBytes\<close> and \<open>FromBytes\<close>), and the lemmas of the locale are
    what every header of the packet format gets for free.
\<close>

section \<open>Names for the model's types\<close>

type_synonym u8 = "8 word"
type_synonym u16 = "16 word"
type_synonym u32 = "32 word"
type_synonym u64 = "64 word"
type_synonym bytes = "u8 list"

type_synonym 'a may_panic = "'a option"

named_theorems wire_simps "unfolding rules of the packet format"
named_theorems step_simps "unfolding rules of the state transformers"

abbreviation (input) panic :: "'a may_panic" where
  "panic \<equiv> None"

section \<open>Machine arithmetic of the Rust standard library\<close>

definition u32_saturating_add :: "u32 \<Rightarrow> u32 \<Rightarrow> u32" where
  "u32_saturating_add a b = (if unat a + unat b < 2 ^ 32 then a + b else - 1)"

definition u64_saturating_add :: "u64 \<Rightarrow> u64 \<Rightarrow> u64" where
  "u64_saturating_add a b = (if unat a + unat b < 2 ^ 64 then a + b else - 1)"

definition u64_saturating_sub :: "u64 \<Rightarrow> u64 \<Rightarrow> u64" where
  "u64_saturating_sub a b = (if b \<le> a then a - b else 0)"

lemma unat_u32_saturating_add:
  "unat (u32_saturating_add a b) = min (unat a + unat b) (2 ^ 32 - 1)"
proof (cases "unat a + unat b < 2 ^ 32")
  case True
  then have "unat (a + b) = unat a + unat b"
    by (subst unat_add_lem [symmetric]) simp
  with True show ?thesis by (simp add: u32_saturating_add_def)
next
  case False
  have "unat (- 1 :: u32) = 2 ^ 32 - 1"
    by (simp add: unsigned_minus_1_eq_mask mask_eq_exp_minus_1)
  with False show ?thesis by (simp add: u32_saturating_add_def)
qed

lemma unat_u64_saturating_add:
  "unat (u64_saturating_add a b) = min (unat a + unat b) (2 ^ 64 - 1)"
proof (cases "unat a + unat b < 2 ^ 64")
  case True
  then have "unat (a + b) = unat a + unat b"
    by (subst unat_add_lem [symmetric]) simp
  with True show ?thesis by (simp add: u64_saturating_add_def)
next
  case False
  have "unat (- 1 :: u64) = 2 ^ 64 - 1"
    by (simp add: unsigned_minus_1_eq_mask mask_eq_exp_minus_1)
  with False show ?thesis by (simp add: u64_saturating_add_def)
qed

lemma unat_u64_saturating_sub:
  "unat (u64_saturating_sub a b) = unat a - unat b"
  by (simp add: u64_saturating_sub_def unat_sub word_le_nat_alt)

section \<open>Slices\<close>

text \<open>
  \<open>slice_from n xs\<close> is \<open>xs.get(n..)\<close>, and it is also \<open>&xs[n..]\<close> when \<open>None\<close> is read as the panic of
  an out-of-range slice. \<open>slice_range i j xs\<close> is \<open>&xs[i..j]\<close>.
\<close>

definition slice_from :: "nat \<Rightarrow> 'a list \<Rightarrow> 'a list option" where
  "slice_from n xs = (if n \<le> length xs then Some (drop n xs) else None)"

definition slice_range :: "nat \<Rightarrow> nat \<Rightarrow> 'a list \<Rightarrow> 'a list option" where
  "slice_range i j xs = (if i \<le> j \<and> j \<le> length xs then Some (take (j - i) (drop i xs)) else None)"

text \<open>\<open>overwrite n new xs\<close> overwrites \<open>xs\<close> from position \<open>n\<close> with \<open>new\<close>; the length is unchanged as
  long as \<open>new\<close> fits.\<close>

definition overwrite :: "nat \<Rightarrow> 'a list \<Rightarrow> 'a list \<Rightarrow> 'a list" where
  "overwrite n new xs = take n xs @ new @ drop (n + length new) xs"

text \<open>\<open>ref_from_prefix\<close> and \<open>ref_from_suffix\<close> of \<open>zerocopy\<close>: view the first or the last \<open>n\<close> bytes of a
  slice as a packed structure.\<close>

definition ref_from_prefix :: "nat \<Rightarrow> (u8 list \<Rightarrow> 'a) \<Rightarrow> u8 list \<Rightarrow> 'a option" where
  "ref_from_prefix n dec bs = (if n \<le> length bs then Some (dec (take n bs)) else None)"

definition ref_from_suffix :: "nat \<Rightarrow> (u8 list \<Rightarrow> 'a) \<Rightarrow> u8 list \<Rightarrow> 'a option" where
  "ref_from_suffix n dec bs = (if n \<le> length bs then Some (dec (drop (length bs - n) bs)) else None)"

lemma slice_from_Some_iff: "slice_from n xs = Some ys \<longleftrightarrow> n \<le> length xs \<and> ys = drop n xs"
  by (auto simp: slice_from_def)

lemma slice_from_None_iff: "slice_from n xs = None \<longleftrightarrow> length xs < n"
  by (auto simp: slice_from_def)

lemma slice_range_Some_iff:
  "slice_range i j xs = Some ys \<longleftrightarrow> i \<le> j \<and> j \<le> length xs \<and> ys = take (j - i) (drop i xs)"
  by (auto simp: slice_range_def)

lemma length_overwrite: "n + length new \<le> length xs \<Longrightarrow> length (overwrite n new xs) = length xs"
  by (simp add: overwrite_def)

lemma drop_overwrite_after:
  "n + length new \<le> k \<Longrightarrow> n + length new \<le> length xs \<Longrightarrow> drop k (overwrite n new xs) = drop k xs"
  by (simp add: overwrite_def)

lemma take_drop_overwrite:
  "n + length new \<le> length xs \<Longrightarrow> take (length new) (drop n (overwrite n new xs)) = new"
  by (simp add: overwrite_def)

lemma drop_overwrite_at:
  "n + length new \<le> length xs \<Longrightarrow> drop n (overwrite n new xs) = new @ drop (n + length new) xs"
  by (simp add: overwrite_def)

section \<open>Fixed-width encodings\<close>

primrec le_of_nat :: "nat \<Rightarrow> nat \<Rightarrow> bytes" where
  "le_of_nat 0 k = []"
| "le_of_nat (Suc n) k = word_of_nat (k mod 256) # le_of_nat n (k div 256)"

primrec nat_of_le :: "bytes \<Rightarrow> nat" where
  "nat_of_le [] = 0"
| "nat_of_le (b # bs) = unat b + 256 * nat_of_le bs"

lemma length_le_of_nat [simp]: "length (le_of_nat n k) = n"
  by (induction n arbitrary: k) auto

lemma unat_byte_of_mod: "unat (word_of_nat (k mod 256) :: u8) = k mod 256"
  by (simp add: unat_of_nat)

lemma nat_of_le_of_nat: "nat_of_le (le_of_nat n k) = k mod 256 ^ n"
proof (induction n arbitrary: k)
  case 0
  then show ?case by simp
next
  case (Suc n)
  have "k mod (256 * 256 ^ n) = 256 * (k div 256 mod 256 ^ n) + k mod 256"
    by (rule mod_mult2_eq)
  with Suc show ?case by (simp add: unat_byte_of_mod)
qed

lemma unat_byte_lt: "unat (b :: u8) < 256"
  using unsigned_less [of b] by simp

lemma le_of_nat_of_le: "le_of_nat (length bs) (nat_of_le bs) = bs"
proof (induction bs)
  case Nil
  then show ?case by simp
next
  case (Cons b bs)
  have "(unat b + 256 * nat_of_le bs) mod 256 = unat b"
    by (simp add: unat_byte_lt)
  moreover have "(unat b + 256 * nat_of_le bs) div 256 = nat_of_le bs"
    by (simp add: unat_byte_lt)
  ultimately show ?case using Cons by simp
qed

lemma nat_of_le_lt: "nat_of_le bs < 256 ^ length bs"
proof (induction bs)
  case Nil
  then show ?case by simp
next
  case (Cons b bs)
  have "unat b < 256" by (rule unat_byte_lt)
  with Cons show ?case by simp
qed

definition u16_le :: "u16 \<Rightarrow> bytes" where "u16_le w = le_of_nat 2 (unat w)"
definition u16_of_le :: "bytes \<Rightarrow> u16" where "u16_of_le bs = word_of_nat (nat_of_le bs)"
definition u32_le :: "u32 \<Rightarrow> bytes" where "u32_le w = le_of_nat 4 (unat w)"
definition u32_of_le :: "bytes \<Rightarrow> u32" where "u32_of_le bs = word_of_nat (nat_of_le bs)"
definition u16_of_be :: "bytes \<Rightarrow> u16" where "u16_of_be bs = word_of_nat (nat_of_le (rev bs))"
definition u32_be :: "u32 \<Rightarrow> bytes" where "u32_be w = rev (le_of_nat 4 (unat w))"
definition u32_of_be :: "bytes \<Rightarrow> u32" where "u32_of_be bs = word_of_nat (nat_of_le (rev bs))"
definition u64_be :: "u64 \<Rightarrow> bytes" where "u64_be w = rev (le_of_nat 8 (unat w))"
definition u64_of_be :: "bytes \<Rightarrow> u64" where "u64_of_be bs = word_of_nat (nat_of_le (rev bs))"

lemmas endian_defs =
  u16_le_def u16_of_le_def u32_le_def u32_of_le_def u16_of_be_def
  u32_be_def u32_of_be_def u64_be_def u64_of_be_def

text \<open>
  The contract of a packed wire structure: \<open>enc\<close> writes exactly \<open>width\<close> bytes, \<open>dec\<close> reads them
  back, and every \<open>width\<close> bytes are the encoding of a value (every bit pattern is valid, which is
  what \<open>FromBytes\<close> demands).
\<close>

locale fixed_codec =
  fixes width :: nat
    and enc :: "'a \<Rightarrow> bytes"
    and dec :: "bytes \<Rightarrow> 'a"
    and ok :: "'a \<Rightarrow> bool"
  assumes enc_length: "ok x \<Longrightarrow> length (enc x) = width"
    and dec_enc: "ok x \<Longrightarrow> dec (enc x) = x"
    and enc_dec: "length bs = width \<Longrightarrow> enc (dec bs) = bs"
    and dec_ok: "length bs = width \<Longrightarrow> ok (dec bs)"
begin

text \<open>\<open>ref_from_prefix\<close>: a reference to the structure at the start of a slice, or none.\<close>

lemma read_prefix: "ok x \<Longrightarrow> dec (take width (enc x @ rest)) = x"
  by (simp add: enc_length dec_enc)

lemma enc_inject: "ok x \<Longrightarrow> ok y \<Longrightarrow> enc x = enc y \<longleftrightarrow> x = y"
  by (metis dec_enc)

lemma read_after_write:
  assumes "ok x" and "n + width \<le> length buf"
  shows "dec (take width (drop n (overwrite n (enc x) buf))) = x"
  using assms by (simp add: overwrite_def enc_length dec_enc)

lemma write_read_id:
  assumes "n + width \<le> length buf"
  shows "overwrite n (enc (dec (take width (drop n buf)))) buf = buf"
proof -
  have "length (take width (drop n buf)) = width" using assms by simp
  then have "enc (dec (take width (drop n buf))) = take width (drop n buf)"
    by (rule enc_dec)
  then have "overwrite n (enc (dec (take width (drop n buf)))) buf
      = take n buf @ take width (drop n buf) @ drop (n + width) buf"
    using assms by (simp add: overwrite_def)
  also have "take width (drop n buf) @ drop (n + width) buf = drop n buf"
    by (metis add.commute append_take_drop_id drop_drop)
  finally show ?thesis by simp
qed

end

lemma unat_lt_256_pow:
  "unat (w :: u16) < 256 ^ 2" "unat (x :: u32) < 256 ^ 4" "unat (y :: u64) < 256 ^ 8"
  using unsigned_less [of w] unsigned_less [of x] unsigned_less [of y] by simp_all

lemma unat_of_nat_of_le:
  "length bs = 2 \<Longrightarrow> unat (word_of_nat (nat_of_le bs) :: u16) = nat_of_le bs"
  "length bs = 4 \<Longrightarrow> unat (word_of_nat (nat_of_le bs) :: u32) = nat_of_le bs"
  "length bs = 8 \<Longrightarrow> unat (word_of_nat (nat_of_le bs) :: u64) = nat_of_le bs"
  using nat_of_le_lt [of bs] by (simp_all add: unat_of_nat)

lemma le_of_nat_of_le_len: "length bs = n \<Longrightarrow> le_of_nat n (nat_of_le bs) = bs"
  using le_of_nat_of_le by blast

interpretation u16le: fixed_codec 2 u16_le u16_of_le "\<lambda>_. True"
  by unfold_locales
    (use unat_lt_256_pow(1) in \<open>simp_all add: endian_defs nat_of_le_of_nat unat_of_nat_of_le le_of_nat_of_le_len\<close>)

interpretation u32le: fixed_codec 4 u32_le u32_of_le "\<lambda>_. True"
  by unfold_locales
    (use unat_lt_256_pow(2) in \<open>simp_all add: endian_defs nat_of_le_of_nat unat_of_nat_of_le le_of_nat_of_le_len\<close>)

interpretation u32be: fixed_codec 4 u32_be u32_of_be "\<lambda>_. True"
  by unfold_locales
    (use unat_lt_256_pow(2) in \<open>simp_all add: endian_defs nat_of_le_of_nat unat_of_nat_of_le le_of_nat_of_le_len\<close>)

interpretation u64be: fixed_codec 8 u64_be u64_of_be "\<lambda>_. True"
  by unfold_locales
    (use unat_lt_256_pow(3) in \<open>simp_all add: endian_defs nat_of_le_of_nat unat_of_nat_of_le le_of_nat_of_le_len\<close>)

lemmas codec_lengths [simp] =
  u16le.enc_length [OF TrueI] u32le.enc_length [OF TrueI]
  u32be.enc_length [OF TrueI] u64be.enc_length [OF TrueI]

lemmas codec_roundtrips [simp] =
  u16le.dec_enc [OF TrueI] u32le.dec_enc [OF TrueI]
  u32be.dec_enc [OF TrueI] u64be.dec_enc [OF TrueI]

lemmas codec_roundtrips_rev [simp] = u16le.enc_dec u32le.enc_dec u32be.enc_dec u64be.enc_dec

end
