(* ===== verification/Packet.thy ===== *)
theory Packet
  imports Prelude
begin

text \<open>
  The packet format of \<open>easytier-core/src/packet/mod.rs\<close>.

  The first part is the wire structures: tunnel headers, the peer-manager header with its flag
  byte, the foreign-network header, the AEAD tail and the compressor tail, each with its byte
  encoding and an interpretation of the codec contract. The second part is \<open>ZCPacket\<close>, the
  zero-copy buffer whose layout depends on the tunnel it came from: one buffer of bytes and a
  packet type that fixes where the headers and the payload start.

  \<open>BytesMut::set_len\<close> exposes memory that has not been written. The model takes that memory as the
  argument \<open>uninit\<close>, one byte per position, so a theorem that does not depend on \<open>uninit\<close> says the
  unwritten bytes never matter.
\<close>

section \<open>Wire structures\<close>

record tcp_tunnel_header =
  tcp_len :: u32

definition TCP_TUNNEL_HEADER_SIZE :: nat where [wire_simps]: "TCP_TUNNEL_HEADER_SIZE = 4"

definition tcp_tunnel_header_bytes :: "tcp_tunnel_header \<Rightarrow> bytes" where
  "tcp_tunnel_header_bytes h = u32_le (tcp_len h)"

definition tcp_tunnel_header_of_bytes :: "bytes \<Rightarrow> tcp_tunnel_header" where
  "tcp_tunnel_header_of_bytes bs = \<lparr>tcp_len = u32_of_le bs\<rparr>"

datatype udp_packet_type =
  UdpInvalid | Syn | Sack | UdpData | Fin | HolePunch | V4HolePunch | V6HolePunch

primrec udp_packet_type_code :: "udp_packet_type \<Rightarrow> u8" where
  "udp_packet_type_code UdpInvalid = 0"
| "udp_packet_type_code Syn = 1"
| "udp_packet_type_code Sack = 2"
| "udp_packet_type_code UdpData = 3"
| "udp_packet_type_code Fin = 4"
| "udp_packet_type_code HolePunch = 5"
| "udp_packet_type_code V4HolePunch = 6"
| "udp_packet_type_code V6HolePunch = 7"

record udp_tunnel_header =
  conn_id :: u32
  msg_type :: u8
  padding :: u8
  udp_len :: u16

definition UDP_TUNNEL_HEADER_SIZE :: nat where [wire_simps]: "UDP_TUNNEL_HEADER_SIZE = 8"

definition udp_tunnel_header_bytes :: "udp_tunnel_header \<Rightarrow> bytes" where
  "udp_tunnel_header_bytes h = u32_le (conn_id h) @ [msg_type h, padding h] @ u16_le (udp_len h)"

definition udp_tunnel_header_of_bytes :: "bytes \<Rightarrow> udp_tunnel_header" where
  "udp_tunnel_header_of_bytes bs =
     \<lparr>conn_id = u32_of_le (take 4 bs), msg_type = bs ! 4, padding = bs ! 5,
      udp_len = u16_of_le (drop 6 bs)\<rparr>"

record wg_tunnel_header =
  ipv4_header :: bytes

definition WG_TUNNEL_HEADER_SIZE :: nat where [wire_simps]: "WG_TUNNEL_HEADER_SIZE = 20"

datatype packet_type =
    InvalidPacket | Data | HandShake | RoutePacket | Ping | Pong | TaRpc | RoutePkt | RpcReq | RpcResp
  | ForeignNetworkPacket | KcpSrc | KcpDst | QuicSrc | QuicDst
  | NoiseHandshakeMsg1 | NoiseHandshakeMsg2 | NoiseHandshakeMsg3 | RelayHandshake | RelayHandshakeAck
  | DataWithKcpSrcModified | DataWithQuicSrcModified

primrec packet_type_code :: "packet_type \<Rightarrow> u8" where
  "packet_type_code InvalidPacket = 0"
| "packet_type_code Data = 1"
| "packet_type_code HandShake = 2"
| "packet_type_code RoutePacket = 3"
| "packet_type_code Ping = 4"
| "packet_type_code Pong = 5"
| "packet_type_code TaRpc = 6"
| "packet_type_code RoutePkt = 7"
| "packet_type_code RpcReq = 8"
| "packet_type_code RpcResp = 9"
| "packet_type_code ForeignNetworkPacket = 10"
| "packet_type_code KcpSrc = 11"
| "packet_type_code KcpDst = 12"
| "packet_type_code QuicSrc = 16"
| "packet_type_code QuicDst = 17"
| "packet_type_code NoiseHandshakeMsg1 = 13"
| "packet_type_code NoiseHandshakeMsg2 = 14"
| "packet_type_code NoiseHandshakeMsg3 = 15"
| "packet_type_code RelayHandshake = 20"
| "packet_type_code RelayHandshakeAck = 21"
| "packet_type_code DataWithKcpSrcModified = 18"
| "packet_type_code DataWithQuicSrcModified = 19"

lemma packet_type_code_inject: "packet_type_code a = packet_type_code b \<longleftrightarrow> a = b"
  by (cases a; cases b) simp_all

subsection \<open>The peer-manager header and its flags\<close>

text \<open>
  The flag byte declares every bit (\<open>const _ = !0\<close>), so \<open>from_bits(..).unwrap()\<close> never fails and the
  flag set is the byte itself.
\<close>

definition ENCRYPTED :: u8 where [wire_simps]: "ENCRYPTED = 0x01"
definition LATENCY_FIRST :: u8 where [wire_simps]: "LATENCY_FIRST = 0x02"
definition EXIT_NODE :: u8 where [wire_simps]: "EXIT_NODE = 0x04"
definition NO_PROXY :: u8 where [wire_simps]: "NO_PROXY = 0x08"
definition COMPRESSED :: u8 where [wire_simps]: "COMPRESSED = 0x10"
definition LIVENESS_PROBE :: u8 where [wire_simps]: "LIVENESS_PROBE = 0x20"
definition NOT_SEND_TO_TUN :: u8 where [wire_simps]: "NOT_SEND_TO_TUN = 0x40"
definition LIVENESS_ECHO :: u8 where [wire_simps]: "LIVENESS_ECHO = 0x80"

definition flags_contains :: "u8 \<Rightarrow> u8 \<Rightarrow> bool" where
  "flags_contains fs m \<longleftrightarrow> fs AND m = m"

definition flags_insert :: "u8 \<Rightarrow> u8 \<Rightarrow> u8" where
  "flags_insert fs m = fs OR m"

definition flags_remove :: "u8 \<Rightarrow> u8 \<Rightarrow> u8" where
  "flags_remove fs m = fs AND NOT m"

record peer_manager_header =
  from_peer_id :: u32
  to_peer_id :: u32
  hdr_packet_type :: u8
  flags :: u8
  forward_counter :: u8
  reserved :: u8
  hdr_len :: u32

definition PEER_MANAGER_HEADER_SIZE :: nat where [wire_simps]: "PEER_MANAGER_HEADER_SIZE = 16"

definition peer_manager_header_bytes :: "peer_manager_header \<Rightarrow> bytes" where
  "peer_manager_header_bytes h =
     u32_le (from_peer_id h) @ u32_le (to_peer_id h) @
     [hdr_packet_type h, flags h, forward_counter h, reserved h] @ u32_le (hdr_len h)"

definition peer_manager_header_of_bytes :: "bytes \<Rightarrow> peer_manager_header" where
  "peer_manager_header_of_bytes bs =
     \<lparr>from_peer_id = u32_of_le (take 4 bs), to_peer_id = u32_of_le (take 4 (drop 4 bs)),
      hdr_packet_type = bs ! 8, flags = bs ! 9, forward_counter = bs ! 10, reserved = bs ! 11,
      hdr_len = u32_of_le (drop 12 bs)\<rparr>"

definition is_encrypted :: "peer_manager_header \<Rightarrow> bool" where
  "is_encrypted h = flags_contains (flags h) ENCRYPTED"

definition set_encrypted :: "bool \<Rightarrow> peer_manager_header \<Rightarrow> peer_manager_header" where
  "set_encrypted b h =
     h\<lparr>flags := (if b then flags_insert (flags h) ENCRYPTED else flags_remove (flags h) ENCRYPTED)\<rparr>"

definition is_latency_first :: "peer_manager_header \<Rightarrow> bool" where
  "is_latency_first h = flags_contains (flags h) LATENCY_FIRST"

definition is_exit_node :: "peer_manager_header \<Rightarrow> bool" where
  "is_exit_node h = flags_contains (flags h) EXIT_NODE"

definition is_no_proxy :: "peer_manager_header \<Rightarrow> bool" where
  "is_no_proxy h = flags_contains (flags h) NO_PROXY"

definition is_compressed :: "peer_manager_header \<Rightarrow> bool" where
  "is_compressed h = flags_contains (flags h) COMPRESSED"

definition is_not_send_to_tun :: "peer_manager_header \<Rightarrow> bool" where
  "is_not_send_to_tun h = flags_contains (flags h) NOT_SEND_TO_TUN"

definition set_latency_first :: "bool \<Rightarrow> peer_manager_header \<Rightarrow> peer_manager_header" where
  "set_latency_first b h =
     h\<lparr>flags := (if b then flags_insert (flags h) LATENCY_FIRST else flags_remove (flags h) LATENCY_FIRST)\<rparr>"

definition set_exit_node :: "bool \<Rightarrow> peer_manager_header \<Rightarrow> peer_manager_header" where
  "set_exit_node b h =
     h\<lparr>flags := (if b then flags_insert (flags h) EXIT_NODE else flags_remove (flags h) EXIT_NODE)\<rparr>"

definition set_no_proxy :: "bool \<Rightarrow> peer_manager_header \<Rightarrow> peer_manager_header" where
  "set_no_proxy b h =
     h\<lparr>flags := (if b then flags_insert (flags h) NO_PROXY else flags_remove (flags h) NO_PROXY)\<rparr>"

definition set_compressed :: "bool \<Rightarrow> peer_manager_header \<Rightarrow> peer_manager_header" where
  "set_compressed b h =
     h\<lparr>flags := (if b then flags_insert (flags h) COMPRESSED else flags_remove (flags h) COMPRESSED)\<rparr>"

definition set_not_send_to_tun :: "bool \<Rightarrow> peer_manager_header \<Rightarrow> peer_manager_header" where
  "set_not_send_to_tun b h =
     h\<lparr>flags := (if b then flags_insert (flags h) NOT_SEND_TO_TUN
                else flags_remove (flags h) NOT_SEND_TO_TUN)\<rparr>"

definition liveness_probe_token :: "peer_manager_header \<Rightarrow> u8 option" where
  "liveness_probe_token h = (if flags_contains (flags h) LIVENESS_PROBE then Some (reserved h) else None)"

definition liveness_echo_token :: "peer_manager_header \<Rightarrow> u8 option" where
  "liveness_echo_token h = (if flags_contains (flags h) LIVENESS_ECHO then Some (reserved h) else None)"

definition clear_liveness_marker :: "peer_manager_header \<Rightarrow> peer_manager_header" where
  "clear_liveness_marker h =
     h\<lparr>flags := flags_remove (flags h) (LIVENESS_PROBE OR LIVENESS_ECHO), reserved := 0\<rparr>"

definition set_liveness_marker :: "u8 \<Rightarrow> u8 \<Rightarrow> peer_manager_header \<Rightarrow> peer_manager_header" where
  "set_liveness_marker marker token h =
     (let h' = clear_liveness_marker h
      in h'\<lparr>flags := flags_insert (flags h') marker, reserved := token\<rparr>)"

definition set_liveness_probe :: "u8 \<Rightarrow> peer_manager_header \<Rightarrow> peer_manager_header" where
  "set_liveness_probe token h = set_liveness_marker LIVENESS_PROBE token h"

definition set_liveness_echo :: "u8 \<Rightarrow> peer_manager_header \<Rightarrow> peer_manager_header" where
  "set_liveness_echo token h = set_liveness_marker LIVENESS_ECHO token h"

definition mark_kcp_src_modified :: "peer_manager_header \<Rightarrow> peer_manager_header may_panic" where
  "mark_kcp_src_modified h =
     (if hdr_packet_type h = packet_type_code Data
      then Some (h\<lparr>hdr_packet_type := packet_type_code DataWithKcpSrcModified\<rparr>) else panic)"

definition mark_quic_src_modified :: "peer_manager_header \<Rightarrow> peer_manager_header may_panic" where
  "mark_quic_src_modified h =
     (if hdr_packet_type h = packet_type_code Data
      then Some (h\<lparr>hdr_packet_type := packet_type_code DataWithQuicSrcModified\<rparr>) else panic)"


subsection \<open>Foreign-network header\<close>

text \<open>
  Strings are byte strings in UTF-8. \<open>utf8_valid\<close> is \<open>std::str::from_utf8(..).is_ok()\<close>: the
  well-formed sequences of the Unicode standard (no overlong forms, no surrogates, at most
  U+10FFFF).
\<close>

definition utf8_cont :: "u8 \<Rightarrow> bool" where
  "utf8_cont b \<longleftrightarrow> 0x80 \<le> b \<and> b \<le> 0xBF"

fun utf8_valid :: "bytes \<Rightarrow> bool" where
  "utf8_valid [] = True"
| "utf8_valid (a # r) =
     (if a \<le> 0x7F then utf8_valid r
      else if 0xC2 \<le> a \<and> a \<le> 0xDF then
        (case r of b # r1 \<Rightarrow> utf8_cont b \<and> utf8_valid r1 | _ \<Rightarrow> False)
      else if 0xE0 \<le> a \<and> a \<le> 0xEF then
        (case r of b # c # r2 \<Rightarrow>
           (if a = 0xE0 then 0xA0 \<le> b \<and> b \<le> 0xBF
            else if a = 0xED then 0x80 \<le> b \<and> b \<le> 0x9F
            else utf8_cont b) \<and> utf8_cont c \<and> utf8_valid r2
         | _ \<Rightarrow> False)
      else if 0xF0 \<le> a \<and> a \<le> 0xF4 then
        (case r of b # c # d # r3 \<Rightarrow>
           (if a = 0xF0 then 0x90 \<le> b \<and> b \<le> 0xBF
            else if a = 0xF4 then 0x80 \<le> b \<and> b \<le> 0x8F
            else utf8_cont b) \<and> utf8_cont c \<and> utf8_cont d \<and> utf8_valid r3
         | _ \<Rightarrow> False)
      else False)"

record foreign_network_packet_header =
  fn_header_len :: u16
  fn_dst_peer_id :: u32
  fn_network_name_offset :: u16
  fn_network_name_len :: u16

definition FOREIGN_HEADER_SIZE :: nat where [wire_simps]: "FOREIGN_HEADER_SIZE = 10"

definition foreign_header_bytes :: "foreign_network_packet_header \<Rightarrow> bytes" where
  "foreign_header_bytes h =
     u16_le (fn_header_len h) @ u32_le (fn_dst_peer_id h) @
     u16_le (fn_network_name_offset h) @ u16_le (fn_network_name_len h)"

definition foreign_header_of_bytes :: "bytes \<Rightarrow> foreign_network_packet_header" where
  "foreign_header_of_bytes bs =
     \<lparr>fn_header_len = u16_of_le (take 2 bs), fn_dst_peer_id = u32_of_le (take 4 (drop 2 bs)),
      fn_network_name_offset = u16_of_le (take 2 (drop 6 bs)),
      fn_network_name_len = u16_of_le (drop 8 bs)\<rparr>"

text \<open>\<open>network_name.len() as u16\<close> truncates; the sum of two \<open>u16\<close> panics on overflow.\<close>

definition foreign_header_new :: "u32 \<Rightarrow> bytes \<Rightarrow> foreign_network_packet_header may_panic" where
  "foreign_header_new dst_peer_id network_name =
     (let network_name_offset = (word_of_nat FOREIGN_HEADER_SIZE :: u16);
          network_name_len = (word_of_nat (length network_name) :: u16)
      in if unat network_name_offset + unat network_name_len < 2 ^ 16
         then Some \<lparr>fn_header_len = network_name_offset + network_name_len,
                    fn_dst_peer_id = dst_peer_id,
                    fn_network_name_offset = network_name_offset,
                    fn_network_name_len = network_name_len\<rparr>
         else panic)"

definition get_network_name :: "foreign_network_packet_header \<Rightarrow> bytes \<Rightarrow> bytes may_panic" where
  "get_network_name h zc_packet_payload =
     (let offset = unat (fn_network_name_offset h); len = unat (fn_network_name_len h)
      in do {
        name \<leftarrow> slice_range offset (offset + len) zc_packet_payload;
        if utf8_valid name then Some name else panic
      })"

definition get_header_len :: "foreign_network_packet_header \<Rightarrow> nat" where
  "get_header_len h = unat (fn_header_len h)"

subsection \<open>Tails\<close>

record aead_tail =
  tail_tag :: bytes
  tail_nonce :: bytes

definition TAG_SIZE :: nat where [wire_simps]: "TAG_SIZE = 16"
definition NONCE_SIZE :: nat where [wire_simps]: "NONCE_SIZE = 12"
definition AEAD_TAIL_SIZE :: nat where [wire_simps]: "AEAD_TAIL_SIZE = TAG_SIZE + NONCE_SIZE"

definition aead_tail_bytes :: "aead_tail \<Rightarrow> bytes" where
  "aead_tail_bytes t = tail_tag t @ tail_nonce t"

definition aead_tail_of_bytes :: "bytes \<Rightarrow> aead_tail" where
  "aead_tail_of_bytes bs = \<lparr>tail_tag = take TAG_SIZE bs, tail_nonce = drop TAG_SIZE bs\<rparr>"

definition aead_tail_ok :: "aead_tail \<Rightarrow> bool" where
  "aead_tail_ok t \<longleftrightarrow> length (tail_tag t) = TAG_SIZE \<and> length (tail_nonce t) = NONCE_SIZE"

datatype compressor_algo = NoCompressor | ZstdDefault

datatype compression_algo_pb = PbInvalid | PbNone | PbZstd

primrec compressor_algo_code :: "compressor_algo \<Rightarrow> u8" where
  "compressor_algo_code NoCompressor = 0"
| "compressor_algo_code ZstdDefault = 1"

text \<open>\<open>zstd_available()\<close> is a build-time constant, the argument \<open>zstd\<close>.\<close>

definition algo_is_available :: "bool \<Rightarrow> compressor_algo \<Rightarrow> bool" where
  "algo_is_available zstd a = (case a of NoCompressor \<Rightarrow> True | ZstdDefault \<Rightarrow> zstd)"

definition algo_ensure_available :: "bool \<Rightarrow> compressor_algo \<Rightarrow> compressor_algo + unit" where
  "algo_ensure_available zstd a = (if algo_is_available zstd a then Inr () else Inl a)"

primrec algo_try_from_pb :: "compression_algo_pb \<Rightarrow> compression_algo_pb + compressor_algo" where
  "algo_try_from_pb PbZstd = Inr ZstdDefault"
| "algo_try_from_pb PbNone = Inr NoCompressor"
| "algo_try_from_pb PbInvalid = Inl PbInvalid"

primrec pb_try_from_algo :: "compressor_algo \<Rightarrow> compression_algo_pb + compression_algo_pb" where
  "pb_try_from_algo ZstdDefault = Inr PbZstd"
| "pb_try_from_algo NoCompressor = Inr PbNone"

definition COMPRESSOR_TAIL_SIZE :: nat where [wire_simps]: "COMPRESSOR_TAIL_SIZE = 1"

definition compressor_tail_new :: "compressor_algo \<Rightarrow> u8" where
  "compressor_tail_new a = compressor_algo_code a"

definition compressor_tail_get_algo :: "u8 \<Rightarrow> compressor_algo option" where
  "compressor_tail_get_algo b = (if b = 1 then Some ZstdDefault else None)"

definition TAIL_RESERVED_SIZE :: nat where [wire_simps]:
  "TAIL_RESERVED_SIZE = max AEAD_TAIL_SIZE COMPRESSOR_TAIL_SIZE"

section \<open>Layouts\<close>

datatype zcpacket_type = TCP | UDP | WG | NIC | DummyTunnel

record zcpacket_offsets =
  payload_off :: nat
  pm_header_off :: nat
  tcp_tunnel_header_off :: nat
  udp_tunnel_header_off :: nat
  wg_tunnel_header_off :: nat
  dummy_tunnel_header_off :: nat

definition PAYLOAD_OFFSET_FOR_NIC_PACKET :: nat where [wire_simps]:
  "PAYLOAD_OFFSET_FOR_NIC_PACKET =
     max (max TCP_TUNNEL_HEADER_SIZE UDP_TUNNEL_HEADER_SIZE) WG_TUNNEL_HEADER_SIZE
     + PEER_MANAGER_HEADER_SIZE"

text \<open>\<open>usize::MAX\<close> of a 64-bit target.\<close>

definition INVALID_OFFSET :: nat where [wire_simps]: "INVALID_OFFSET = 2 ^ 64 - 1"

definition get_converted_offset :: "nat \<Rightarrow> nat \<Rightarrow> nat" where [wire_simps]:
  "get_converted_offset old_hdr_size new_hdr_size =
     (if old_hdr_size < new_hdr_size then INVALID_OFFSET else old_hdr_size - new_hdr_size)"

primrec get_packet_offsets :: "zcpacket_type \<Rightarrow> zcpacket_offsets" where
  "get_packet_offsets TCP =
     \<lparr>payload_off = TCP_TUNNEL_HEADER_SIZE + PEER_MANAGER_HEADER_SIZE,
      pm_header_off = TCP_TUNNEL_HEADER_SIZE,
      tcp_tunnel_header_off = 0,
      udp_tunnel_header_off = get_converted_offset TCP_TUNNEL_HEADER_SIZE UDP_TUNNEL_HEADER_SIZE,
      wg_tunnel_header_off = get_converted_offset TCP_TUNNEL_HEADER_SIZE WG_TUNNEL_HEADER_SIZE,
      dummy_tunnel_header_off = get_converted_offset TCP_TUNNEL_HEADER_SIZE 0\<rparr>"
| "get_packet_offsets UDP =
     \<lparr>payload_off = UDP_TUNNEL_HEADER_SIZE + PEER_MANAGER_HEADER_SIZE,
      pm_header_off = UDP_TUNNEL_HEADER_SIZE,
      tcp_tunnel_header_off = get_converted_offset UDP_TUNNEL_HEADER_SIZE TCP_TUNNEL_HEADER_SIZE,
      udp_tunnel_header_off = 0,
      wg_tunnel_header_off = get_converted_offset UDP_TUNNEL_HEADER_SIZE WG_TUNNEL_HEADER_SIZE,
      dummy_tunnel_header_off = get_converted_offset UDP_TUNNEL_HEADER_SIZE 0\<rparr>"
| "get_packet_offsets WG =
     \<lparr>payload_off = WG_TUNNEL_HEADER_SIZE + PEER_MANAGER_HEADER_SIZE,
      pm_header_off = WG_TUNNEL_HEADER_SIZE,
      tcp_tunnel_header_off = get_converted_offset WG_TUNNEL_HEADER_SIZE TCP_TUNNEL_HEADER_SIZE,
      udp_tunnel_header_off = get_converted_offset WG_TUNNEL_HEADER_SIZE UDP_TUNNEL_HEADER_SIZE,
      wg_tunnel_header_off = 0,
      dummy_tunnel_header_off = get_converted_offset WG_TUNNEL_HEADER_SIZE 0\<rparr>"
| "get_packet_offsets NIC =
     \<lparr>payload_off = PAYLOAD_OFFSET_FOR_NIC_PACKET,
      pm_header_off = PAYLOAD_OFFSET_FOR_NIC_PACKET - PEER_MANAGER_HEADER_SIZE,
      tcp_tunnel_header_off =
        PAYLOAD_OFFSET_FOR_NIC_PACKET - PEER_MANAGER_HEADER_SIZE - TCP_TUNNEL_HEADER_SIZE,
      udp_tunnel_header_off =
        PAYLOAD_OFFSET_FOR_NIC_PACKET - PEER_MANAGER_HEADER_SIZE - UDP_TUNNEL_HEADER_SIZE,
      wg_tunnel_header_off =
        PAYLOAD_OFFSET_FOR_NIC_PACKET - PEER_MANAGER_HEADER_SIZE - WG_TUNNEL_HEADER_SIZE,
      dummy_tunnel_header_off = PAYLOAD_OFFSET_FOR_NIC_PACKET - PEER_MANAGER_HEADER_SIZE\<rparr>"
| "get_packet_offsets DummyTunnel =
     \<lparr>payload_off = PEER_MANAGER_HEADER_SIZE,
      pm_header_off = 0,
      tcp_tunnel_header_off = get_converted_offset 0 TCP_TUNNEL_HEADER_SIZE,
      udp_tunnel_header_off = get_converted_offset 0 UDP_TUNNEL_HEADER_SIZE,
      wg_tunnel_header_off = get_converted_offset 0 WG_TUNNEL_HEADER_SIZE,
      dummy_tunnel_header_off = 0\<rparr>"

section \<open>ZCPacket\<close>

record zcpacket =
  inner :: bytes
  zc_type :: zcpacket_type

definition payload_offset :: "zcpacket \<Rightarrow> nat" where
  "payload_offset p = payload_off (get_packet_offsets (zc_type p))"

definition pm_header_offset :: "zcpacket \<Rightarrow> nat" where
  "pm_header_offset p = pm_header_off (get_packet_offsets (zc_type p))"

definition bytes_from_offset :: "nat \<Rightarrow> zcpacket \<Rightarrow> bytes option" where
  "bytes_from_offset offset p = slice_from offset (inner p)"

definition new_nic_packet :: zcpacket where
  "new_nic_packet = \<lparr>inner = [], zc_type = NIC\<rparr>"

definition new_from_buf :: "bytes \<Rightarrow> zcpacket_type \<Rightarrow> zcpacket" where
  "new_from_buf buf t = \<lparr>inner = buf, zc_type = t\<rparr>"

definition new_with_payload :: "(nat \<Rightarrow> u8) \<Rightarrow> bytes \<Rightarrow> zcpacket" where
  "new_with_payload uninit pl =
     (let off = payload_off (get_packet_offsets NIC);
          buf = map uninit [0..<off + length pl]
      in \<lparr>inner = overwrite off pl buf, zc_type = NIC\<rparr>)"

text \<open>\<open>set_len\<close> past the reserved capacity is undefined behaviour and an underflow of the length
  panics; \<open>None\<close> covers both.\<close>

definition new_for_tun :: "(nat \<Rightarrow> u8) \<Rightarrow> nat \<Rightarrow> nat \<Rightarrow> zcpacket option" where
  "new_for_tun uninit cap packet_info_len =
     (let off = payload_off (get_packet_offsets NIC)
      in if packet_info_len \<le> off \<and> off - packet_info_len \<le> cap
         then Some \<lparr>inner = map uninit [0..<off - packet_info_len], zc_type = NIC\<rparr> else None)"

definition payload :: "zcpacket \<Rightarrow> bytes may_panic" where
  "payload p = slice_from (payload_offset p) (inner p)"

text \<open>\<open>mut_payload\<close> hands out the payload slice for writing; \<open>update_payload\<close> is the buffer after the
  caller has replaced its contents by a slice of the same length.\<close>

definition update_payload :: "bytes \<Rightarrow> zcpacket \<Rightarrow> zcpacket may_panic" where
  "update_payload new p =
     (if payload_offset p + length new = length (inner p)
      then Some (p\<lparr>inner := overwrite (payload_offset p) new (inner p)\<rparr>) else panic)"

definition peer_manager_header :: "zcpacket \<Rightarrow> peer_manager_header option" where
  "peer_manager_header p = do {
     bs \<leftarrow> bytes_from_offset (pm_header_offset p) p;
     ref_from_prefix PEER_MANAGER_HEADER_SIZE peer_manager_header_of_bytes bs
   }"

text \<open>\<open>mut_peer_manager_header\<close> followed by the caller's change \<open>f\<close> of the header.\<close>

definition mut_peer_manager_header ::
  "(peer_manager_header \<Rightarrow> peer_manager_header) \<Rightarrow> zcpacket \<Rightarrow> zcpacket option" where
  "mut_peer_manager_header f p = do {
     h \<leftarrow> peer_manager_header p;
     Some (p\<lparr>inner := overwrite (pm_header_offset p) (peer_manager_header_bytes (f h)) (inner p)\<rparr>)
   }"

definition tcp_tunnel_header :: "zcpacket \<Rightarrow> tcp_tunnel_header option" where
  "tcp_tunnel_header p = do {
     bs \<leftarrow> bytes_from_offset (tcp_tunnel_header_off (get_packet_offsets (zc_type p))) p;
     ref_from_prefix TCP_TUNNEL_HEADER_SIZE tcp_tunnel_header_of_bytes bs
   }"

definition mut_tcp_tunnel_header ::
  "(tcp_tunnel_header \<Rightarrow> tcp_tunnel_header) \<Rightarrow> zcpacket \<Rightarrow> zcpacket option" where
  "mut_tcp_tunnel_header f p = do {
     h \<leftarrow> tcp_tunnel_header p;
     Some (p\<lparr>inner := overwrite (tcp_tunnel_header_off (get_packet_offsets (zc_type p)))
                        (tcp_tunnel_header_bytes (f h)) (inner p)\<rparr>)
   }"

definition udp_tunnel_header :: "zcpacket \<Rightarrow> udp_tunnel_header option" where
  "udp_tunnel_header p = do {
     bs \<leftarrow> bytes_from_offset (udp_tunnel_header_off (get_packet_offsets (zc_type p))) p;
     ref_from_prefix UDP_TUNNEL_HEADER_SIZE udp_tunnel_header_of_bytes bs
   }"

definition mut_udp_tunnel_header ::
  "(udp_tunnel_header \<Rightarrow> udp_tunnel_header) \<Rightarrow> zcpacket \<Rightarrow> zcpacket option" where
  "mut_udp_tunnel_header f p = do {
     h \<leftarrow> udp_tunnel_header p;
     Some (p\<lparr>inner := overwrite (udp_tunnel_header_off (get_packet_offsets (zc_type p)))
                        (udp_tunnel_header_bytes (f h)) (inner p)\<rparr>)
   }"

definition wg_tunnel_header_view :: "zcpacket \<Rightarrow> wg_tunnel_header option" where
  "wg_tunnel_header_view p = do {
     bs \<leftarrow> bytes_from_offset (wg_tunnel_header_off (get_packet_offsets (zc_type p))) p;
     ref_from_prefix WG_TUNNEL_HEADER_SIZE (\<lambda>h. \<lparr>ipv4_header = h\<rparr>) bs
   }"

definition payload_bytes :: "zcpacket \<Rightarrow> bytes may_panic" where
  "payload_bytes p = slice_from (payload_offset p) (inner p)"

text \<open>The offset of the UDP payload: the addition overflows for a layout without room for the UDP
  header.\<close>

definition udp_payload :: "zcpacket \<Rightarrow> bytes may_panic" where
  "udp_payload p =
     (let off = udp_tunnel_header_off (get_packet_offsets (zc_type p)) + UDP_TUNNEL_HEADER_SIZE
      in if off < 2 ^ 64 then slice_from off (inner p) else panic)"

definition payload_len :: "zcpacket \<Rightarrow> nat may_panic" where
  "payload_len p =
     (if payload_offset p \<le> length (inner p) then Some (length (inner p) - payload_offset p) else panic)"

definition buf_len :: "zcpacket \<Rightarrow> nat" where
  "buf_len p = length (inner p)"

definition fill_peer_manager_hdr :: "u32 \<Rightarrow> u32 \<Rightarrow> u8 \<Rightarrow> zcpacket \<Rightarrow> zcpacket may_panic" where
  "fill_peer_manager_hdr from_id to_id ptype p = do {
     len \<leftarrow> payload_len p;
     mut_peer_manager_header
       (\<lambda>h. h\<lparr>from_peer_id := from_id, to_peer_id := to_id, hdr_packet_type := ptype, flags := 0,
             forward_counter := 1, reserved := 0, hdr_len := word_of_nat len\<rparr>) p
   }"

definition tunnel_payload :: "zcpacket \<Rightarrow> bytes may_panic" where
  "tunnel_payload p = slice_from (pm_header_offset p) (inner p)"

definition tunnel_payload_bytes :: "zcpacket \<Rightarrow> bytes may_panic" where
  "tunnel_payload_bytes p = slice_from (pm_header_offset p) (inner p)"

text \<open>The offset that \<open>convert_type\<close> advances by; converting to \<open>NIC\<close> is \<open>unreachable!\<close>.\<close>

primrec converted_offset :: "zcpacket_type \<Rightarrow> zcpacket_offsets \<Rightarrow> nat may_panic" where
  "converted_offset TCP o' = Some (tcp_tunnel_header_off o')"
| "converted_offset UDP o' = Some (udp_tunnel_header_off o')"
| "converted_offset WG o' = Some (wg_tunnel_header_off o')"
| "converted_offset DummyTunnel o' = Some (dummy_tunnel_header_off o')"
| "converted_offset NIC o' = panic"

definition convert_type :: "(nat \<Rightarrow> u8) \<Rightarrow> zcpacket_type \<Rightarrow> zcpacket \<Rightarrow> zcpacket may_panic" where
  "convert_type uninit target p =
     (if target = zc_type p then Some p
      else do {
        new_offset \<leftarrow> converted_offset target (get_packet_offsets (zc_type p));
        if new_offset = INVALID_OFFSET
        then do {
          tp \<leftarrow> tunnel_payload p;
          let new_pm_offset = pm_header_off (get_packet_offsets target);
          Some (new_from_buf (map uninit [0..<new_pm_offset] @ tp) target)
        }
        else do {
          buf \<leftarrow> slice_from new_offset (inner p);
          Some (new_from_buf buf target)
        }
      })"

definition is_lossy :: "zcpacket \<Rightarrow> bool" where
  "is_lossy p =
     (case peer_manager_header p of
        Some hdr \<Rightarrow> hdr_packet_type hdr = packet_type_code Data
      | None \<Rightarrow> False)"

definition new_for_foreign_network ::
  "(nat \<Rightarrow> u8) \<Rightarrow> bytes \<Rightarrow> u32 \<Rightarrow> zcpacket \<Rightarrow> zcpacket may_panic" where
  "new_for_foreign_network uninit network_name dst_peer_id foreign = do {
     hdr \<leftarrow> foreign_header_new dst_peer_id network_name;
     tp \<leftarrow> tunnel_payload foreign;
     let off = payload_off (get_packet_offsets NIC);
     let total_payload_len = get_header_len hdr + length tp;
     let name_offset = unat (fn_network_name_offset hdr);
     let name_len = unat (fn_network_name_len hdr);
     let buf0 = map uninit [0..<off + total_payload_len];
     let buf1 = overwrite off (foreign_header_bytes hdr) buf0;
     buf2 \<leftarrow> (if length network_name = name_len
              then Some (overwrite (off + name_offset) network_name buf1) else panic);
     let buf3 = overwrite (off + get_header_len hdr) tp buf2;
     fill_peer_manager_hdr 0 0 (packet_type_code ForeignNetworkPacket) \<lparr>inner = buf3, zc_type = NIC\<rparr>
   }"

definition foreign_network_hdr :: "zcpacket \<Rightarrow> foreign_network_packet_header option may_panic" where
  "foreign_network_hdr p = do {
     h \<leftarrow> peer_manager_header p;
     if hdr_packet_type h = packet_type_code ForeignNetworkPacket
     then do {
       pl \<leftarrow> payload p;
       Some (ref_from_prefix FOREIGN_HEADER_SIZE foreign_header_of_bytes pl)
     }
     else Some None
   }"

definition foreign_network_inner_packet_info ::
  "zcpacket \<Rightarrow> (peer_manager_header \<times> nat) option may_panic" where
  "foreign_network_inner_packet_info p =
     (case peer_manager_header p of
        None \<Rightarrow> Some None
      | Some h \<Rightarrow>
          if hdr_packet_type h \<noteq> packet_type_code ForeignNetworkPacket then Some None
          else do {
            pl \<leftarrow> payload p;
            Some (do {
              fh \<leftarrow> ref_from_prefix FOREIGN_HEADER_SIZE foreign_header_of_bytes pl;
              inner_packet \<leftarrow> slice_from (get_header_len fh) pl;
              ih \<leftarrow> ref_from_prefix PEER_MANAGER_HEADER_SIZE peer_manager_header_of_bytes inner_packet;
              Some (ih, length inner_packet - PEER_MANAGER_HEADER_SIZE)
            })
          })"

definition foreign_network_inner_packet_type :: "zcpacket \<Rightarrow> u8 option may_panic" where
  "foreign_network_inner_packet_type p =
     map_option (map_option (hdr_packet_type \<circ> fst)) (foreign_network_inner_packet_info p)"

definition foreign_network_packet :: "zcpacket \<Rightarrow> zcpacket may_panic" where
  "foreign_network_packet p = do {
     fh_opt \<leftarrow> foreign_network_hdr p;
     fh \<leftarrow> fh_opt;
     buf \<leftarrow> slice_from (get_header_len fh + payload_offset p) (inner p);
     Some (new_from_buf buf DummyTunnel)
   }"

definition get_src_peer_id :: "zcpacket \<Rightarrow> u32 option" where
  "get_src_peer_id p = map_option from_peer_id (peer_manager_header p)"

definition get_dst_peer_id :: "zcpacket \<Rightarrow> u32 option" where
  "get_dst_peer_id p = map_option to_peer_id (peer_manager_header p)"


section \<open>The codecs meet their contract\<close>

lemmas header_codec_defs =
  tcp_tunnel_header_bytes_def tcp_tunnel_header_of_bytes_def
  udp_tunnel_header_bytes_def udp_tunnel_header_of_bytes_def
  peer_manager_header_bytes_def peer_manager_header_of_bytes_def
  foreign_header_bytes_def foreign_header_of_bytes_def
  aead_tail_bytes_def aead_tail_of_bytes_def aead_tail_ok_def

text \<open>A list of known length as the concatenation of the fields of a packed structure.\<close>

lemma split_udp_header: "length bs = 8 \<Longrightarrow> take 4 bs @ [bs ! 4, bs ! 5] @ drop 6 bs = bs"
  by (auto simp: numeral_eq_Suc length_Suc_conv)

lemma split_pm_header:
  "length bs = 16 \<Longrightarrow>
   take 4 bs @ take 4 (drop 4 bs) @ [bs ! 8, bs ! 9, bs ! 10, bs ! 11] @ drop 12 bs = bs"
  by (auto simp: numeral_eq_Suc length_Suc_conv)

lemma split_foreign_header:
  "length bs = 10 \<Longrightarrow> take 2 bs @ take 4 (drop 2 bs) @ take 2 (drop 6 bs) @ drop 8 bs = bs"
  by (auto simp: numeral_eq_Suc length_Suc_conv)

interpretation tcp_hdr: fixed_codec 4 tcp_tunnel_header_bytes tcp_tunnel_header_of_bytes "\<lambda>_. True"
  by unfold_locales (simp_all add: header_codec_defs)

interpretation udp_hdr: fixed_codec 8 udp_tunnel_header_bytes udp_tunnel_header_of_bytes "\<lambda>_. True"
  by unfold_locales (simp_all add: header_codec_defs nth_append split_udp_header [simplified])

interpretation pm_hdr: fixed_codec 16 peer_manager_header_bytes peer_manager_header_of_bytes "\<lambda>_. True"
  by unfold_locales (simp_all add: header_codec_defs nth_append split_pm_header [simplified])

interpretation fn_hdr: fixed_codec 10 foreign_header_bytes foreign_header_of_bytes "\<lambda>_. True"
  by unfold_locales (simp_all add: header_codec_defs split_foreign_header [simplified])

interpretation tail_hdr: fixed_codec 28 aead_tail_bytes aead_tail_of_bytes aead_tail_ok
  by unfold_locales (simp_all add: header_codec_defs wire_simps)

lemmas header_lengths [simp] =
  tcp_hdr.enc_length [OF TrueI] udp_hdr.enc_length [OF TrueI]
  pm_hdr.enc_length [OF TrueI] fn_hdr.enc_length [OF TrueI]

lemmas header_roundtrips [simp] =
  tcp_hdr.dec_enc [OF TrueI] udp_hdr.dec_enc [OF TrueI]
  pm_hdr.dec_enc [OF TrueI] fn_hdr.dec_enc [OF TrueI]

section \<open>Flags\<close>

lemmas flag_defs =
  flags_contains_def flags_insert_def flags_remove_def
  is_encrypted_def set_encrypted_def is_latency_first_def is_exit_node_def is_no_proxy_def
  is_compressed_def is_not_send_to_tun_def liveness_probe_token_def liveness_echo_token_def
  clear_liveness_marker_def set_liveness_marker_def set_liveness_probe_def set_liveness_echo_def

text \<open>A flag mask is one bit, so membership is that bit of the flag byte.\<close>

definition flag_bit :: "nat \<Rightarrow> u8" where
  "flag_bit n = push_bit n 1"

lemma flag_masks:
  "ENCRYPTED = flag_bit 0" "LATENCY_FIRST = flag_bit 1" "EXIT_NODE = flag_bit 2"
  "NO_PROXY = flag_bit 3" "COMPRESSED = flag_bit 4" "LIVENESS_PROBE = flag_bit 5"
  "NOT_SEND_TO_TUN = flag_bit 6" "LIVENESS_ECHO = flag_bit 7"
  by (simp_all add: wire_simps flag_bit_def)

lemma bit_flag_bit: "bit (flag_bit k) n \<longleftrightarrow> n = k \<and> n < 8"
  by (auto simp: flag_bit_def bit_simps)

lemma flags_contains_bit:
  assumes "n < 8"
  shows "flags_contains fs (flag_bit n) = bit fs n"
proof
  assume "flags_contains fs (flag_bit n)"
  then have "bit (fs AND flag_bit n) n = bit (flag_bit n) n"
    by (simp add: flags_contains_def)
  with assms show "bit fs n" by (simp add: bit_simps bit_flag_bit)
next
  assume "bit fs n"
  then have "fs AND flag_bit n = flag_bit n"
    by (intro bit_word_eqI) (auto simp: bit_simps bit_flag_bit)
  then show "flags_contains fs (flag_bit n)" by (simp add: flags_contains_def)
qed

lemma bit_flags_insert: "n < 8 \<Longrightarrow> bit (flags_insert fs (flag_bit k)) n = (bit fs n \<or> n = k)"
  by (auto simp: flags_insert_def bit_simps bit_flag_bit)

lemma bit_flags_remove: "n < 8 \<Longrightarrow> bit (flags_remove fs (flag_bit k)) n = (bit fs n \<and> n \<noteq> k)"
  by (auto simp: flags_remove_def bit_simps bit_flag_bit)

lemma bit_flags_remove2:
  "n < 8 \<Longrightarrow> bit (flags_remove fs (flag_bit k OR flag_bit l)) n = (bit fs n \<and> n \<noteq> k \<and> n \<noteq> l)"
  by (auto simp: flags_remove_def bit_simps bit_flag_bit)

lemmas flag_simps =
  flag_masks flags_contains_bit bit_flags_insert bit_flags_remove bit_flags_remove2

lemma is_encrypted_set_encrypted [simp]: "is_encrypted (set_encrypted b h) = b"
  by (simp add: is_encrypted_def set_encrypted_def flag_simps)

text \<open>Setting the encryption flag twice leaves what the first setting would have given.\<close>

lemma set_encrypted_idem [simp]: "set_encrypted b (set_encrypted c h) = set_encrypted b h"
proof -
  have "bit (flags (set_encrypted b (set_encrypted c h))) n = bit (flags (set_encrypted b h)) n"
    if "n < 8" for n
    using that by (auto simp: set_encrypted_def flag_simps)
  then have "flags (set_encrypted b (set_encrypted c h)) = flags (set_encrypted b h)"
    by (intro bit_word_eqI) simp
  then show ?thesis by (simp add: set_encrypted_def)
qed

lemma set_encrypted_id: "is_encrypted h = b \<Longrightarrow> set_encrypted b h = h"
proof -
  assume b: "is_encrypted h = b"
  have "bit (flags (set_encrypted b h)) n = bit (flags h) n" if "n < 8" for n
    using that b by (cases "n = 0") (auto simp: set_encrypted_def is_encrypted_def flag_simps)
  then have "flags (set_encrypted b h) = flags h"
    by (intro bit_word_eqI) simp
  then show ?thesis by (simp add: set_encrypted_def)
qed

lemma set_encrypted_fields [simp]:
  "from_peer_id (set_encrypted b h) = from_peer_id h"
  "to_peer_id (set_encrypted b h) = to_peer_id h"
  "hdr_packet_type (set_encrypted b h) = hdr_packet_type h"
  by (simp_all add: set_encrypted_def)

section \<open>Layout lemmas\<close>

lemma payload_after_header: "payload_off (get_packet_offsets t) = pm_header_off (get_packet_offsets t) + 16"
  by (cases t) (simp_all add: wire_simps)

lemma payload_offset_eq: "payload_offset p = pm_header_offset p + 16"
  by (simp add: payload_offset_def pm_header_offset_def payload_after_header)

lemma inner_new_with_payload:
  "new_with_payload uninit pl = \<lparr>inner = map uninit [0..<36] @ pl, zc_type = NIC\<rparr>"
  by (simp add: new_with_payload_def overwrite_def wire_simps take_map take_upt)

lemma peer_manager_header_Some_iff:
  "peer_manager_header p = Some h \<longleftrightarrow>
   pm_header_offset p + 16 \<le> length (inner p) \<and>
   h = peer_manager_header_of_bytes (take 16 (drop (pm_header_offset p) (inner p)))"
  by (auto simp: peer_manager_header_def bytes_from_offset_def slice_from_def ref_from_prefix_def
      wire_simps)

lemma peer_manager_header_None_iff:
  "peer_manager_header p = None \<longleftrightarrow> length (inner p) < pm_header_offset p + 16"
  by (auto simp: peer_manager_header_def bytes_from_offset_def slice_from_def ref_from_prefix_def
      wire_simps)

lemma payload_Some_iff: "payload p = Some b \<longleftrightarrow> payload_offset p \<le> length (inner p) \<and> b = drop (payload_offset p) (inner p)"
  by (auto simp: payload_def slice_from_def)

text \<open>A packet has a readable header exactly when its payload slice is in range.\<close>

lemma header_iff_payload: "peer_manager_header p \<noteq> None \<longleftrightarrow> payload p \<noteq> None"
  by (auto simp: peer_manager_header_None_iff payload_def slice_from_None_iff payload_offset_eq)

text \<open>Changing the header keeps the layout, the length and the payload.\<close>

lemma mut_peer_manager_header_spec:
  assumes "peer_manager_header p = Some h"
  obtains q where "mut_peer_manager_header f p = Some q"
    and "zc_type q = zc_type p" and "length (inner q) = length (inner p)"
    and "peer_manager_header q = Some (f h)" and "payload q = payload p"
    and "inner q = overwrite (pm_header_offset p) (peer_manager_header_bytes (f h)) (inner p)"
proof -
  let ?q = "p\<lparr>inner := overwrite (pm_header_offset p) (peer_manager_header_bytes (f h)) (inner p)\<rparr>"
  have fits: "pm_header_offset p + 16 \<le> length (inner p)"
    using assms by (simp add: peer_manager_header_Some_iff)
  have off: "pm_header_offset ?q = pm_header_offset p" "payload_offset ?q = payload_offset p"
    by (simp_all add: pm_header_offset_def payload_offset_def)
  have len: "length (inner ?q) = length (inner p)"
    using fits by (simp add: length_overwrite)
  have "peer_manager_header ?q = Some (f h)"
    using fits len pm_hdr.read_after_write [OF TrueI, of "pm_header_offset p" "inner p" "f h"]
    by (simp add: peer_manager_header_Some_iff off)
  moreover have "payload ?q = payload p"
    using fits len by (simp add: payload_def off slice_from_def drop_overwrite_after payload_offset_eq)
  moreover have "mut_peer_manager_header f p = Some ?q"
    using assms by (simp add: mut_peer_manager_header_def)
  ultimately show thesis using len by (intro that [of ?q]) auto
qed


lemma fill_peer_manager_hdr_spec:
  assumes "payload p = Some pl"
  obtains q h where "fill_peer_manager_hdr a b t p = Some q"
    and "zc_type q = zc_type p" and "length (inner q) = length (inner p)" and "payload q = Some pl"
    and "peer_manager_header q = Some h"
    and "h = \<lparr>from_peer_id = a, to_peer_id = b, hdr_packet_type = t, flags = 0, forward_counter = 1,
              reserved = 0, hdr_len = word_of_nat (length pl)\<rparr>"
proof -
  obtain h0 where h0: "peer_manager_header p = Some h0"
    using assms header_iff_payload [of p] by auto
  have len: "payload_len p = Some (length pl)"
    using assms by (auto simp: payload_Some_iff payload_len_def)
  let ?f = "\<lambda>h. h\<lparr>from_peer_id := a, to_peer_id := b, hdr_packet_type := t, flags := 0,
             forward_counter := 1, reserved := 0, hdr_len := word_of_nat (length pl)\<rparr>"
  obtain q where q: "mut_peer_manager_header ?f p = Some q" "zc_type q = zc_type p"
      "length (inner q) = length (inner p)" "peer_manager_header q = Some (?f h0)" "payload q = payload p"
    using mut_peer_manager_header_spec [OF h0, of ?f] by metis
  show thesis
    by (rule that [of q "?f h0"]) (use q len assms in \<open>simp_all add: fill_peer_manager_hdr_def\<close>)
qed

text \<open>The bytes from the peer-manager header on determine both the header and the payload.\<close>

lemma tunnel_payload_determines:
  assumes "tunnel_payload p = Some tp" and "tunnel_payload q = Some tp"
  shows "peer_manager_header p = peer_manager_header q" and "payload p = payload q"
proof -
  have d: "drop (pm_header_offset p) (inner p) = drop (pm_header_offset q) (inner q)"
    and le: "pm_header_offset p \<le> length (inner p)" "pm_header_offset q \<le> length (inner q)"
    using assms by (auto simp: tunnel_payload_def slice_from_Some_iff)
  have len: "length (inner p) - pm_header_offset p = length (inner q) - pm_header_offset q"
    using arg_cong [OF d, of length] by simp
  show "peer_manager_header p = peer_manager_header q"
    using d le len by (simp add: peer_manager_header_def bytes_from_offset_def slice_from_def)
  have "drop 16 (drop (pm_header_offset p) (inner p)) = drop 16 (drop (pm_header_offset q) (inner q))"
    using d by simp
  then show "payload p = payload q"
    using le len by (auto simp: payload_def slice_from_def payload_offset_eq add.commute)
qed

lemma converted_offset_invalid_or_fits:
  assumes "converted_offset target (get_packet_offsets t) = Some off" and "off \<noteq> INVALID_OFFSET"
  shows "off + pm_header_off (get_packet_offsets target) = pm_header_off (get_packet_offsets t)"
  using assms by (cases target; cases t) (simp_all add: wire_simps split: if_splits)

lemma converted_offset_defined: "target \<noteq> NIC \<Longrightarrow> \<exists>off. converted_offset target o' = Some off"
  by (cases target) simp_all

text \<open>The buffer that \<open>new_for_foreign_network\<close> fills, field by field.\<close>

lemma foreign_buffer:
  assumes "length hdr = 10"
  shows "overwrite (36 + (10 + length name)) tp
           (overwrite (36 + 10) name
             (overwrite 36 hdr (map uninit [0..<36 + (10 + length name + length tp)])))
         = map uninit [0..<36] @ hdr @ name @ tp"
proof -
  have a: "take 36 (map uninit [0..<46 + (length name + length tp)]) = map uninit [0..<36]"
    by (simp add: take_map take_upt)
  have b: "overwrite 36 hdr (map uninit [0..<36 + (10 + length name + length tp)])
      = map uninit [0..<36] @ hdr @ drop 46 (map uninit [0..<36 + (10 + length name + length tp)])"
    (is "_ = _ @ _ @ ?r")
    using assms a by (simp add: overwrite_def)
  have r: "length ?r = length name + length tp" by simp
  have c: "overwrite 46 name (map uninit [0..<36] @ hdr @ ?r)
      = map uninit [0..<36] @ hdr @ name @ drop (length name) ?r"
    using assms by (simp add: overwrite_def)
  have d: "overwrite (46 + length name) tp (map uninit [0..<36] @ hdr @ name @ drop (length name) ?r)
      = map uninit [0..<36] @ hdr @ name @ tp"
    using assms r by (simp add: overwrite_def)
  show ?thesis using b c d by (simp add: add.assoc [symmetric])
qed

lemma foreign_header_new_spec:
  assumes "length name \<le> 65525"
  obtains h where "foreign_header_new dst name = Some h" and "fn_dst_peer_id h = dst"
    and "get_header_len h = 10 + length name" and "unat (fn_network_name_offset h) = 10"
    and "unat (fn_network_name_len h) = length name"
proof -
  have n: "unat (word_of_nat (length name) :: u16) = length name"
    using assms by (simp add: unat_of_nat)
  have o10: "unat (word_of_nat 10 :: u16) = 10" by simp
  have s: "unat (word_of_nat 10 + word_of_nat (length name) :: u16) = 10 + length name"
    using assms n o10 by (subst unat_add_lem [THEN iffD1]) simp_all
  have "foreign_header_new dst name
      = Some \<lparr>fn_header_len = word_of_nat 10 + word_of_nat (length name), fn_dst_peer_id = dst,
              fn_network_name_offset = word_of_nat 10, fn_network_name_len = word_of_nat (length name)\<rparr>"
    using assms n o10 by (simp add: foreign_header_new_def wire_simps Let_def)
  then show thesis
    using that n o10 s by (simp add: get_header_len_def)
qed

section \<open>Properties\<close>

text \<open>C6. Converting a packet between tunnel layouts (every layout except \<open>NIC\<close> as a target) never
  panics on a buffer that holds the tunnel header space, and it keeps the peer-manager header and
  the payload, whether the buffer is advanced or copied and whatever the uninitialised bytes are.
\<close>

theorem convert_type_keeps_content:
  assumes "pm_header_offset p \<le> length (inner p)" and "target \<noteq> NIC"
  shows "\<exists>q. convert_type uninit target p = Some q \<and> zc_type q = target
    \<and> tunnel_payload q = tunnel_payload p
    \<and> peer_manager_header q = peer_manager_header p \<and> payload q = payload p"
proof -
  have tp: "tunnel_payload p = Some (drop (pm_header_offset p) (inner p))"
    using assms by (simp add: tunnel_payload_def slice_from_def)
  have "\<exists>q. convert_type uninit target p = Some q \<and> zc_type q = target \<and> tunnel_payload q = tunnel_payload p"
  proof (cases "target = zc_type p")
    case True
    then show ?thesis by (simp add: convert_type_def)
  next
    case False
    obtain off where off: "converted_offset target (get_packet_offsets (zc_type p)) = Some off"
      using converted_offset_defined assms(2) by blast
    show ?thesis
    proof (cases "off = INVALID_OFFSET")
      case True
      with False off tp show ?thesis
        by (simp add: convert_type_def Let_def new_from_buf_def tunnel_payload_def pm_header_offset_def
            slice_from_def)
    next
      case valid: False
      have "off + pm_header_off (get_packet_offsets target) = pm_header_offset p"
        using converted_offset_invalid_or_fits [OF off valid] by (simp add: pm_header_offset_def)
      with False off valid assms(1) show ?thesis
        by (auto simp: convert_type_def new_from_buf_def tunnel_payload_def slice_from_def
            pm_header_offset_def add.commute)
    qed
  qed
  then obtain q where q: "convert_type uninit target p = Some q" "zc_type q = target"
      "tunnel_payload q = tunnel_payload p" by blast
  then show ?thesis
    using tunnel_payload_determines [of q _ p] tp by auto
qed

theorem convert_type_keeps_content_witness:
  "pm_header_offset (new_from_buf (replicate 20 7) TCP) \<le> length (inner (new_from_buf (replicate 20 7) TCP))
   \<and> WG \<noteq> NIC
   \<and> (\<exists>q. convert_type (\<lambda>_. 0) WG (new_from_buf (replicate 20 7) TCP) = Some q \<and> zc_type q = WG
        \<and> payload q = Some [])"
proof -
  let ?p = "new_from_buf (replicate 20 7) TCP"
  have h: "pm_header_offset ?p \<le> length (inner ?p)"
    by (simp add: new_from_buf_def pm_header_offset_def wire_simps)
  have "payload ?p = Some []"
    by (simp add: new_from_buf_def payload_def payload_offset_def slice_from_def wire_simps)
  with h show ?thesis
    using convert_type_keeps_content [OF h, of WG "\<lambda>_. 0"] by auto
qed


text \<open>C7. Wrapping a packet for a foreign network and unwrapping it is the identity on the tunnel
  payload: for a network name that fits the 16-bit length fields, the wrapped packet is built
  without a panic, its header gives back the destination peer and the network name, and
  \<open>foreign_network_packet\<close> gives back exactly the wrapped bytes as a packet without tunnel header.
\<close>

theorem foreign_network_roundtrip:
  assumes tp: "tunnel_payload foreign = Some tp" and len: "length name \<le> 65525" and "utf8_valid name"
  shows "\<exists>q h pl. new_for_foreign_network uninit name dst foreign = Some q
    \<and> foreign_network_hdr q = Some (Some h) \<and> fn_dst_peer_id h = dst
    \<and> payload q = Some pl \<and> get_network_name h pl = Some name
    \<and> foreign_network_packet q = Some (new_from_buf tp DummyTunnel)"
proof -
  obtain h where h: "foreign_header_new dst name = Some h" "fn_dst_peer_id h = dst"
      "get_header_len h = 10 + length name" "unat (fn_network_name_offset h) = 10"
      "unat (fn_network_name_len h) = length name"
    using foreign_header_new_spec [OF len] by metis
  define hb where "hb = foreign_header_bytes h"
  have hb: "length hb = 10" by (simp add: hb_def)
  let ?p = "\<lparr>inner = map uninit [0..<36] @ hb @ name @ tp, zc_type = NIC\<rparr>"
  have pl: "payload ?p = Some (hb @ name @ tp)"
    by (simp add: payload_def payload_offset_def slice_from_def wire_simps)
  obtain q hd where q: "fill_peer_manager_hdr 0 0 (packet_type_code ForeignNetworkPacket) ?p = Some q"
      "zc_type q = NIC" "length (inner q) = length (inner ?p)" "payload q = Some (hb @ name @ tp)"
      "peer_manager_header q = Some hd" "hdr_packet_type hd = packet_type_code ForeignNetworkPacket"
    using fill_peer_manager_hdr_spec [OF pl] by (metis (no_types, lifting) peer_manager_header.select_convs(3) zcpacket.select_convs(2))
  have new: "new_for_foreign_network uninit name dst foreign = Some q"
    using h tp q(1) foreign_buffer [OF hb, of name tp uninit]
    by (simp add: new_for_foreign_network_def wire_simps Let_def hb_def add.assoc)
  have fh: "foreign_network_hdr q = Some (Some h)"
    using q(4,5,6) hb by (simp add: foreign_network_hdr_def ref_from_prefix_def wire_simps hb_def)
  have name: "get_network_name h (hb @ name @ tp) = Some name"
    using h hb assms(3) by (simp add: get_network_name_def slice_range_def)
  have "slice_from (get_header_len h + payload_offset q) (inner q) = Some tp"
  proof -
    have "drop (payload_offset q) (inner q) = hb @ name @ tp"
      using q(4) by (simp add: payload_Some_iff)
    then have "drop (10 + length name + payload_offset q) (inner q) = tp"
      using hb drop_drop [of "10 + length name" "payload_offset q" "inner q", symmetric] by simp
    moreover have "10 + length name + payload_offset q \<le> length (inner q)"
      using q(2,3) hb by (simp add: payload_offset_def wire_simps)
    ultimately show ?thesis using h(3) by (simp add: slice_from_def)
  qed
  then have "foreign_network_packet q = Some (new_from_buf tp DummyTunnel)"
    using fh by (simp add: foreign_network_packet_def)
  with new fh name q(4) h(2) show ?thesis by blast
qed

theorem foreign_network_roundtrip_witness:
  "tunnel_payload (new_from_buf (replicate 17 1) DummyTunnel) = Some (replicate 17 1)
   \<and> length [0x6e, 0x65, 0x74 :: u8] \<le> 65525 \<and> utf8_valid [0x6e, 0x65, 0x74]
   \<and> (\<exists>q. new_for_foreign_network (\<lambda>_. 0) [0x6e, 0x65, 0x74] 9 (new_from_buf (replicate 17 1) DummyTunnel) = Some q
        \<and> foreign_network_packet q = Some (new_from_buf (replicate 17 1) DummyTunnel))"
proof -
  have a: "tunnel_payload (new_from_buf (replicate 17 1) DummyTunnel) = Some (replicate 17 1)"
    by (simp add: tunnel_payload_def new_from_buf_def pm_header_offset_def slice_from_def)
  have b: "length [0x6e, 0x65, 0x74 :: u8] \<le> 65525" by simp
  have c: "utf8_valid [0x6e, 0x65, 0x74]" by simp
  show ?thesis
    using a b c foreign_network_roundtrip [OF a b c, of "\<lambda>_. 0" 9] by blast
qed

text \<open>C15. The two liveness markers share the reserved byte and exclude each other: after setting a probe
  token the header carries exactly that probe and no echo, after setting an echo token exactly that
  echo and no probe, clearing removes both, and none of the three touches another flag.
\<close>

theorem liveness_markers_exclusive:
  "liveness_probe_token (set_liveness_probe tok h) = Some tok
   \<and> liveness_echo_token (set_liveness_probe tok h) = None
   \<and> liveness_echo_token (set_liveness_echo tok h) = Some tok
   \<and> liveness_probe_token (set_liveness_echo tok h) = None
   \<and> liveness_probe_token (clear_liveness_marker h) = None
   \<and> liveness_echo_token (clear_liveness_marker h) = None
   \<and> (\<forall>n < 8. n \<noteq> 5 \<longrightarrow> n \<noteq> 7 \<longrightarrow>
        bit (flags (set_liveness_probe tok h)) n = bit (flags h) n
        \<and> bit (flags (set_liveness_echo tok h)) n = bit (flags h) n
        \<and> bit (flags (clear_liveness_marker h)) n = bit (flags h) n)"
  by (auto simp: liveness_probe_token_def liveness_echo_token_def set_liveness_probe_def
      set_liveness_echo_def set_liveness_marker_def clear_liveness_marker_def flag_simps Let_def)

theorem liveness_markers_exclusive_witness:
  "bit (flags (set_liveness_probe 7
      \<lparr>from_peer_id = 1, to_peer_id = 2, hdr_packet_type = 1, flags = 1, forward_counter = 1,
       reserved = 0, hdr_len = 0\<rparr>)) 0"
proof -
  let ?h = "\<lparr>from_peer_id = 1, to_peer_id = 2, hdr_packet_type = 1, flags = 1, forward_counter = 1,
       reserved = 0, hdr_len = 0\<rparr>"
  have "(0::nat) < 8" "(0::nat) \<noteq> 5" "(0::nat) \<noteq> 7" by simp_all
  then have "bit (flags (set_liveness_probe 7 ?h)) 0 = bit (flags ?h) 0"
    using liveness_markers_exclusive [of 7 ?h] by blast
  then show ?thesis by simp
qed

end
