(* ===== verification/Encryptor.thy ===== *)
theory Encryptor
  imports Packet
begin

text \<open>
  The packet ciphers of \<open>easytier-core/src/tunnel/encrypt\<close> (\<open>mod.rs\<close>, \<open>xor.rs\<close>, \<open>aes_gcm.rs\<close>,
  \<open>chacha20.rs\<close>) and the algorithm vocabulary of \<open>config/encryption.rs\<close>.

  AES-GCM and ChaCha20-Poly1305 go through the same steps with another primitive, so both are
  \<open>AeadCipher\<close>. The AEAD primitives and HMAC-SHA256 come from third-party crates and are fields of the record
  \<open>crypto\<close>. What the code relies on is the predicate \<open>aead_correct\<close>: sealing keeps the length and
  yields a 16-byte tag, opening what was sealed gives the plaintext back, and opening keeps the
  length as well (the calls work in place). An operation that
  fails leaves a packet the callers throw away, so the model returns only the error.

  The locale \<open>packet_cipher\<close> is the contract of the trait \<open>Encryptor\<close> that the secure datagram
  session relies on; the XOR cipher and the AEAD ciphers are interpretations of it.
\<close>

section \<open>Algorithms\<close>

datatype encryption_algorithm = Xor | AesGcm | Aes256Gcm | ChaCha20

definition ascii_lower :: "char \<Rightarrow> char" where
  "ascii_lower c = (if 65 \<le> (of_char c :: nat) \<and> (of_char c :: nat) \<le> 90 then char_of ((of_char c :: nat) + 32) else c)"

primrec algorithm_as_str :: "encryption_algorithm \<Rightarrow> string" where
  "algorithm_as_str Xor = ''xor''"
| "algorithm_as_str AesGcm = ''aes-gcm''"
| "algorithm_as_str Aes256Gcm = ''aes-256-gcm''"
| "algorithm_as_str ChaCha20 = ''chacha20''"

definition algorithm_from_str :: "string \<Rightarrow> encryption_algorithm option" where
  "algorithm_from_str value =
     (let v = map ascii_lower value in
      if v = ''xor'' then Some Xor
      else if v = ''aes-gcm'' \<or> v = ''openssl-aes-gcm'' then Some AesGcm
      else if v = ''aes-256-gcm'' \<or> v = ''openssl-aes-256-gcm'' then Some Aes256Gcm
      else if v = ''chacha20'' \<or> v = ''chacha20-poly1305'' \<or> v = ''openssl-chacha20'' then Some ChaCha20
      else None)"

text \<open>The build features that decide which AEAD families are compiled in.\<close>

record build_features =
  has_aes :: bool
  has_chacha :: bool

primrec algorithm_is_available :: "build_features \<Rightarrow> encryption_algorithm \<Rightarrow> bool" where
  "algorithm_is_available bf Xor = True"
| "algorithm_is_available bf AesGcm = has_aes bf"
| "algorithm_is_available bf Aes256Gcm = has_aes bf"
| "algorithm_is_available bf ChaCha20 = has_chacha bf"

section \<open>Ciphers\<close>

datatype enc_error =
    PacketTooShort nat
  | DecryptionFailed
  | EncryptionFailed
  | InvalidAlgorithm string
  | AlgorithmUnavailable string

datatype aead_kind = Aes128GcmKind | Aes256GcmKind | ChaCha20Poly1305Kind

record crypto =
  aead_seal :: "aead_kind \<Rightarrow> bytes \<Rightarrow> bytes \<Rightarrow> bytes \<Rightarrow> (bytes \<times> bytes) option"
  aead_open :: "aead_kind \<Rightarrow> bytes \<Rightarrow> bytes \<Rightarrow> bytes \<Rightarrow> bytes \<Rightarrow> bytes option"
  hmac_sha256 :: "bytes \<Rightarrow> bytes \<Rightarrow> bytes"

definition aead_correct :: "crypto \<Rightarrow> bool" where
  "aead_correct C \<longleftrightarrow>
     (\<forall>kind key n pt ct tag. aead_seal C kind key n pt = Some (ct, tag) \<longrightarrow>
        length ct = length pt \<and> length tag = TAG_SIZE \<and> aead_open C kind key n ct tag = Some pt) \<and>
     (\<forall>kind key n ct tag pt. aead_open C kind key n ct tag = Some pt \<longrightarrow> length pt = length ct)"

datatype encryptor =
    NullCipher
  | UnsupportedCipher string bool
  | XorCipher bytes
  | AeadCipher aead_kind bytes

type_synonym cipher_result = "(enc_error + zcpacket) may_panic"

definition null_decrypt :: "zcpacket \<Rightarrow> cipher_result" where
  "null_decrypt p = do {
     h \<leftarrow> peer_manager_header p;
     Some (if is_encrypted h then Inl DecryptionFailed else Inr p)
   }"

definition unsupported_error :: "string \<Rightarrow> bool \<Rightarrow> enc_error" where
  "unsupported_error algorithm unavailable =
     (if unavailable then AlgorithmUnavailable algorithm else InvalidAlgorithm algorithm)"

text \<open>\<open>self.key[i % self.key.len()]\<close>; the constructor refuses an empty key.\<close>

definition xor_new :: "bytes \<Rightarrow> encryptor may_panic" where
  "xor_new key = (if key = [] then panic else Some (XorCipher key))"

definition xor_data :: "bytes \<Rightarrow> bytes \<Rightarrow> bytes" where
  "xor_data key xs = map (\<lambda>(i, b). b XOR key ! (i mod length key)) (enumerate 0 xs)"

definition xor_decrypt :: "bytes \<Rightarrow> zcpacket \<Rightarrow> cipher_result" where
  "xor_decrypt key p = do {
     h \<leftarrow> peer_manager_header p;
     if \<not> is_encrypted h then Some (Inr p)
     else do {
       pl \<leftarrow> payload p;
       p1 \<leftarrow> update_payload (xor_data key pl) p;
       p2 \<leftarrow> mut_peer_manager_header (set_encrypted False) p1;
       Some (Inr p2)
     }
   }"

definition xor_encrypt :: "bytes \<Rightarrow> zcpacket \<Rightarrow> cipher_result" where
  "xor_encrypt key p = do {
     h \<leftarrow> peer_manager_header p;
     if is_encrypted h then Some (Inr p)
     else do {
       pl \<leftarrow> payload p;
       p1 \<leftarrow> update_payload (xor_data key pl) p;
       p2 \<leftarrow> mut_peer_manager_header (set_encrypted True) p1;
       Some (Inr p2)
     }
   }"

definition aead_decrypt :: "crypto \<Rightarrow> aead_kind \<Rightarrow> bytes \<Rightarrow> zcpacket \<Rightarrow> cipher_result" where
  "aead_decrypt C kind key p = do {
     h \<leftarrow> peer_manager_header p;
     if \<not> is_encrypted h then Some (Inr p)
     else do {
       pl \<leftarrow> payload p;
       if length pl < AEAD_TAIL_SIZE then Some (Inl (PacketTooShort (length pl)))
       else do {
         let text_len = length pl - AEAD_TAIL_SIZE;
         tl \<leftarrow> ref_from_suffix AEAD_TAIL_SIZE aead_tail_of_bytes pl;
         case aead_open C kind key (tail_nonce tl) (take text_len pl) (tail_tag tl) of
           None \<Rightarrow> Some (Inl DecryptionFailed)
         | Some pt \<Rightarrow> do {
             p1 \<leftarrow> update_payload (pt @ drop text_len pl) p;
             p2 \<leftarrow> mut_peer_manager_header (set_encrypted False) p1;
             Some (Inr (p2\<lparr>inner := take (buf_len p2 - AEAD_TAIL_SIZE) (inner p2)\<rparr>))
           }
       }
     }
   }"

text \<open>\<open>rnd\<close> is the nonce that the random generator would deliver; it is used only when the caller
  passes none.\<close>

definition aead_encrypt_with_nonce ::
  "crypto \<Rightarrow> aead_kind \<Rightarrow> bytes \<Rightarrow> bytes \<Rightarrow> bytes option \<Rightarrow> zcpacket \<Rightarrow> cipher_result" where
  "aead_encrypt_with_nonce C kind key rnd nonce p = do {
     h \<leftarrow> peer_manager_header p;
     if is_encrypted h then Some (Inr p)
     else if (case nonce of Some n \<Rightarrow> length n \<noteq> NONCE_SIZE | None \<Rightarrow> False)
     then Some (Inl EncryptionFailed)
     else do {
       let n = (case nonce of Some n \<Rightarrow> n | None \<Rightarrow> rnd);
       pl \<leftarrow> payload p;
       case aead_seal C kind key n pl of
         None \<Rightarrow> Some (Inl EncryptionFailed)
       | Some (ct, tag) \<Rightarrow> do {
           p1 \<leftarrow> update_payload ct p;
           p2 \<leftarrow> mut_peer_manager_header (set_encrypted True) p1;
           Some (Inr (p2\<lparr>inner := inner p2 @ aead_tail_bytes \<lparr>tail_tag = tag, tail_nonce = n\<rparr>\<rparr>))
         }
     }
   }"

primrec encryptor_decrypt :: "crypto \<Rightarrow> encryptor \<Rightarrow> zcpacket \<Rightarrow> cipher_result" where
  "encryptor_decrypt C NullCipher p = null_decrypt p"
| "encryptor_decrypt C (UnsupportedCipher a u) p = Some (Inl (unsupported_error a u))"
| "encryptor_decrypt C (XorCipher key) p = xor_decrypt key p"
| "encryptor_decrypt C (AeadCipher kind key) p = aead_decrypt C kind key p"

primrec encryptor_encrypt_with_nonce ::
  "crypto \<Rightarrow> bytes \<Rightarrow> encryptor \<Rightarrow> bytes option \<Rightarrow> zcpacket \<Rightarrow> cipher_result" where
  "encryptor_encrypt_with_nonce C rnd NullCipher n p = Some (Inr p)"
| "encryptor_encrypt_with_nonce C rnd (UnsupportedCipher a u) n p = Some (Inl (unsupported_error a u))"
| "encryptor_encrypt_with_nonce C rnd (XorCipher key) n p = xor_encrypt key p"
| "encryptor_encrypt_with_nonce C rnd (AeadCipher kind key) n p = aead_encrypt_with_nonce C kind key rnd n p"

definition validate_algorithm :: "build_features \<Rightarrow> string \<Rightarrow> enc_error + unit" where
  "validate_algorithm bf algorithm =
     (case algorithm_from_str algorithm of
        None \<Rightarrow> Inl (InvalidAlgorithm algorithm)
      | Some a \<Rightarrow> if algorithm_is_available bf a then Inr ()
                  else Inl (AlgorithmUnavailable (algorithm_as_str a)))"

definition create_aes_128 :: "build_features \<Rightarrow> bytes \<Rightarrow> encryptor" where
  "create_aes_128 bf key =
     (if has_aes bf then AeadCipher Aes128GcmKind key else UnsupportedCipher ''aes-gcm'' True)"

definition create_aes_256 :: "build_features \<Rightarrow> bytes \<Rightarrow> encryptor" where
  "create_aes_256 bf key =
     (if has_aes bf then AeadCipher Aes256GcmKind key else UnsupportedCipher ''aes-256-gcm'' True)"

definition create_chacha20 :: "build_features \<Rightarrow> bytes \<Rightarrow> encryptor" where
  "create_chacha20 bf key =
     (if has_chacha bf then AeadCipher ChaCha20Poly1305Kind key else UnsupportedCipher ''chacha20'' True)"

lemmas create_cipher_defs = create_aes_128_def create_aes_256_def create_chacha20_def

definition create_encryptor :: "build_features \<Rightarrow> string \<Rightarrow> bytes \<Rightarrow> bytes \<Rightarrow> encryptor may_panic" where
  "create_encryptor bf algorithm key_128 key_256 =
     (case algorithm_from_str algorithm of
        None \<Rightarrow> Some (UnsupportedCipher algorithm False)
      | Some Xor \<Rightarrow> xor_new key_128
      | Some AesGcm \<Rightarrow> Some (create_aes_128 bf key_128)
      | Some Aes256Gcm \<Rightarrow> Some (create_aes_256 bf key_256)
      | Some ChaCha20 \<Rightarrow> Some (create_chacha20 bf key_256))"

section \<open>Packets as prefix, header and body\<close>

text \<open>Every packet whose header can be read is of the form \<open>zc_make\<close>; on that form the accessors
  are rewrite rules.\<close>

definition zc_make :: "zcpacket_type \<Rightarrow> bytes \<Rightarrow> peer_manager_header \<Rightarrow> bytes \<Rightarrow> zcpacket" where
  "zc_make t pre h body = \<lparr>inner = pre @ peer_manager_header_bytes h @ body, zc_type = t\<rparr>"

definition zc_prefix_ok :: "zcpacket_type \<Rightarrow> bytes \<Rightarrow> bool" where
  "zc_prefix_ok t pre \<longleftrightarrow> length pre = pm_header_off (get_packet_offsets t)"

lemma zc_make_cases:
  assumes "peer_manager_header p = Some h"
  obtains t pre body where "p = zc_make t pre h body" and "zc_prefix_ok t pre"
proof -
  let ?o = "pm_header_offset p"
  have fits: "?o + 16 \<le> length (inner p)"
    and h: "h = peer_manager_header_of_bytes (take 16 (drop ?o (inner p)))"
    using assms by (simp_all add: peer_manager_header_Some_iff)
  have "peer_manager_header_bytes h = take 16 (drop ?o (inner p))"
    using fits by (simp add: h pm_hdr.enc_dec)
  then have "inner p = take ?o (inner p) @ peer_manager_header_bytes h @ drop 16 (drop ?o (inner p))"
    by (metis append_take_drop_id)
  then have "p = zc_make (zc_type p) (take ?o (inner p)) h (drop 16 (drop ?o (inner p)))"
    by (simp add: zc_make_def)
  moreover have "zc_prefix_ok (zc_type p) (take ?o (inner p))"
    using fits by (simp add: zc_prefix_ok_def pm_header_offset_def)
  ultimately show thesis by (rule that)
qed

lemma zc_make_simps [simp]:
  assumes "zc_prefix_ok t pre"
  shows "peer_manager_header (zc_make t pre h body) = Some h"
    and "payload (zc_make t pre h body) = Some body"
    and "length b = length body \<Longrightarrow> update_payload b (zc_make t pre h body) = Some (zc_make t pre h b)"
    and "mut_peer_manager_header f (zc_make t pre h body) = Some (zc_make t pre (f h) body)"
proof -
  have len: "length pre = pm_header_off (get_packet_offsets t)"
    using assms by (simp add: zc_prefix_ok_def)
  then show hdr: "peer_manager_header (zc_make t pre h body) = Some h"
    by (simp add: zc_make_def peer_manager_header_Some_iff pm_header_offset_def)
  show "payload (zc_make t pre h body) = Some body"
    using len by (simp add: zc_make_def payload_Some_iff payload_offset_def payload_after_header)
  show "length b = length body \<Longrightarrow> update_payload b (zc_make t pre h body) = Some (zc_make t pre h b)"
    using len by (simp add: zc_make_def update_payload_def payload_offset_def payload_after_header
        overwrite_def)
  show "mut_peer_manager_header f (zc_make t pre h body) = Some (zc_make t pre (f h) body)"
    using len hdr by (simp add: mut_peer_manager_header_def zc_make_def pm_header_offset_def
        overwrite_def)
qed

lemma zc_make_append:
  "(zc_make t pre h body)\<lparr>inner := inner (zc_make t pre h body) @ xs\<rparr> = zc_make t pre h (body @ xs)"
  by (simp add: zc_make_def)

lemma zc_make_truncate:
  "(zc_make t pre h (body @ xs))\<lparr>inner := take (buf_len (zc_make t pre h (body @ xs)) - length xs)
      (inner (zc_make t pre h (body @ xs)))\<rparr> = zc_make t pre h body"
  by (simp add: zc_make_def buf_len_def)

lemma zc_make_type [simp]: "zc_type (zc_make t pre h body) = t"
  by (simp add: zc_make_def)

lemma aead_tail_read:
  assumes "length tag = TAG_SIZE" and "length n = NONCE_SIZE"
  shows "ref_from_suffix AEAD_TAIL_SIZE aead_tail_of_bytes (ct @ aead_tail_bytes \<lparr>tail_tag = tag, tail_nonce = n\<rparr>)
         = Some \<lparr>tail_tag = tag, tail_nonce = n\<rparr>"
    and "length (aead_tail_bytes \<lparr>tail_tag = tag, tail_nonce = n\<rparr>) = AEAD_TAIL_SIZE"
proof -
  have ok: "aead_tail_ok \<lparr>tail_tag = tag, tail_nonce = n\<rparr>"
    using assms by (simp add: aead_tail_ok_def)
  then show "length (aead_tail_bytes \<lparr>tail_tag = tag, tail_nonce = n\<rparr>) = AEAD_TAIL_SIZE"
    by (simp add: wire_simps tail_hdr.enc_length)
  with ok show "ref_from_suffix AEAD_TAIL_SIZE aead_tail_of_bytes (ct @ aead_tail_bytes \<lparr>tail_tag = tag, tail_nonce = n\<rparr>)
         = Some \<lparr>tail_tag = tag, tail_nonce = n\<rparr>"
    by (simp add: ref_from_suffix_def wire_simps tail_hdr.dec_enc)
qed

section \<open>The contract of a packet cipher\<close>

text \<open>\<open>usable\<close> is what the cipher needs of its environment: a non-empty key, or a correct AEAD. The
  header survives except for the encrypted flag, a packet is never encrypted twice, and decryption
  undoes encryption.\<close>

locale packet_cipher =
  fixes usable :: bool
    and enc :: "bytes \<Rightarrow> zcpacket \<Rightarrow> cipher_result"
    and dec :: "zcpacket \<Rightarrow> cipher_result"
  assumes enc_marks: "usable \<Longrightarrow> peer_manager_header p = Some h \<Longrightarrow> enc n p = Some (Inr q) \<Longrightarrow>
      peer_manager_header q = Some (set_encrypted True h)"
    and enc_again: "peer_manager_header p = Some h \<Longrightarrow> is_encrypted h \<Longrightarrow> enc n p = Some (Inr p)"
    and dec_enc: "usable \<Longrightarrow> peer_manager_header p = Some h \<Longrightarrow> \<not> is_encrypted h \<Longrightarrow>
      enc n p = Some (Inr q) \<Longrightarrow> dec q = Some (Inr p)"
    and dec_plain: "peer_manager_header p = Some h \<Longrightarrow> \<not> is_encrypted h \<Longrightarrow> dec p = Some (Inr p)"
begin

lemma enc_idem:
  "usable \<Longrightarrow> peer_manager_header p = Some h \<Longrightarrow> enc n p = Some (Inr q) \<Longrightarrow> enc m q = Some (Inr q)"
  by (rule enc_again [OF enc_marks]) simp_all

lemma enc_inject_packets:
  assumes "usable" and "peer_manager_header p = Some h" and "\<not> is_encrypted h"
    and "peer_manager_header p' = Some h'" and "\<not> is_encrypted h'"
    and "enc n p = Some (Inr q)" and "enc m p' = Some (Inr q)"
  shows "p = p'"
proof -
  have "dec q = Some (Inr p)" "dec q = Some (Inr p')"
    using assms dec_enc by blast+
  then show ?thesis by simp
qed

end

lemma length_xor_data [simp]: "length (xor_data key xs) = length xs"
  by (simp add: xor_data_def)

lemma xor_data_involutive [simp]: "xor_data key (xor_data key xs) = xs"
  by (rule nth_equalityI) (simp_all add: xor_data_def nth_enumerate_eq ac_simps flip: xor.assoc)

lemma xor_cipher_on_packet:
  assumes "zc_prefix_ok t pre"
  shows "xor_encrypt key (zc_make t pre h body) = Some (Inr (if is_encrypted h then zc_make t pre h body
           else zc_make t pre (set_encrypted True h) (xor_data key body)))"
    and "xor_decrypt key (zc_make t pre h body) = Some (Inr (if is_encrypted h
           then zc_make t pre (set_encrypted False h) (xor_data key body) else zc_make t pre h body))"
  using assms by (simp_all add: xor_encrypt_def xor_decrypt_def)

interpretation xor_cipher: packet_cipher True "\<lambda>n. xor_encrypt key" "xor_decrypt key" for key
proof (unfold_locales, goal_cases)
  case (1 p h n q)
  obtain t pre body where p: "p = zc_make t pre h body" "zc_prefix_ok t pre"
    using 1(2) by (rule zc_make_cases)
  then show ?case
    using 1(3) xor_cipher_on_packet(1) [OF p(2), of key h body]
    by (auto simp: set_encrypted_id split: if_splits)
next
  case (2 p h n)
  then show ?case by (simp add: xor_encrypt_def)
next
  case (3 p h n q)
  obtain t pre body where p: "p = zc_make t pre h body" "zc_prefix_ok t pre"
    using 3(2) by (rule zc_make_cases)
  have "q = zc_make t pre (set_encrypted True h) (xor_data key body)"
    using 3 p xor_cipher_on_packet(1) [OF p(2), of key h body] by simp
  then show ?case
    using xor_cipher_on_packet(2) [OF p(2), of key] p 3(3) by (simp add: set_encrypted_id)
next
  case (4 p h)
  then show ?case by (simp add: xor_decrypt_def)
qed

lemma aead_encrypt_on_packet:
  assumes "zc_prefix_ok t pre" and "\<not> is_encrypted h" and "aead_correct C"
  shows "aead_encrypt_with_nonce C kind key rnd (Some n) (zc_make t pre h body) = Some (Inr q) \<longleftrightarrow>
    (\<exists>ct tag. length n = NONCE_SIZE \<and> aead_seal C kind key n body = Some (ct, tag) \<and>
       q = zc_make t pre (set_encrypted True h) (ct @ aead_tail_bytes \<lparr>tail_tag = tag, tail_nonce = n\<rparr>))"
proof -
  have len: "aead_seal C kind key n body = Some (ct, tag) \<Longrightarrow> length ct = length body" for ct tag
    using assms(3) by (auto simp: aead_correct_def)
  show ?thesis
    using assms(1,2) len
    by (auto simp: aead_encrypt_with_nonce_def zc_make_append split: option.splits)
qed

lemma aead_decrypt_on_packet:
  assumes "zc_prefix_ok t pre" and "is_encrypted h" and "length tag = TAG_SIZE" and "length n = NONCE_SIZE"
    and "length pt = length ct"
    and "aead_open C kind key n ct tag = Some pt"
  shows "aead_decrypt C kind key (zc_make t pre h (ct @ aead_tail_bytes \<lparr>tail_tag = tag, tail_nonce = n\<rparr>)) =
    Some (Inr (zc_make t pre (set_encrypted False h) pt))"
  using assms aead_tail_read [OF assms(3,4)]
    zc_make_truncate [of t pre "set_encrypted False h" pt "aead_tail_bytes \<lparr>tail_tag = tag, tail_nonce = n\<rparr>"]
  by (simp add: aead_decrypt_def Let_def)

interpretation aead_cipher: packet_cipher "aead_correct C"
    "\<lambda>n. aead_encrypt_with_nonce C kind key rnd (Some n)" "aead_decrypt C kind key" for C kind key rnd
proof (unfold_locales, goal_cases)
  case (1 p h n q)
  obtain t pre body where p: "p = zc_make t pre h body" "zc_prefix_ok t pre"
    using 1(2) by (rule zc_make_cases)
  show ?case
  proof (cases "is_encrypted h")
    case True
    then show ?thesis using 1 by (simp add: aead_encrypt_with_nonce_def set_encrypted_id)
  next
    case False
    then show ?thesis
      using 1 p aead_encrypt_on_packet [OF p(2) False 1(1), of kind key rnd n body q] by auto
  qed
next
  case (2 p h n)
  then show ?case by (simp add: aead_encrypt_with_nonce_def)
next
  case (3 p h n q)
  obtain t pre body where p: "p = zc_make t pre h body" "zc_prefix_ok t pre"
    using 3(2) by (rule zc_make_cases)
  obtain ct tag where s: "length n = NONCE_SIZE" "aead_seal C kind key n body = Some (ct, tag)"
    and q: "q = zc_make t pre (set_encrypted True h) (ct @ aead_tail_bytes \<lparr>tail_tag = tag, tail_nonce = n\<rparr>)"
    using aead_encrypt_on_packet [OF p(2) 3(3) 3(1), of kind key rnd n body q] 3(4) p(1) by auto
  have o: "length ct = length body" "length tag = TAG_SIZE" "aead_open C kind key n ct tag = Some body"
    using 3(1) s(2) by (auto simp: aead_correct_def)
  show ?case
    using aead_decrypt_on_packet [OF p(2) _ o(2) s(1) o(1) [symmetric] o(3), of "set_encrypted True h"] p(1) 3(3)
    by (simp add: q set_encrypted_id)
next
  case (4 p h)
  then show ?case by (simp add: aead_decrypt_def)
qed


lemma aead_random_nonce:
  "length rnd = NONCE_SIZE \<Longrightarrow>
   aead_encrypt_with_nonce C kind key rnd None p = aead_encrypt_with_nonce C kind key rnd (Some rnd) p"
  by (simp add: aead_encrypt_with_nonce_def cong: if_cong)

lemma aead_encrypt_no_panic:
  assumes "aead_correct C" and "peer_manager_header p = Some h"
  shows "aead_encrypt_with_nonce C kind key rnd n p \<noteq> panic"
proof -
  obtain t pre body where p: "p = zc_make t pre h body" "zc_prefix_ok t pre"
    using assms(2) by (rule zc_make_cases)
  have "aead_seal C kind key m body = Some (ct, tag) \<Longrightarrow> length ct = length body" for m ct tag
    using assms(1) by (auto simp: aead_correct_def)
  then show ?thesis
    using p by (auto simp: aead_encrypt_with_nonce_def Let_def split: option.splits)
qed

lemma encryptor_encrypt_no_panic:
  assumes "aead_correct C" and "peer_manager_header p = Some h"
  shows "encryptor_encrypt_with_nonce C rnd e n p \<noteq> panic"
proof (cases e)
  case (XorCipher key)
  obtain t pre body where p: "p = zc_make t pre h body" "zc_prefix_ok t pre"
    using assms(2) by (rule zc_make_cases)
  then show ?thesis using xor_cipher_on_packet(1) [OF p(2)] XorCipher by simp
qed (use aead_encrypt_no_panic [OF assms] in simp_all)

lemma encryptor_decrypt_no_panic:
  assumes "aead_correct C" and "peer_manager_header p = Some h"
  shows "encryptor_decrypt C e p \<noteq> panic"
proof -
  obtain t pre body where p: "p = zc_make t pre h body" "zc_prefix_ok t pre"
    using assms(2) by (rule zc_make_cases)
  show ?thesis
  proof (cases e)
    case NullCipher
    then show ?thesis using assms(2) by (simp add: null_decrypt_def)
  next
    case (XorCipher key)
    then show ?thesis using xor_cipher_on_packet(2) [OF p(2)] p(1) by simp
  next
    case (AeadCipher kind key)
    have "aead_open C kind key n ct tag = Some pt \<Longrightarrow> length pt = length ct" for n ct tag pt
      using assms(1) by (auto simp: aead_correct_def)
    then show ?thesis
      using p AeadCipher by (auto simp: aead_decrypt_def ref_from_suffix_def Let_def split: option.splits)
  qed simp
qed

section \<open>Properties of the configured cipher\<close>

text \<open>A concrete AEAD for the witnesses: the key stream is one key byte and the tag is a keyed
  checksum of the first sixteen bytes of nonce and text.\<close>

definition demo_stream :: "bytes \<Rightarrow> bytes \<Rightarrow> bytes" where
  "demo_stream key = map (\<lambda>b. b XOR hd (key @ [0]))"

definition demo_tag :: "bytes \<Rightarrow> bytes \<Rightarrow> bytes \<Rightarrow> bytes" where
  "demo_tag key n ct = take 16 (drop 8 n @ ct @ key @ replicate 16 0)"

definition demo_crypto :: crypto where
  "demo_crypto =
     \<lparr>aead_seal = (\<lambda>kind key n pt. Some (demo_stream key pt, demo_tag key n (demo_stream key pt))),
      aead_open = (\<lambda>kind key n ct tag. if tag = demo_tag key n ct then Some (demo_stream key ct) else None),
      hmac_sha256 = (\<lambda>key msg. take 32 (msg @ key @ replicate 32 0))\<rparr>"

lemma length_demo_tag: "length (demo_tag key n ct) = 16"
  by (simp add: demo_tag_def del: take_append)

lemma demo_crypto_correct: "aead_correct demo_crypto"
  by (simp add: aead_correct_def demo_crypto_def demo_stream_def length_demo_tag TAG_SIZE_def
      xor.assoc o_def)

lemma demo_hmac_length: "length (hmac_sha256 demo_crypto key msg) = 32"
  by (simp add: demo_crypto_def del: take_append)

text \<open>A packet of three bytes with an all-zero header.\<close>

definition demo_packet :: zcpacket where
  "demo_packet = \<lparr>inner = replicate 36 0 @ [1, 2, 3], zc_type = NIC\<rparr>"

lemma demo_packet_header:
  obtains h where "peer_manager_header demo_packet = Some h" and "\<not> is_encrypted h"
  by (simp add: demo_packet_def peer_manager_header_def bytes_from_offset_def pm_header_offset_def slice_from_def
      ref_from_prefix_def wire_simps peer_manager_header_of_bytes_def is_encrypted_def
      flags_contains_def numeral_eq_Suc)

text \<open>C8. For every algorithm name that the configuration check accepts, the cipher that is built
  from it never panics on a packet with a header; a packet it encrypts carries the same header with
  the encrypted flag set, and decrypting it gives back exactly the packet that went in.\<close>

theorem create_encryptor_roundtrip:
  assumes "validate_algorithm bf algorithm = Inr ()" and "key_128 \<noteq> []" and "aead_correct C"
    and "length rnd = NONCE_SIZE"
    and "peer_manager_header p = Some h" and "\<not> is_encrypted h"
  shows "\<exists>e. create_encryptor bf algorithm key_128 key_256 = Some e \<and>
           encryptor_encrypt_with_nonce C rnd e nonce p \<noteq> panic \<and>
           (\<forall>q. encryptor_encrypt_with_nonce C rnd e nonce p = Some (Inr q) \<longrightarrow>
              peer_manager_header q = Some (set_encrypted True h) \<and>
              encryptor_decrypt C e q = Some (Inr p))"
proof -
  have aead: "aead_encrypt_with_nonce C kind key rnd nonce p \<noteq> panic \<and>
      (\<forall>q. aead_encrypt_with_nonce C kind key rnd nonce p = Some (Inr q) \<longrightarrow>
        peer_manager_header q = Some (set_encrypted True h) \<and> aead_decrypt C kind key q = Some (Inr p))"
    for kind key
    using aead_encrypt_no_panic [OF assms(3,5)] aead_cipher.enc_marks [OF assms(3,5)]
      aead_cipher.dec_enc [OF assms(3,5,6)] aead_random_nonce [OF assms(4)]
    by (cases nonce) auto
  have xor: "xor_encrypt key_128 p \<noteq> panic \<and>
      (\<forall>q. xor_encrypt key_128 p = Some (Inr q) \<longrightarrow>
        peer_manager_header q = Some (set_encrypted True h) \<and> xor_decrypt key_128 q = Some (Inr p))"
    using zc_make_cases [OF assms(5)] xor_cipher_on_packet(1)
      xor_cipher.enc_marks [OF TrueI assms(5)] xor_cipher.dec_enc [OF TrueI assms(5,6)]
    by (metis option.distinct(1))
  obtain a where a: "algorithm_from_str algorithm = Some a" "algorithm_is_available bf a"
    using assms(1) by (auto simp: validate_algorithm_def split: option.splits if_splits)
  show ?thesis
    using a aead xor assms(2) by (cases a) (simp_all add: create_encryptor_def create_cipher_defs xor_new_def)
qed

theorem create_encryptor_roundtrip_witness:
  "\<exists>e q. create_encryptor \<lparr>has_aes = True, has_chacha = False\<rparr> ''AES-GCM'' (replicate 16 7) (replicate 32 9) = Some e \<and>
     encryptor_encrypt_with_nonce demo_crypto (replicate 12 1) e (Some (replicate 12 5)) demo_packet = Some (Inr q) \<and>
     encryptor_decrypt demo_crypto e q = Some (Inr demo_packet)"
proof -
  let ?bf = "\<lparr>has_aes = True, has_chacha = False\<rparr>"
  let ?e = "AeadCipher Aes128GcmKind (replicate 16 7)"
  have v: "validate_algorithm ?bf ''AES-GCM'' = Inr ()"
    by code_simp
  have c: "create_encryptor ?bf ''AES-GCM'' (replicate 16 7) (replicate 32 9) = Some ?e"
    by code_simp
  obtain h where h: "peer_manager_header demo_packet = Some h" "\<not> is_encrypted h"
    by (rule demo_packet_header)
  have ok: "\<exists>q. encryptor_encrypt_with_nonce demo_crypto (replicate 12 1) ?e (Some (replicate 12 5)) demo_packet = Some (Inr q)"
  proof -
    obtain t pre body where p: "demo_packet = zc_make t pre h body" "zc_prefix_ok t pre"
      using h(1) by (rule zc_make_cases)
    show ?thesis
      unfolding p(1) encryptor_encrypt_with_nonce.simps aead_encrypt_on_packet [OF p(2) h(2) demo_crypto_correct]
      by (simp add: demo_crypto_def NONCE_SIZE_def)
  qed
  show ?thesis
    using create_encryptor_roundtrip [OF v _ demo_crypto_correct _ h, of "replicate 16 7" "replicate 12 1"
        "replicate 32 9" "Some (replicate 12 5)"] c ok
    by (auto simp: NONCE_SIZE_def)
qed

text \<open>C14. The configuration check and the cipher factory agree on failure: for a name that the check
  rejects, the factory returns a cipher that refuses every packet in both directions with the very
  error of the check, so no traffic passes in the clear because of a bad name.\<close>

theorem rejected_algorithm_fails_closed:
  assumes "validate_algorithm bf algorithm = Inl err"
  shows "\<exists>e. create_encryptor bf algorithm key_128 key_256 = Some e \<and>
           (\<forall>n p. encryptor_encrypt_with_nonce C rnd e n p = Some (Inl err) \<and>
                  encryptor_decrypt C e p = Some (Inl err))"
proof (cases "algorithm_from_str algorithm")
  case None
  then show ?thesis
    using assms by (simp add: validate_algorithm_def create_encryptor_def unsupported_error_def)
next
  case (Some a)
  then show ?thesis
    using assms by (cases a)
      (auto simp: validate_algorithm_def create_encryptor_def create_cipher_defs unsupported_error_def split: if_splits)
qed

theorem rejected_algorithm_fails_closed_witness:
  "\<exists>e. create_encryptor \<lparr>has_aes = False, has_chacha = True\<rparr> ''OpenSSL-AES-GCM'' (replicate 16 7) [] = Some e \<and>
     encryptor_decrypt demo_crypto e new_nic_packet = Some (Inl (AlgorithmUnavailable ''aes-gcm''))"
proof -
  have v: "validate_algorithm \<lparr>has_aes = False, has_chacha = True\<rparr> ''OpenSSL-AES-GCM''
      = Inl (AlgorithmUnavailable ''aes-gcm'')"
    by code_simp
  show ?thesis
    using rejected_algorithm_fails_closed [OF v, of "replicate 16 7" "[]" demo_crypto "[]"] by auto
qed

end
