(* ===== verification/Replay_Window.thy ===== *)
theory Replay_Window
  imports Prelude
begin

text \<open>
  The anti-replay window \<open>ReplayWindow256\<close> of \<open>easytier-core/src/tunnel/secure_datagram.rs\<close>: a
  256-bit bitmap kept as 32 bytes, where bit \<open>d\<close> stands for the sequence number \<open>max_seq - d\<close>.

  The locale \<open>anti_replay\<close> is the contract of such a filter over the set of the numbers offered so
  far; \<open>ReplayWindow256\<close> is an interpretation of it. \<open>as usize\<close> is the identity on the 64-bit
  targets that are modelled here; an index outside of the array is a panic.
\<close>

section \<open>The window\<close>

record replay_window =
  max_seq :: u64
  bitmap :: bytes
  rw_valid :: bool

definition replay_window_default :: replay_window where
  "replay_window_default = \<lparr>max_seq = 0, bitmap = replicate 32 0, rw_valid = False\<rparr>"

definition window_clear :: "replay_window \<Rightarrow> replay_window" where
  "window_clear w = w\<lparr>max_seq := 0, bitmap := replicate (length (bitmap w)) 0, rw_valid := False\<rparr>"

definition test_bit :: "nat \<Rightarrow> replay_window \<Rightarrow> bool may_panic" where
  "test_bit idx w =
     (let byte = idx div 8; b = idx mod 8
      in if byte < length (bitmap w) then Some (drop_bit b (bitmap w ! byte) AND 1 = 1) else panic)"

definition set_bit :: "nat \<Rightarrow> replay_window \<Rightarrow> replay_window may_panic" where
  "set_bit idx w =
     (let byte = idx div 8; b = idx mod 8
      in if byte < length (bitmap w)
         then Some (w\<lparr>bitmap := (bitmap w)[byte := bitmap w ! byte OR push_bit b 1]\<rparr>) else panic)"

text \<open>The two loops of \<open>shift_right\<close>: whole bytes from the last index down, then single bits with a
  carry from byte to byte.\<close>

definition shift_bytes :: "nat \<Rightarrow> bytes \<Rightarrow> bytes" where
  "shift_bytes byte_shift bs =
     fold (\<lambda>i bm. bm[i := if byte_shift \<le> i then bm ! (i - byte_shift) else 0]) (rev [0..<length bs]) bs"

primrec shift_bits :: "nat \<Rightarrow> u8 \<Rightarrow> bytes \<Rightarrow> bytes" where
  "shift_bits bit_shift carry [] = []"
| "shift_bits bit_shift carry (b # bs) =
     (push_bit bit_shift b OR carry) # shift_bits bit_shift (drop_bit (8 - bit_shift) b) bs"

definition shift_right :: "nat \<Rightarrow> replay_window \<Rightarrow> replay_window" where
  "shift_right shift w =
     (if shift = 0 then w
      else if 256 \<le> shift then w\<lparr>bitmap := replicate (length (bitmap w)) 0\<rparr>
      else
        let byte_shift = shift div 8;
            bit_shift = shift mod 8;
            bm = (if 0 < byte_shift then shift_bytes byte_shift (bitmap w) else bitmap w);
            bm' = (if 0 < bit_shift then shift_bits bit_shift 0 bm else bm)
        in w\<lparr>bitmap := bm'\<rparr>)"

definition accept :: "u64 \<Rightarrow> replay_window \<Rightarrow> (bool \<times> replay_window) may_panic" where
  "accept seq w =
     (if \<not> rw_valid w then do {
        w' \<leftarrow> set_bit 0 (w\<lparr>rw_valid := True, max_seq := seq\<rparr>);
        Some (True, w')
      }
      else if max_seq w < seq then do {
        let shift = unat (seq - max_seq w);
        w' \<leftarrow> set_bit 0 ((shift_right shift w)\<lparr>max_seq := seq\<rparr>);
        Some (True, w')
      }
      else do {
        let delta = unat (max_seq w - seq);
        if 256 \<le> delta then Some (False, w)
        else do {
          seen \<leftarrow> test_bit delta w;
          if seen then Some (False, w)
          else do {
            w' \<leftarrow> set_bit delta w;
            Some (True, w')
          }
        }
      })"

definition can_accept :: "u64 \<Rightarrow> replay_window \<Rightarrow> bool may_panic" where
  "can_accept seq w =
     (if \<not> rw_valid w \<or> max_seq w < seq then Some True
      else
        let delta = unat (max_seq w - seq)
        in if delta < 256 then map_option Not (test_bit delta w) else Some False)"

section \<open>Bits of the bitmap\<close>

definition wbit :: "bytes \<Rightarrow> nat \<Rightarrow> bool" where
  "wbit bs i = bit (bs ! (i div 8)) (i mod 8)"

lemma test_bit_wbit:
  "idx < 8 * length (bitmap w) \<Longrightarrow> test_bit idx w = Some (wbit (bitmap w) idx)"
  by (simp add: test_bit_def wbit_def Let_def bit_iff_odd_drop_bit and_one_eq odd_iff_mod_2_eq_one
      less_mult_imp_div_less mult.commute)

lemma set_bit_Some:
  assumes "idx < 8 * length (bitmap w)"
  obtains w' where "set_bit idx w = Some w'"
    and "max_seq w' = max_seq w" and "rw_valid w' = rw_valid w" and "length (bitmap w') = length (bitmap w)"
    and "\<And>i. i < 8 * length (bitmap w) \<Longrightarrow> wbit (bitmap w') i \<longleftrightarrow> i = idx \<or> wbit (bitmap w) i"
proof -
  let ?bm = "(bitmap w)[idx div 8 := bitmap w ! (idx div 8) OR push_bit (idx mod 8) 1]"
  have lt: "idx div 8 < length (bitmap w)" using assms by linarith
  have eq: "i = idx \<longleftrightarrow> i div 8 = idx div 8 \<and> i mod 8 = idx mod 8" for i :: nat
    by (metis div_mult_mod_eq)
  have "wbit ?bm i \<longleftrightarrow> i = idx \<or> wbit (bitmap w) i" if "i < 8 * length (bitmap w)" for i
    using lt by (cases "i div 8 = idx div 8")
      (auto simp: wbit_def eq [of i] bit_simps nth_list_update)
  then show thesis
    by (intro that [of "w\<lparr>bitmap := ?bm\<rparr>"]) (use lt in \<open>simp_all add: set_bit_def Let_def\<close>)
qed

lemma shift_bytes_loop:
  "n \<le> length bs \<Longrightarrow>
   fold (\<lambda>i bm. bm[i := if k \<le> i then bm ! (i - k) else 0]) (rev [0..<n]) bs =
   map (\<lambda>i. if k \<le> i then bs ! (i - k) else (0::u8)) [0..<n] @ drop n bs"
proof (induction n arbitrary: bs)
  case 0
  then show ?case by simp
next
  case (Suc n)
  let ?v = "if k \<le> n then bs ! (n - k) else 0"
  have "fold (\<lambda>i bm. bm[i := if k \<le> i then bm ! (i - k) else 0]) (rev [0..<n]) (bs[n := ?v]) =
      map (\<lambda>i. if k \<le> i then bs[n := ?v] ! (i - k) else 0) [0..<n] @ drop n (bs[n := ?v])"
    using Suc by simp
  also have "drop n (bs[n := ?v]) = ?v # drop (Suc n) bs"
    using Suc.prems by (simp add: drop_update_swap Cons_nth_drop_Suc [symmetric])
  also have "map (\<lambda>i. if k \<le> i then bs[n := ?v] ! (i - k) else 0) [0..<n] =
      map (\<lambda>i. if k \<le> i then bs ! (i - k) else 0) [0..<n]"
    by (rule map_cong) auto
  finally show ?case by simp
qed

lemma shift_bytes_eq:
  "shift_bytes k bs = map (\<lambda>i. if k \<le> i then bs ! (i - k) else 0) [0..<length bs]"
  by (simp add: shift_bytes_def shift_bytes_loop)

lemma length_shift_bits [simp]: "length (shift_bits k c bs) = length bs"
  by (induction bs arbitrary: c) simp_all

lemma bit_shift_bits:
  assumes "k < 8" and "j < 8" and "i < length bs" and "\<And>n. k \<le> n \<Longrightarrow> \<not> bit c n"
  shows "bit (shift_bits k c bs ! i) j \<longleftrightarrow>
    (if k \<le> j then bit (bs ! i) (j - k)
     else if i = 0 then bit c j else bit (bs ! (i - 1)) (8 - k + j))"
  using assms(3,4)
proof (induction bs arbitrary: i c)
  case Nil
  then show ?case by simp
next
  case (Cons b bs)
  have carry: "\<not> bit (drop_bit (8 - k) b) n" if "k \<le> n" for n
    using that assms(1) bit_imp_le_length [of b "8 - k + n"] by (auto simp: bit_simps)
  show ?case
  proof (cases i)
    case 0
    then show ?thesis using Cons.prems assms(2) by (auto simp: bit_simps)
  next
    case (Suc i')
    then show ?thesis
      using Cons.IH [of i' "drop_bit (8 - k) b", OF _ carry] Cons.prems
      by (cases i') (auto simp: bit_simps)
  qed
qed

lemma split8_ge:
  assumes "(r::nat) \<le> j" and "j < 8"
  shows "8 * q + r \<le> 8 * a + j \<longleftrightarrow> q \<le> a"
    and "q \<le> a \<Longrightarrow> (8 * a + j - (8 * q + r)) div 8 = a - q"
    and "q \<le> a \<Longrightarrow> (8 * a + j - (8 * q + r)) mod 8 = j - r"
proof -
  show "8 * q + r \<le> 8 * a + j \<longleftrightarrow> q \<le> a" using assms by linarith
  have e: "8 * a + j - (8 * q + r) = (j - r) + 8 * (a - q)" if "q \<le> a"
    using assms that by simp
  show "q \<le> a \<Longrightarrow> (8 * a + j - (8 * q + r)) div 8 = a - q"
    and "q \<le> a \<Longrightarrow> (8 * a + j - (8 * q + r)) mod 8 = j - r"
    using assms(2) by (simp_all add: e)
qed

lemma split8_lt:
  assumes "\<not> (r::nat) \<le> j" and "r < 8"
  shows "8 * q + r \<le> 8 * a + j \<longleftrightarrow> q < a"
    and "q < a \<Longrightarrow> (8 * a + j - (8 * q + r)) div 8 = a - 1 - q"
    and "q < a \<Longrightarrow> (8 * a + j - (8 * q + r)) mod 8 = 8 - r + j"
proof -
  define x where "x = 8 - r + j"
  have x: "x < 8" "x + r = 8 + j" using assms by (auto simp: x_def)
  show "8 * q + r \<le> 8 * a + j \<longleftrightarrow> q < a" using assms by linarith
  have e: "8 * a + j - (8 * q + r) = x + 8 * (a - 1 - q)" if "q < a"
    using x that by simp
  show "q < a \<Longrightarrow> (8 * a + j - (8 * q + r)) div 8 = a - 1 - q"
    and "q < a \<Longrightarrow> (8 * a + j - (8 * q + r)) mod 8 = 8 - r + j"
    using x(1) by (simp_all add: e flip: x_def)
qed

lemma wbit_shift_right:
  assumes "length (bitmap w) = 32" and "i < 256"
  shows "wbit (bitmap (shift_right s w)) i \<longleftrightarrow> s \<le> i \<and> wbit (bitmap w) (i - s)"
    and "length (bitmap (shift_right s w)) = 32"
    and "max_seq (shift_right s w) = max_seq w" and "rw_valid (shift_right s w) = rw_valid w"
proof -
  show "length (bitmap (shift_right s w)) = 32" "max_seq (shift_right s w) = max_seq w"
      "rw_valid (shift_right s w) = rw_valid w"
    using assms by (simp_all add: shift_right_def Let_def shift_bytes_eq)
  consider "s = 0" | "256 \<le> s" | "0 < s" "s < 256" by linarith
  then show "wbit (bitmap (shift_right s w)) i \<longleftrightarrow> s \<le> i \<and> wbit (bitmap w) (i - s)"
  proof cases
    case 1
    then show ?thesis by (simp add: shift_right_def)
  next
    case 2
    then show ?thesis using assms by (simp add: shift_right_def wbit_def)
  next
    case 3
    define q r where "q = s div 8" and "r = s mod 8"
    define bm where "bm = (if 0 < q then shift_bytes q (bitmap w) else bitmap w)"
    have s: "s = 8 * q + r" "r < 8" by (simp_all add: q_def r_def)
    define a j where "a = i div 8" and "j = i mod 8"
    have i: "i = 8 * a + j" "a < 32" "j < 8" using assms(2) by (auto simp: a_def j_def)
    have at: "wbit bs i = bit (bs ! a) j" for bs by (simp add: wbit_def a_def j_def)
    have bm_nth: "bm ! n = (if q \<le> n then bitmap w ! (n - q) else 0)" if "n < 32" for n
      using that assms(1) by (simp add: bm_def shift_bytes_eq)
    have bm_len: "length bm = 32" using assms(1) by (simp add: bm_def shift_bytes_eq)
    have "bitmap (shift_right s w) = (if 0 < r then shift_bits r 0 bm else bm)"
      using 3 by (simp add: shift_right_def Let_def q_def r_def bm_def)
    then have "wbit (bitmap (shift_right s w)) i \<longleftrightarrow>
        (if r \<le> j then bit (bm ! a) (j - r) else a \<noteq> 0 \<and> bit (bm ! (a - 1)) (8 - r + j))"
      using bit_shift_bits [OF s(2) i(3), of a bm 0] i(2) bm_len by (cases "a = 0") (auto simp: at)
    also have "\<dots> \<longleftrightarrow> s \<le> i \<and> wbit (bitmap w) (i - s)"
    proof (cases "r \<le> j")
      case True
      show ?thesis
        using split8_ge [OF True i(3), of q a] True bm_nth [OF i(2)] unfolding wbit_def s(1) i(1) by auto
    next
      case False
      show ?thesis
        using split8_lt [OF False s(2), of q a] False bm_nth [of "a - 1"] i(2)
        unfolding wbit_def s(1) i(1) by auto
    qed
    finally show ?thesis .
  qed
qed


section \<open>The contract of an anti-replay filter\<close>

text \<open>A number is fresh with respect to the numbers offered so far when it is not one of them and is
  less than 256 behind all of them.\<close>

definition fresh_seq :: "u64 \<Rightarrow> u64 set \<Rightarrow> bool" where
  "fresh_seq seq S \<longleftrightarrow> seq \<notin> S \<and> (\<forall>s\<in>S. unat s < unat seq + 256)"

primrec run_filter ::
  "(u64 \<Rightarrow> 's \<Rightarrow> (bool \<times> 's) may_panic) \<Rightarrow> u64 list \<Rightarrow> 's \<Rightarrow> (bool list \<times> 's) may_panic" where
  "run_filter acc [] w = Some ([], w)"
| "run_filter acc (x # xs) w = do {
     (b, w') \<leftarrow> acc x w;
     (bs, w'') \<leftarrow> run_filter acc xs w';
     Some (b # bs, w'')
   }"

locale anti_replay =
  fixes acc :: "u64 \<Rightarrow> 's \<Rightarrow> (bool \<times> 's) may_panic"
    and can :: "u64 \<Rightarrow> 's \<Rightarrow> bool may_panic"
    and start :: 's
    and offered :: "'s \<Rightarrow> u64 set \<Rightarrow> bool"
  assumes start: "offered start {}"
    and acc: "offered w S \<Longrightarrow> \<exists>w'. acc x w = Some (fresh_seq x S, w') \<and> offered w' (insert x S)"
    and can: "offered w S \<Longrightarrow> can x w = Some (fresh_seq x S)"
begin

lemma can_predicts_acc: "offered w S \<Longrightarrow> \<exists>w'. acc x w = Some (the (can x w), w')"
  using acc can by force

lemma run_from:
  "offered w S \<Longrightarrow> \<exists>bs w'. run_filter acc xs w = Some (bs, w') \<and> length bs = length xs \<and>
     offered w' (S \<union> set xs) \<and>
     (\<forall>i<length xs. bs ! i \<longleftrightarrow> fresh_seq (xs ! i) (S \<union> set (take i xs)))"
proof (induction xs arbitrary: w S)
  case Nil
  then show ?case by simp
next
  case (Cons x xs)
  obtain w1 where w1: "acc x w = Some (fresh_seq x S, w1)" "offered w1 (insert x S)"
    using acc [OF Cons.prems] by blast
  obtain bs w' where r: "run_filter acc xs w1 = Some (bs, w')" "length bs = length xs"
      "offered w' (insert x S \<union> set xs)"
      "\<forall>i<length xs. bs ! i \<longleftrightarrow> fresh_seq (xs ! i) (insert x S \<union> set (take i xs))"
    using Cons.IH [OF w1(2)] by blast
  have "\<forall>i<length (x # xs). (fresh_seq x S # bs) ! i \<longleftrightarrow>
      fresh_seq ((x # xs) ! i) (S \<union> set (take i (x # xs)))"
    using r(4) by (intro allI impI, rename_tac i, case_tac i) auto
  then show ?case using w1 r by auto
qed

lemma run_spec:
  "\<exists>bs w'. run_filter acc xs start = Some (bs, w') \<and> length bs = length xs \<and>
     (\<forall>i<length xs. bs ! i \<longleftrightarrow> fresh_seq (xs ! i) (set (take i xs)))"
  using run_from [OF start, of xs] by auto

end

text \<open>The bitmap against the set of offered numbers.\<close>

definition window_offered :: "replay_window \<Rightarrow> u64 set \<Rightarrow> bool" where
  "window_offered w S \<longleftrightarrow> length (bitmap w) = 32 \<and>
     (if rw_valid w
      then max_seq w \<in> S \<and> (\<forall>s\<in>S. s \<le> max_seq w) \<and>
           (\<forall>d<256. wbit (bitmap w) d \<longleftrightarrow> (\<exists>s\<in>S. unat s + d = unat (max_seq w)))
      else S = {} \<and> (\<forall>d<256. \<not> wbit (bitmap w) d))"

lemma window_offered_default: "window_offered replay_window_default {}"
  by (simp add: window_offered_def replay_window_default_def wbit_def)

lemma unat_less_iff: "(a :: u64) < b \<longleftrightarrow> unat a < unat b"
  by (simp add: word_less_nat_alt)

lemma unat_diff_u64: "(b :: u64) \<le> a \<Longrightarrow> unat (a - b) = unat a - unat b"
  by (simp add: unat_sub)

lemma window_offered_first:
  assumes "window_offered w S" and "\<not> rw_valid w"
  shows "\<exists>w'. accept x w = Some (fresh_seq x S, w') \<and> window_offered w' (insert x S)"
proof -
  have w: "length (bitmap w) = 32" "S = {}" "\<forall>d<256. \<not> wbit (bitmap w) d"
    using assms by (auto simp: window_offered_def)
  obtain w' where w': "set_bit 0 (w\<lparr>rw_valid := True, max_seq := x\<rparr>) = Some w'"
    "max_seq w' = x" "rw_valid w'" "length (bitmap w') = 32"
    "\<And>i. i < 256 \<Longrightarrow> wbit (bitmap w') i \<longleftrightarrow> i = 0 \<or> wbit (bitmap w) i"
    using w(1) by (rule_tac set_bit_Some [of 0 "w\<lparr>rw_valid := True, max_seq := x\<rparr>"]) auto
  then show ?thesis
    using assms(2) w by (auto simp: accept_def fresh_seq_def window_offered_def)
qed

lemma window_offered_ahead:
  assumes "window_offered w S" and "rw_valid w" and "max_seq w < x"
  shows "\<exists>w'. accept x w = Some (fresh_seq x S, w') \<and> window_offered w' (insert x S)"
proof -
  let ?m = "unat (max_seq w)"
  have w: "length (bitmap w) = 32" "max_seq w \<in> S" "\<forall>s\<in>S. s \<le> max_seq w"
    "\<And>d. d < 256 \<Longrightarrow> wbit (bitmap w) d \<longleftrightarrow> (\<exists>s\<in>S. unat s + d = ?m)"
    using assms by (auto simp: window_offered_def)
  have le: "unat s \<le> ?m" if "s \<in> S" for s
    using w(3) that by (simp add: word_le_nat_alt)
  have mx: "?m < unat x" using assms(3) by (simp add: word_less_nat_alt)
  define sh where "sh = unat (x - max_seq w)"
  have sh: "sh = unat x - ?m" using assms(3) by (simp add: sh_def unat_diff_u64)
  note s = wbit_shift_right [OF w(1), of _ sh]
  obtain w' where w': "set_bit 0 ((shift_right sh w)\<lparr>max_seq := x\<rparr>) = Some w'"
    "max_seq w' = x" "rw_valid w'" "length (bitmap w') = 32"
    "\<And>i. i < 256 \<Longrightarrow> wbit (bitmap w') i \<longleftrightarrow> i = 0 \<or> wbit (bitmap (shift_right sh w)) i"
    using s [of 0] assms(2) by (rule_tac set_bit_Some [of 0 "(shift_right sh w)\<lparr>max_seq := x\<rparr>"]) auto
  have bits: "wbit (bitmap w') d \<longleftrightarrow> (\<exists>s\<in>insert x S. unat s + d = unat x)" if "d < 256" for d
  proof (cases "d = 0")
    case False
    have "wbit (bitmap w') d \<longleftrightarrow> sh \<le> d \<and> (\<exists>s\<in>S. unat s + (d - sh) = ?m)"
      using w'(5) [OF that] s(1) [OF that] w(4) [of "d - sh"] that False by auto
    also have "\<dots> \<longleftrightarrow> (\<exists>s\<in>S. unat s + d = unat x)"
    proof -
      have "sh \<le> d \<and> unat s + (d - sh) = ?m \<longleftrightarrow> unat s + d = unat x" if "s \<in> S" for s
        using sh mx le [OF that] by linarith
      then show ?thesis by blast
    qed
    also have "\<dots> \<longleftrightarrow> (\<exists>s\<in>insert x S. unat s + d = unat x)"
      using False by auto
    finally show ?thesis .
  qed (use w'(5) [of d] that in auto)
  have "fresh_seq x S" using le mx by (fastforce simp: fresh_seq_def)
  then show ?thesis
    using w' bits assms w(3) by (auto simp: accept_def window_offered_def Let_def sh_def less_imp_le dest: le_less_trans)
qed

lemma window_offered_behind:
  assumes "window_offered w S" and "rw_valid w" and "\<not> max_seq w < x"
  shows "\<exists>w'. accept x w = Some (fresh_seq x S, w') \<and> window_offered w' (insert x S)"
    and "can_accept x w = Some (fresh_seq x S)"
proof -
  let ?m = "unat (max_seq w)"
  define d where "d = unat (max_seq w - x)"
  have w: "length (bitmap w) = 32" "max_seq w \<in> S" "\<forall>s\<in>S. s \<le> max_seq w"
    "\<And>d. d < 256 \<Longrightarrow> wbit (bitmap w) d \<longleftrightarrow> (\<exists>s\<in>S. unat s + d = ?m)"
    using assms by (auto simp: window_offered_def)
  have d: "unat x + d = ?m" using assms(3) by (simp add: d_def unat_diff_u64 word_le_nat_alt not_less)
  have near: "(\<forall>s\<in>S. unat s < unat x + 256) \<longleftrightarrow> d < 256"
    using w(2,3) d by (fastforce simp: word_le_nat_alt)
  have seen: "wbit (bitmap w) d \<longleftrightarrow> x \<in> S" if "d < 256"
    using w(4) [OF that] d by (metis add_right_cancel word_unat_eq_iff)
  have f: "fresh_seq x S \<longleftrightarrow> d < 256 \<and> \<not> wbit (bitmap w) d"
    using near seen by (auto simp: fresh_seq_def)
  have t: "d < 256 \<Longrightarrow> test_bit d w = Some (wbit (bitmap w) d)"
    using test_bit_wbit [of d w] w(1) by simp
  show "can_accept x w = Some (fresh_seq x S)"
    using assms t f by (simp add: can_accept_def flip: d_def)
  have keep: "window_offered w (insert x S)" if "\<not> fresh_seq x S"
  proof -
    have "(\<exists>s\<in>insert x S. unat s + k = ?m) \<longleftrightarrow> (\<exists>s\<in>S. unat s + k = ?m)" if "k < 256" for k
      using that f seen d \<open>\<not> fresh_seq x S\<close> by auto
    then show ?thesis using assms w by (auto simp: window_offered_def not_less)
  qed
  show "\<exists>w'. accept x w = Some (fresh_seq x S, w') \<and> window_offered w' (insert x S)"
  proof (cases "fresh_seq x S")
    case False
    then show ?thesis using assms t f keep by (auto simp: accept_def Let_def simp flip: d_def)
  next
    case True
    obtain w' where w': "set_bit d w = Some w'" "max_seq w' = max_seq w" "rw_valid w'" "length (bitmap w') = 32"
      "\<And>i. i < 256 \<Longrightarrow> wbit (bitmap w') i \<longleftrightarrow> i = d \<or> wbit (bitmap w) i"
      using w(1) True f assms(2) by (rule_tac set_bit_Some [of d w]) auto
    have "window_offered w' (insert x S)"
      using w' w d assms(3) by (auto simp: window_offered_def not_less)
    then show ?thesis using True f t w'(1) assms by (auto simp: accept_def Let_def simp flip: d_def)
  qed
qed

lemma can_accept_new:
  "window_offered w S \<Longrightarrow> \<not> rw_valid w \<or> max_seq w < x \<Longrightarrow> can_accept x w = Some (fresh_seq x S)"
  using window_offered_first [of w S x] window_offered_ahead [of w S x]
  by (cases "rw_valid w") (auto simp: can_accept_def accept_def Let_def bind_eq_Some_conv)

interpretation window256: anti_replay accept can_accept replay_window_default window_offered
proof
  show "window_offered replay_window_default {}" by (rule window_offered_default)
  fix w S x
  assume w: "window_offered w S"
  show "\<exists>w'. accept x w = Some (fresh_seq x S, w') \<and> window_offered w' (insert x S)"
    using window_offered_first window_offered_ahead window_offered_behind(1) w by blast
  show "can_accept x w = Some (fresh_seq x S)"
    using can_accept_new window_offered_behind(2) w by blast
qed


section \<open>What the window guarantees\<close>

text \<open>C2. On any sequence of numbers the window never panics, and it accepts the i-th number exactly
  when that number was not offered before and is less than 256 behind the largest one offered before;
  in particular no number is accepted twice, and reordering within the window loses nothing.\<close>

theorem window_accepts_exactly_fresh:
  "\<exists>bs w. run_filter accept seqs replay_window_default = Some (bs, w) \<and> length bs = length seqs \<and>
     (\<forall>i<length seqs. bs ! i \<longleftrightarrow>
        seqs ! i \<notin> set (take i seqs) \<and> (\<forall>s\<in>set (take i seqs). unat s < unat (seqs ! i) + 256))"
  using window256.run_spec [of seqs] by (simp add: fresh_seq_def)

theorem window_accepts_exactly_fresh_witness:
  "\<exists>w. run_filter accept [5, 3, 5, 300, 3, 45] replay_window_default =
         Some ([True, True, False, True, False, True], w)"
proof -
  define xs :: "u64 list" where "xs = [5, 3, 5, 300, 3, 45]"
  obtain bs w where r: "run_filter accept xs replay_window_default = Some (bs, w)" "length bs = length xs"
    and b: "\<forall>i<length xs. bs ! i \<longleftrightarrow> xs ! i \<notin> set (take i xs) \<and>
        (\<forall>s\<in>set (take i xs). unat s < unat (xs ! i) + 256)"
    using window_accepts_exactly_fresh [of xs] by blast
  have "bs = [True, True, False, True, False, True]"
  proof (rule nth_equalityI)
    show "bs ! i = [True, True, False, True, False, True] ! i" if "i < length bs" for i
      using b [rule_format, of i] that r(2) by (auto simp: xs_def less_Suc_eq)
  qed (use r(2) in \<open>simp add: xs_def\<close>)
  then show ?thesis using r(1) unfolding xs_def by blast
qed

text \<open>C13. The read-only check agrees with the real one: after any history of offered numbers,
  \<open>can_accept\<close> answers what \<open>accept\<close> would answer next, for every number.\<close>

theorem can_accept_predicts_accept:
  assumes "run_filter accept seqs replay_window_default = Some (bs, w)"
  shows "\<exists>b w'. can_accept seq w = Some b \<and> accept seq w = Some (b, w')"
proof -
  obtain S where "window_offered w S"
    using window256.run_from [OF window_offered_default, of seqs] assms by auto
  then show ?thesis using window256.acc window256.can by blast
qed

theorem can_accept_predicts_accept_witness:
  "\<exists>bs w b w'. run_filter accept [7, 9] replay_window_default = Some (bs, w) \<and>
     can_accept 8 w = Some b \<and> accept 8 w = Some (b, w')"
proof -
  obtain bs w where r: "run_filter accept [7, 9] replay_window_default = Some (bs, w)"
    using window256.run_spec [of "[7, 9]"] by blast
  then show ?thesis using can_accept_predicts_accept [OF r, of 8] by blast
qed

end
