(* ===== verification/Secure_Datagram.thy ===== *)
theory Secure_Datagram
  imports Encryptor Replay_Window
begin

text \<open>
  The datagram session of \<open>easytier-core/src/tunnel/secure_datagram.rs\<close>: epochs and sequence numbers
  on the sending side, replay windows per epoch on the receiving side, traffic keys derived from one
  root key and cached per epoch, and the grace period after a resynchronisation.

  Each method of \<open>SecureDatagramSession\<close> is one function from the session record to a result and
  the next session record. The clock is an argument: a method that reads \<open>now_ms()\<close> once takes one
  time, \<open>sync_root_key\<close> takes the two it reads. Two-element arrays are pairs.
\<close>

section \<open>State\<close>

datatype direction = AToB | BToA

primrec dir_idx :: "direction \<Rightarrow> nat" where
  "dir_idx AToB = 0"
| "dir_idx BToA = 1"

type_synonym 'a arr2 = "'a \<times> 'a"

primrec at2 :: "direction \<Rightarrow> 'a arr2 \<Rightarrow> 'a" where
  "at2 AToB a = fst a"
| "at2 BToA a = snd a"

primrec set2 :: "direction \<Rightarrow> 'a \<Rightarrow> 'a arr2 \<Rightarrow> 'a arr2" where
  "set2 AToB x a = (x, snd a)"
| "set2 BToA x a = (fst a, x)"

lemma at2_set2 [simp]: "at2 d (set2 d' x a) = (if d = d' then x else at2 d a)"
  by (cases d; cases d') simp_all

lemma at2_map_prod [simp]: "at2 d (map_prod f f a) = f (at2 d a)"
  by (cases d; cases a) simp_all

record epoch_key_slot =
  ks_epoch :: u32
  ks_generation :: u32
  ks_valid :: bool
  send_cipher :: "encryptor option"
  recv_cipher :: "encryptor option"

definition epoch_key_slot_default :: epoch_key_slot where
  "epoch_key_slot_default =
     \<lparr>ks_epoch = 0, ks_generation = 0, ks_valid = False, send_cipher = None, recv_cipher = None\<rparr>"

definition get_encryptor :: "bool \<Rightarrow> epoch_key_slot \<Rightarrow> encryptor may_panic" where
  "get_encryptor is_send slot = (if is_send then send_cipher slot else recv_cipher slot)"

record epoch_rx_slot =
  rx_epoch :: u32
  window :: replay_window
  last_rx_ms :: u64
  rx_valid :: bool

definition epoch_rx_slot_default :: epoch_rx_slot where
  "epoch_rx_slot_default =
     \<lparr>rx_epoch = 0, window = replay_window_default, last_rx_ms = 0, rx_valid = False\<rparr>"

definition rx_slot_clear :: "epoch_rx_slot \<Rightarrow> epoch_rx_slot" where
  "rx_slot_clear s = s\<lparr>rx_epoch := 0, window := window_clear (window s), last_rx_ms := 0, rx_valid := False\<rparr>"

record sync_rx_grace =
  grace_slots :: "epoch_rx_slot arr2 arr2"
  grace_expires_at_ms :: u64
  grace_valid :: bool

definition rx_slots_default :: "epoch_rx_slot arr2 arr2" where
  "rx_slots_default = ((epoch_rx_slot_default, epoch_rx_slot_default),
                       (epoch_rx_slot_default, epoch_rx_slot_default))"

definition sync_rx_grace_default :: sync_rx_grace where
  "sync_rx_grace_default =
     \<lparr>grace_slots = rx_slots_default, grace_expires_at_ms = 0, grace_valid = False\<rparr>"

definition grace_clear :: "sync_rx_grace \<Rightarrow> sync_rx_grace" where
  "grace_clear g = g\<lparr>grace_slots := rx_slots_default, grace_expires_at_ms := 0, grace_valid := False\<rparr>"

definition grace_refresh :: "epoch_rx_slot arr2 arr2 \<Rightarrow> u64 \<Rightarrow> sync_rx_grace \<Rightarrow> sync_rx_grace" where
  "grace_refresh slots expires g =
     g\<lparr>grace_slots := slots, grace_expires_at_ms := expires, grace_valid := True\<rparr>"

definition grace_maybe_expire :: "u64 \<Rightarrow> sync_rx_grace \<Rightarrow> sync_rx_grace" where
  "grace_maybe_expire now g = (if grace_valid g \<and> grace_expires_at_ms g \<le> now then grace_clear g else g)"

record session =
  root_key :: bytes
  session_generation :: u32
  send_epoch :: u32
  send_seq :: "u64 arr2"
  send_epoch_started_ms :: u64
  send_packets_since_epoch :: u64
  rx_slots :: "epoch_rx_slot arr2 arr2"
  key_cache :: "epoch_key_slot arr2 arr2"
  sync_grace :: sync_rx_grace
  sync_grace_expires_at_ms :: u64
  send_cipher_algorithm :: string
  recv_cipher_algorithm :: string
  invalidated :: bool
  decrypt_fail_count :: u32

datatype session_error =
    SessionInvalidated
  | NoTail
  | ReplayRejected
  | EncryptAlgorithmNotSame
  | CipherError enc_error

definition EVICT_IDLE_AFTER_MS :: u64 where "EVICT_IDLE_AFTER_MS = 30000"
definition SYNC_RX_GRACE_AFTER_MS :: u64 where "SYNC_RX_GRACE_AFTER_MS = 5000"
definition ROTATE_AFTER_PACKETS :: u64 where "ROTATE_AFTER_PACKETS = 1000000"
definition ROTATE_AFTER_MS :: u64 where "ROTATE_AFTER_MS = 10 * 60 * 1000"
definition MAX_ACCEPTED_RX_EPOCH_AHEAD :: u32 where "MAX_ACCEPTED_RX_EPOCH_AHEAD = 3"
definition DECRYPT_FAIL_THRESHOLD :: u32 where "DECRYPT_FAIL_THRESHOLD = 10"

definition key_cache_default :: "epoch_key_slot arr2 arr2" where
  "key_cache_default = ((epoch_key_slot_default, epoch_key_slot_default),
                        (epoch_key_slot_default, epoch_key_slot_default))"

definition session_new :: "u64 \<Rightarrow> bytes \<Rightarrow> u32 \<Rightarrow> u32 \<Rightarrow> string \<Rightarrow> string \<Rightarrow> session" where
  "session_new now key gen initial_epoch send_alg recv_alg =
     \<lparr>root_key = key, session_generation = gen, send_epoch = initial_epoch, send_seq = (0, 0),
      send_epoch_started_ms = now, send_packets_since_epoch = 0, rx_slots = rx_slots_default,
      key_cache = key_cache_default, sync_grace = sync_rx_grace_default, sync_grace_expires_at_ms = 0,
      send_cipher_algorithm = send_alg, recv_cipher_algorithm = recv_alg,
      invalidated = False, decrypt_fail_count = 0\<rparr>"

section \<open>Key management and epochs\<close>

definition invalidate :: "session \<Rightarrow> session" where
  "invalidate s = s\<lparr>invalidated := True\<rparr>"

definition session_is_valid :: "session \<Rightarrow> bool" where
  "session_is_valid s \<longleftrightarrow> \<not> invalidated s"

definition max_slot_epoch :: "epoch_rx_slot \<Rightarrow> u32 \<Rightarrow> u32" where
  "max_slot_epoch slot m = (if rx_valid slot then max m (rx_epoch slot) else m)"

definition next_sync_epoch :: "session \<Rightarrow> u32" where
  "next_sync_epoch s =
     (let m0 = send_epoch s;
          m1 = max_slot_epoch (fst (fst (rx_slots s))) m0;
          m2 = max_slot_epoch (snd (fst (rx_slots s))) m1;
          m3 = max_slot_epoch (fst (snd (rx_slots s))) m2;
          m4 = max_slot_epoch (snd (snd (rx_slots s))) m3
      in m4 + 1)"

definition check_encrypt_algo_same :: "string \<Rightarrow> string \<Rightarrow> session \<Rightarrow> session_error + unit" where
  "check_encrypt_algo_same send_alg recv_alg s =
     (if send_cipher_algorithm s \<noteq> send_alg \<or> recv_cipher_algorithm s \<noteq> recv_alg
      then Inl EncryptAlgorithmNotSame else Inr ())"

definition sync_root_key :: "u64 \<Rightarrow> u64 \<Rightarrow> bytes \<Rightarrow> u32 \<Rightarrow> u32 \<Rightarrow> bool \<Rightarrow> session \<Rightarrow> session" where
  "sync_root_key now1 now2 key gen initial_epoch preserve_rx_grace s =
     (let can_preserve = (preserve_rx_grace \<and> root_key s = key);
          s1 = s\<lparr>root_key := key, session_generation := gen, send_epoch := initial_epoch,
                 send_seq := (0, 0), send_epoch_started_ms := now1, send_packets_since_epoch := 0\<rparr>;
          expires = u64_saturating_add now2 SYNC_RX_GRACE_AFTER_MS;
          s2 = (if can_preserve
                then s1\<lparr>sync_grace := grace_refresh (rx_slots s1) expires (sync_grace s1),
                        sync_grace_expires_at_ms := expires\<rparr>
                else s1\<lparr>sync_grace := grace_clear (sync_grace s1), sync_grace_expires_at_ms := 0\<rparr>)
      in s2\<lparr>rx_slots := map_prod (map_prod rx_slot_clear rx_slot_clear)
                                  (map_prod rx_slot_clear rx_slot_clear) (rx_slots s2),
            key_cache := key_cache_default\<rparr>)"

definition ascii :: "string \<Rightarrow> bytes" where
  "ascii = map of_char"

text \<open>The output of HMAC-SHA256 is a 32-byte array, of which \<open>okm[..32]\<close> is all.\<close>

definition hkdf_traffic_key :: "crypto \<Rightarrow> u32 \<Rightarrow> direction \<Rightarrow> bytes \<Rightarrow> bytes" where
  "hkdf_traffic_key C epoch dir key =
     (let prk = hmac_sha256 C (replicate 32 0) key;
          info = ascii ''et-traffic'' @ u32_be epoch @ [word_of_nat (dir_idx dir)]
      in take 32 (hmac_sha256 C prk (info @ [1])))"

definition get_or_create_encryptor ::
  "crypto \<Rightarrow> build_features \<Rightarrow> u32 \<Rightarrow> direction \<Rightarrow> u32 \<Rightarrow> bool \<Rightarrow> session \<Rightarrow> (encryptor \<times> session) may_panic" where
  "get_or_create_encryptor C bf epoch dir generation is_send s =
     (let slots = at2 dir (key_cache s);
          hit = (\<lambda>k. ks_valid k \<and> ks_epoch k = epoch \<and> ks_generation k = generation)
      in if hit (fst slots) then do { e \<leftarrow> get_encryptor is_send (fst slots); Some (e, s) }
         else if hit (snd slots) then do { e \<leftarrow> get_encryptor is_send (snd slots); Some (e, s) }
         else do {
           let key = hkdf_traffic_key C epoch dir (root_key s);
           let key_128 = take 16 key;
           se \<leftarrow> create_encryptor bf (send_cipher_algorithm s) key_128 key;
           re \<leftarrow> create_encryptor bf (recv_cipher_algorithm s) key_128 key;
           let slot = \<lparr>ks_epoch = epoch, ks_generation = generation, ks_valid = True,
                       send_cipher = Some se, recv_cipher = Some re\<rparr>;
           e \<leftarrow> get_encryptor is_send slot;
           let slots' = (if \<not> ks_valid (fst slots) \<or> ks_epoch (fst slots) = epoch
                         then (slot, snd slots) else (fst slots, slot));
           Some (e, s\<lparr>key_cache := set2 dir slots' (key_cache s)\<rparr>)
         })"

text \<open>\<open>fetch_add\<close> wraps; the \<open>+ 1\<close> on its result is checked arithmetic. The compare-exchange cannot
  fail when the method runs alone.\<close>

definition maybe_rotate_epoch :: "u64 \<Rightarrow> session \<Rightarrow> session may_panic" where
  "maybe_rotate_epoch now s =
     (let old = send_packets_since_epoch s;
          s1 = s\<lparr>send_packets_since_epoch := old + 1\<rparr>
      in if old = - 1 then panic
         else
           let packets = old + 1; started = send_epoch_started_ms s1
           in if packets < ROTATE_AFTER_PACKETS \<and> u64_saturating_sub now started < ROTATE_AFTER_MS
              then Some s1
              else Some (s1\<lparr>send_epoch := send_epoch s1 + 1, send_epoch_started_ms := now,
                            send_packets_since_epoch := 0\<rparr>))"

definition nonce_bytes :: "u32 \<Rightarrow> u64 \<Rightarrow> bytes" where
  "nonce_bytes epoch seq = u32_be epoch @ u64_be seq"

definition next_nonce :: "u64 \<Rightarrow> direction \<Rightarrow> session \<Rightarrow> ((u32 \<times> u64 \<times> bytes) \<times> session) may_panic" where
  "next_nonce now dir s = do {
     s1 \<leftarrow> maybe_rotate_epoch now s;
     let epoch = send_epoch s1;
     let seq = at2 dir (send_seq s1);
     Some ((epoch, seq, nonce_bytes epoch seq), s1\<lparr>send_seq := set2 dir (seq + 1) (send_seq s1)\<rparr>)
   }"

definition parse_tail :: "bytes \<Rightarrow> bytes option" where
  "parse_tail pl = map_option tail_nonce (ref_from_suffix AEAD_TAIL_SIZE aead_tail_of_bytes pl)"

section \<open>Replay protection\<close>

definition evict_slot :: "u64 \<Rightarrow> epoch_rx_slot \<Rightarrow> epoch_rx_slot" where
  "evict_slot now slot =
     (if \<not> rx_valid slot then slot
      else if last_rx_ms slot \<noteq> 0 \<and> EVICT_IDLE_AFTER_MS < u64_saturating_sub now (last_rx_ms slot)
      then rx_slot_clear slot else slot)"

definition evict_old_rx_slots :: "u64 \<Rightarrow> epoch_rx_slot arr2 arr2 \<Rightarrow> epoch_rx_slot arr2 arr2" where
  "evict_old_rx_slots now =
     map_prod (map_prod (evict_slot now) (evict_slot now)) (map_prod (evict_slot now) (evict_slot now))"

definition epoch_in_slots :: "epoch_rx_slot arr2 \<Rightarrow> u32 \<Rightarrow> bool" where
  "epoch_in_slots slots epoch \<longleftrightarrow>
     rx_valid (fst slots) \<and> rx_epoch (fst slots) = epoch \<or> rx_valid (snd slots) \<and> rx_epoch (snd slots) = epoch"

definition sync_rx_grace_active :: "u64 \<Rightarrow> session \<Rightarrow> bool \<times> session" where
  "sync_rx_grace_active now s =
     (let expires = sync_grace_expires_at_ms s
      in if expires = 0 then (False, s)
         else if now < expires then (True, s)
         else (False, s\<lparr>sync_grace_expires_at_ms := 0\<rparr>))"

definition prune_slot ::
  "u32 \<Rightarrow> epoch_rx_slot arr2 \<Rightarrow> epoch_rx_slot arr2 option \<Rightarrow> epoch_key_slot \<Rightarrow> epoch_key_slot" where
  "prune_slot send_ep rx grace k =
     (if \<not> ks_valid k then k
      else
        let e = ks_epoch k;
            allowed = (e = send_ep \<or> rx_valid (fst rx) \<and> rx_epoch (fst rx) = e
                       \<or> rx_valid (snd rx) \<and> rx_epoch (snd rx) = e
                       \<or> (case grace of None \<Rightarrow> False | Some g \<Rightarrow> epoch_in_slots g e))
        in if allowed then k else k\<lparr>ks_valid := False\<rparr>)"

definition prune_key_cache :: "sync_rx_grace option \<Rightarrow> session \<Rightarrow> session" where
  "prune_key_cache grace s =
     (let prune = (\<lambda>d. prune_slot (send_epoch s) (at2 d (rx_slots s))
                          (map_option (\<lambda>g. at2 d (grace_slots g)) grace))
      in s\<lparr>key_cache := (map_prod (prune AToB) (prune AToB) (fst (key_cache s)),
                         map_prod (prune BToA) (prune BToA) (snd (key_cache s)))\<rparr>)"

text \<open>The common opening of \<open>precheck_replay\<close> and \<open>commit_replay\<close>: idle slots are dropped, and the
  grace slots are returned while the grace period runs.\<close>

definition prepare_rx :: "u64 \<Rightarrow> session \<Rightarrow> sync_rx_grace option \<times> session" where
  "prepare_rx now s =
     (let s1 = s\<lparr>rx_slots := evict_old_rx_slots now (rx_slots s)\<rparr>;
          (active, s2) = sync_rx_grace_active now s1
      in if active
         then
           let g = grace_maybe_expire now (sync_grace s2)
           in if grace_valid g
              then let g' = g\<lparr>grace_slots := evict_old_rx_slots now (grace_slots g)\<rparr>
                   in (Some g', s2\<lparr>sync_grace := g'\<rparr>)
              else (None, s2\<lparr>sync_grace := g, sync_grace_expires_at_ms := 0\<rparr>)
         else (None, s2))"

definition max_allowed_epoch :: "u32 \<Rightarrow> epoch_rx_slot arr2 \<Rightarrow> u32" where
  "max_allowed_epoch send_ep rx =
     u32_saturating_add (max_slot_epoch (snd rx) (max_slot_epoch (fst rx) send_ep)) MAX_ACCEPTED_RX_EPOCH_AHEAD"

definition precheck_slots :: "u32 \<Rightarrow> u32 \<Rightarrow> u64 \<Rightarrow> epoch_rx_slot arr2 \<Rightarrow> bool may_panic" where
  "precheck_slots send_ep epoch seq rx =
     (if \<not> rx_valid (fst rx) then Some True
      else if rx_valid (fst rx) \<and> epoch = rx_epoch (fst rx) then can_accept seq (window (fst rx))
      else if rx_valid (snd rx) \<and> epoch = rx_epoch (snd rx) then can_accept seq (window (snd rx))
      else if rx_valid (fst rx) \<and> rx_epoch (fst rx) < epoch
      then if max_allowed_epoch send_ep rx < epoch then Some False else Some True
      else Some False)"

definition precheck_replay :: "u32 \<Rightarrow> u64 \<Rightarrow> direction \<Rightarrow> u64 \<Rightarrow> session \<Rightarrow> (bool \<times> session) may_panic" where
  "precheck_replay epoch seq dir now s =
     (let (grace, s1) = prepare_rx now s
      in do {
        b \<leftarrow> (case grace of
           Some g \<Rightarrow>
             let gs = at2 dir (grace_slots g)
             in if epoch_in_slots gs epoch
                then if rx_valid (fst gs) \<and> rx_epoch (fst gs) = epoch then can_accept seq (window (fst gs))
                     else can_accept seq (window (snd gs))
                else precheck_slots (send_epoch s1) epoch seq (at2 dir (rx_slots s1))
         | None \<Rightarrow> precheck_slots (send_epoch s1) epoch seq (at2 dir (rx_slots s1)));
        Some (b, s1)
      })"

definition slot_accept :: "u64 \<Rightarrow> u64 \<Rightarrow> epoch_rx_slot \<Rightarrow> (bool \<times> epoch_rx_slot) may_panic" where
  "slot_accept now seq slot = do {
     (b, w) \<leftarrow> accept seq (window slot);
     Some (b, slot\<lparr>last_rx_ms := now, window := w\<rparr>)
   }"

definition fresh_rx_slot :: "u32 \<Rightarrow> u64 \<Rightarrow> epoch_rx_slot" where
  "fresh_rx_slot epoch now =
     \<lparr>rx_epoch = epoch, window = replay_window_default, last_rx_ms = now, rx_valid = True\<rparr>"

definition commit_slots ::
  "u32 \<Rightarrow> u32 \<Rightarrow> u64 \<Rightarrow> u64 \<Rightarrow> epoch_rx_slot arr2 \<Rightarrow> (bool \<times> epoch_rx_slot arr2) may_panic" where
  "commit_slots send_ep epoch seq now rx0 =
     (let rx = (if \<not> rx_valid (fst rx0) then (fresh_rx_slot epoch now, snd rx0) else rx0)
      in if rx_valid (fst rx) \<and> epoch = rx_epoch (fst rx)
         then do { (b, sl) \<leftarrow> slot_accept now seq (fst rx); Some (b, (sl, snd rx)) }
         else if rx_valid (snd rx) \<and> epoch = rx_epoch (snd rx)
         then do { (b, sl) \<leftarrow> slot_accept now seq (snd rx); Some (b, (fst rx, sl)) }
         else if rx_valid (fst rx) \<and> rx_epoch (fst rx) < epoch
         then if max_allowed_epoch send_ep rx < epoch then Some (False, rx)
              else do { (b, sl) \<leftarrow> slot_accept now seq (fresh_rx_slot epoch now); Some (b, (sl, fst rx)) }
         else Some (False, rx))"

definition commit_grace :: "u32 \<Rightarrow> u64 \<Rightarrow> u64 \<Rightarrow> epoch_rx_slot arr2 \<Rightarrow> (bool \<times> epoch_rx_slot arr2) may_panic" where
  "commit_grace epoch seq now gs =
     (if rx_valid (fst gs) \<and> rx_epoch (fst gs) = epoch
      then do { (b, sl) \<leftarrow> slot_accept now seq (fst gs); Some (b, (sl, snd gs)) }
      else if rx_valid (snd gs) \<and> rx_epoch (snd gs) = epoch
      then do { (b, sl) \<leftarrow> slot_accept now seq (snd gs); Some (b, (fst gs, sl)) }
      else Some (False, gs))"

definition commit_rx :: "u32 \<Rightarrow> u64 \<Rightarrow> direction \<Rightarrow> u64 \<Rightarrow> session \<Rightarrow> (bool \<times> session) may_panic" where
  "commit_rx epoch seq dir now s = do {
     (b, slots) \<leftarrow> commit_slots (send_epoch s) epoch seq now (at2 dir (rx_slots s));
     Some (b, s\<lparr>rx_slots := set2 dir slots (rx_slots s)\<rparr>)
   }"

definition commit_replay :: "u32 \<Rightarrow> u64 \<Rightarrow> direction \<Rightarrow> u64 \<Rightarrow> session \<Rightarrow> (bool \<times> session) may_panic" where
  "commit_replay epoch seq dir now s =
     (let (grace, s1) = prepare_rx now s
      in case grace of
        Some g \<Rightarrow>
          if epoch_in_slots (at2 dir (grace_slots g)) epoch
          then do {
            (b, gs) \<leftarrow> commit_grace epoch seq now (at2 dir (grace_slots g));
            let g' = g\<lparr>grace_slots := set2 dir gs (grace_slots g)\<rparr>;
            Some (b, prune_key_cache (Some g') (s1\<lparr>sync_grace := g'\<rparr>))
          }
          else do {
            (b, s2) \<leftarrow> commit_rx epoch seq dir now s1;
            Some (b, prune_key_cache (Some g) s2)
          }
      | None \<Rightarrow> do {
          (b, s2) \<leftarrow> commit_rx epoch seq dir now s1;
          Some (b, prune_key_cache None s2)
        })"

section \<open>Encryption and decryption of payloads\<close>

definition encrypt_payload ::
  "crypto \<Rightarrow> build_features \<Rightarrow> bytes \<Rightarrow> u64 \<Rightarrow> direction \<Rightarrow> zcpacket \<Rightarrow> session \<Rightarrow>
   ((session_error + zcpacket) \<times> session) may_panic" where
  "encrypt_payload C bf rnd now dir pkt s =
     (if \<not> session_is_valid s then Some (Inl SessionInvalidated, s)
      else do {
        ((epoch, seq, nonce), s1) \<leftarrow> next_nonce now dir s;
        (e, s2) \<leftarrow> get_or_create_encryptor C bf epoch dir (session_generation s1) True s1;
        r \<leftarrow> encryptor_encrypt_with_nonce C rnd e (Some nonce) pkt;
        case r of
          Inl err \<Rightarrow> Some (Inl (CipherError err), invalidate s2)
        | Inr pkt' \<Rightarrow> Some (Inr pkt', s2)
      })"

definition decrypt_payload ::
  "crypto \<Rightarrow> build_features \<Rightarrow> u64 \<Rightarrow> direction \<Rightarrow> zcpacket \<Rightarrow> session \<Rightarrow>
   ((session_error + zcpacket) \<times> session) may_panic" where
  "decrypt_payload C bf now dir pkt s =
     (if \<not> session_is_valid s then Some (Inl SessionInvalidated, s)
      else do {
        pl \<leftarrow> payload pkt;
        case parse_tail pl of
          None \<Rightarrow> Some (Inl NoTail, s)
        | Some nonce \<Rightarrow> do {
            let epoch = u32_of_be (take 4 nonce);
            let seq = u64_of_be (drop 4 nonce);
            (ok, s1) \<leftarrow> precheck_replay epoch seq dir now s;
            if \<not> ok then Some (Inl ReplayRejected, s1)
            else do {
              (e, s2) \<leftarrow> get_or_create_encryptor C bf epoch dir (session_generation s1) False s1;
              r \<leftarrow> encryptor_decrypt C e pkt;
              case r of
                Inl err \<Rightarrow>
                  let old = decrypt_fail_count s2; s3 = s2\<lparr>decrypt_fail_count := old + 1\<rparr>
                  in if old = - 1 then panic
                     else Some (Inl (CipherError err),
                                if DECRYPT_FAIL_THRESHOLD \<le> old + 1 then invalidate s3 else s3)
              | Inr pkt' \<Rightarrow> do {
                  let s3 = s2\<lparr>decrypt_fail_count := 0\<rparr>;
                  (accepted, s4) \<leftarrow> commit_replay epoch seq dir now s3;
                  Some (if accepted then Inr pkt' else Inl ReplayRejected, s4)
                }
            }
          }
      })"


section \<open>The session invariant\<close>

text \<open>\<open>hmac_ok\<close> is the width of HMAC-SHA256. The cipher that a session should use for an epoch is
  \<open>traffic_cipher\<close>, a function of the root key only; the invariant says the cache never deviates
  from it, the replay windows are well formed, and the two counters stay below their thresholds.\<close>

definition hmac_ok :: "crypto \<Rightarrow> bool" where
  "hmac_ok C \<longleftrightarrow> (\<forall>key msg. length (hmac_sha256 C key msg) = 32)"

definition traffic_cipher :: "crypto \<Rightarrow> build_features \<Rightarrow> string \<Rightarrow> bytes \<Rightarrow> u32 \<Rightarrow> direction \<Rightarrow> encryptor may_panic" where
  "traffic_cipher C bf alg root epoch dir =
     (let key = hkdf_traffic_key C epoch dir root in create_encryptor bf alg (take 16 key) key)"

definition session_alg :: "bool \<Rightarrow> session \<Rightarrow> string" where
  "session_alg is_send s = (if is_send then send_cipher_algorithm s else recv_cipher_algorithm s)"

definition key_slot_ok :: "crypto \<Rightarrow> build_features \<Rightarrow> session \<Rightarrow> direction \<Rightarrow> epoch_key_slot \<Rightarrow> bool" where
  "key_slot_ok C bf s d k \<longleftrightarrow> (ks_valid k \<longrightarrow> (\<forall>is_send.
     get_encryptor is_send k = traffic_cipher C bf (session_alg is_send s) (root_key s) (ks_epoch k) d))"

definition cache_ok :: "crypto \<Rightarrow> build_features \<Rightarrow> session \<Rightarrow> bool" where
  "cache_ok C bf s \<longleftrightarrow> (\<forall>d. key_slot_ok C bf s d (fst (at2 d (key_cache s))) \<and>
                            key_slot_ok C bf s d (snd (at2 d (key_cache s))))"

definition slot_ok :: "epoch_rx_slot \<Rightarrow> bool" where
  "slot_ok slot \<longleftrightarrow> (\<exists>S. window_offered (window slot) S)"

definition slots_ok :: "epoch_rx_slot arr2 arr2 \<Rightarrow> bool" where
  "slots_ok rx \<longleftrightarrow> (\<forall>d. slot_ok (fst (at2 d rx)) \<and> slot_ok (snd (at2 d rx)))"

definition session_ok :: "crypto \<Rightarrow> build_features \<Rightarrow> session \<Rightarrow> bool" where
  "session_ok C bf s \<longleftrightarrow> cache_ok C bf s \<and> slots_ok (rx_slots s) \<and> slots_ok (grace_slots (sync_grace s)) \<and>
     send_packets_since_epoch s < ROTATE_AFTER_PACKETS \<and>
     (invalidated s \<or> decrypt_fail_count s < DECRYPT_FAIL_THRESHOLD)"

lemma session_okI:
  "\<lbrakk>cache_ok C bf s; slots_ok (rx_slots s); slots_ok (grace_slots (sync_grace s));
    send_packets_since_epoch s < ROTATE_AFTER_PACKETS;
    invalidated s \<or> decrypt_fail_count s < DECRYPT_FAIL_THRESHOLD\<rbrakk> \<Longrightarrow> session_ok C bf s"
  by (simp add: session_ok_def)

lemma session_okD:
  assumes "session_ok C bf s"
  shows "cache_ok C bf s" and "slots_ok (rx_slots s)" and "slots_ok (grace_slots (sync_grace s))"
    and "send_packets_since_epoch s < ROTATE_AFTER_PACKETS"
    and "invalidated s \<or> decrypt_fail_count s < DECRYPT_FAIL_THRESHOLD"
  using assms by (simp_all add: session_ok_def)

text \<open>The invariant looks only at some fields; an update of the others keeps it.\<close>

lemma cache_ok_updates [simp]:
  "cache_ok C bf (s\<lparr>session_generation := a\<rparr>) = cache_ok C bf s"
  "cache_ok C bf (s\<lparr>send_epoch := b\<rparr>) = cache_ok C bf s"
  "cache_ok C bf (s\<lparr>send_seq := c\<rparr>) = cache_ok C bf s"
  "cache_ok C bf (s\<lparr>send_epoch_started_ms := d\<rparr>) = cache_ok C bf s"
  "cache_ok C bf (s\<lparr>send_packets_since_epoch := e\<rparr>) = cache_ok C bf s"
  "cache_ok C bf (s\<lparr>rx_slots := f\<rparr>) = cache_ok C bf s"
  "cache_ok C bf (s\<lparr>sync_grace := g\<rparr>) = cache_ok C bf s"
  "cache_ok C bf (s\<lparr>sync_grace_expires_at_ms := h\<rparr>) = cache_ok C bf s"
  "cache_ok C bf (s\<lparr>invalidated := i\<rparr>) = cache_ok C bf s"
  "cache_ok C bf (s\<lparr>decrypt_fail_count := j\<rparr>) = cache_ok C bf s"
  by (simp_all add: cache_ok_def key_slot_ok_def session_alg_def)

lemma key_slot_ok_update [simp]: "key_slot_ok C bf (s\<lparr>key_cache := kc\<rparr>) = key_slot_ok C bf s"
  by (simp add: key_slot_ok_def session_alg_def fun_eq_iff)

lemma slot_ok_default [simp]: "slot_ok epoch_rx_slot_default"
  using window_offered_default by (auto simp: slot_ok_def epoch_rx_slot_default_def)

lemma slot_ok_fresh [simp]: "slot_ok (fresh_rx_slot e now)"
  using window_offered_default by (auto simp: slot_ok_def fresh_rx_slot_def)

lemma window_clear_offered: "window_offered w S \<Longrightarrow> window_offered (window_clear w) {}"
  by (simp add: window_offered_def window_clear_def wbit_def)

lemma slot_ok_clear [simp]: "slot_ok s \<Longrightarrow> slot_ok (rx_slot_clear s)"
  using window_clear_offered by (auto simp: slot_ok_def rx_slot_clear_def)

lemma slot_ok_evict [simp]: "slot_ok s \<Longrightarrow> slot_ok (evict_slot now s)"
  by (simp add: evict_slot_def)

lemma slots_ok_default [simp]: "slots_ok rx_slots_default"
proof -
  have "at2 d rx_slots_default = (epoch_rx_slot_default, epoch_rx_slot_default)" for d
    by (cases d) (simp_all add: rx_slots_default_def)
  then show ?thesis by (simp add: slots_ok_def)
qed

lemma at2_evict [simp]:
  "at2 d (evict_old_rx_slots now rx) = map_prod (evict_slot now) (evict_slot now) (at2 d rx)"
  by (simp add: evict_old_rx_slots_def)

lemma slots_ok_evict [simp]: "slots_ok rx \<Longrightarrow> slots_ok (evict_old_rx_slots now rx)"
  by (simp add: slots_ok_def)

lemma slots_ok_set2:
  "slots_ok rx \<Longrightarrow> slot_ok (fst p) \<Longrightarrow> slot_ok (snd p) \<Longrightarrow> slots_ok (set2 d p rx)"
  by (simp add: slots_ok_def)

lemma create_encryptor_total: "key_128 \<noteq> [] \<Longrightarrow> \<exists>e. create_encryptor bf alg key_128 key_256 = Some e"
  by (auto simp: create_encryptor_def xor_new_def split: option.splits encryption_algorithm.splits)

lemma traffic_cipher_total:
  assumes "hmac_ok C"
  shows "\<exists>e. traffic_cipher C bf alg root epoch dir = Some e"
proof -
  have "length (take 16 (hkdf_traffic_key C epoch dir root)) = 16"
    using assms by (simp add: hkdf_traffic_key_def hmac_ok_def Let_def)
  then show ?thesis
    unfolding traffic_cipher_def Let_def by (intro create_encryptor_total) auto
qed

text \<open>The key cache is transparent.\<close>

lemma get_or_create_spec:
  assumes "hmac_ok C" and "cache_ok C bf s"
  obtains e kc where "get_or_create_encryptor C bf epoch dir gen is_send s = Some (e, s\<lparr>key_cache := kc\<rparr>)"
    and "traffic_cipher C bf (session_alg is_send s) (root_key s) epoch dir = Some e"
    and "cache_ok C bf (s\<lparr>key_cache := kc\<rparr>)"
proof -
  let ?slots = "at2 dir (key_cache s)"
  let ?hit = "\<lambda>k. ks_valid k \<and> ks_epoch k = epoch \<and> ks_generation k = gen"
  obtain e where e: "traffic_cipher C bf (session_alg is_send s) (root_key s) epoch dir = Some e"
    using traffic_cipher_total [OF assms(1)] by blast
  have ok: "key_slot_ok C bf s dir (fst ?slots)" "key_slot_ok C bf s dir (snd ?slots)"
    using assms(2) by (simp_all add: cache_ok_def)
  have hit: "get_encryptor is_send k = Some e" if "key_slot_ok C bf s dir k" "?hit k" for k
    using that e by (simp add: key_slot_ok_def)
  show thesis
  proof (cases "?hit (fst ?slots) \<or> ?hit (snd ?slots)")
    case True
    then have "get_or_create_encryptor C bf epoch dir gen is_send s = Some (e, s)"
      using hit [OF ok(1)] hit [OF ok(2)] by (auto simp: get_or_create_encryptor_def Let_def)
    then show thesis using that [of e "key_cache s"] e assms(2) by simp
  next
    case False
    obtain se re where c: "traffic_cipher C bf (send_cipher_algorithm s) (root_key s) epoch dir = Some se"
        "traffic_cipher C bf (recv_cipher_algorithm s) (root_key s) epoch dir = Some re"
      using traffic_cipher_total [OF assms(1)] by blast
    define slot where "slot = \<lparr>ks_epoch = epoch, ks_generation = gen, ks_valid = True,
        send_cipher = Some se, recv_cipher = Some re\<rparr>"
    define slots' where "slots' = (if \<not> ks_valid (fst ?slots) \<or> ks_epoch (fst ?slots) = epoch
        then (slot, snd ?slots) else (fst ?slots, slot))"
    have slot: "key_slot_ok C bf s dir slot"
      using c by (simp add: key_slot_ok_def session_alg_def slot_def get_encryptor_def)
    have eq: "e = (if is_send then se else re)"
      using e c by (cases is_send) (simp_all add: session_alg_def)
    have "get_or_create_encryptor C bf epoch dir gen is_send s =
        Some (e, s\<lparr>key_cache := set2 dir slots' (key_cache s)\<rparr>)"
      using False c by (auto simp: get_or_create_encryptor_def Let_def traffic_cipher_def get_encryptor_def
          slots'_def slot_def eq)
    moreover have "cache_ok C bf (s\<lparr>key_cache := set2 dir slots' (key_cache s)\<rparr>)"
      using assms(2) slot by (simp add: cache_ok_def slots'_def)
    ultimately show thesis using that e by blast
  qed
qed

lemma maybe_rotate_spec:
  assumes "send_packets_since_epoch s < ROTATE_AFTER_PACKETS"
  obtains ep st n where
    "maybe_rotate_epoch now s = Some (s\<lparr>send_epoch := ep, send_epoch_started_ms := st, send_packets_since_epoch := n\<rparr>)"
    and "n < ROTATE_AFTER_PACKETS"
    and "ep = send_epoch s \<and> n = send_packets_since_epoch s + 1 \<or> ep = send_epoch s + 1 \<and> n = 0"
proof -
  have ne: "send_packets_since_epoch s \<noteq> - 1"
    using assms by (auto simp: ROTATE_AFTER_PACKETS_def)
  show thesis
  proof (cases "send_packets_since_epoch s + 1 < ROTATE_AFTER_PACKETS \<and>
      u64_saturating_sub now (send_epoch_started_ms s) < ROTATE_AFTER_MS")
    case True
    then show thesis
      using ne by (intro that [where ep = "send_epoch s" and st = "send_epoch_started_ms s" and n = "send_packets_since_epoch s + 1"])
        (auto simp: maybe_rotate_epoch_def Let_def)
  next
    case False
    then show thesis
      using ne by (intro that [where ep = "send_epoch s + 1" and st = now and n = 0])
        (auto simp: maybe_rotate_epoch_def Let_def ROTATE_AFTER_PACKETS_def)
  qed
qed


section \<open>Every operation keeps the invariant and returns\<close>

lemma prepare_rx_frame:
  assumes "prepare_rx now s = (grace, s1)"
  obtains g x where "s1 = s\<lparr>rx_slots := evict_old_rx_slots now (rx_slots s), sync_grace := g,
      sync_grace_expires_at_ms := x\<rparr>"
    and "slots_ok (grace_slots (sync_grace s)) \<Longrightarrow> slots_ok (grace_slots g)"
    and "grace = None \<or> grace = Some g"
proof -
  let ?g = "grace_maybe_expire now (sync_grace s)"
  have g: "slots_ok (grace_slots (sync_grace s)) \<Longrightarrow> slots_ok (grace_slots ?g)"
    by (simp add: grace_maybe_expire_def grace_clear_def)
  show thesis
  proof (cases "sync_grace_expires_at_ms s \<noteq> 0 \<and> now < sync_grace_expires_at_ms s")
    case False
    then show thesis
      using assms by (intro that [where g = "sync_grace s" and x = 0])
        (cases s; auto simp: prepare_rx_def sync_rx_grace_active_def Let_def split: if_splits)+
  next
    case active: True
    show thesis
    proof (cases "grace_valid ?g")
      case False
      then show thesis
        using assms active g by (intro that [where g = ?g and x = 0])
          (auto simp: prepare_rx_def sync_rx_grace_active_def Let_def)
    next
      case True
      let ?g' = "?g\<lparr>grace_slots := evict_old_rx_slots now (grace_slots ?g)\<rparr>"
      show thesis
        using True assms active g by (intro that [where g = ?g' and x = "sync_grace_expires_at_ms s"])
          (auto simp: prepare_rx_def sync_rx_grace_active_def Let_def)
    qed
  qed
qed

lemma prepare_rx_fields [simp]:
  "root_key (snd (prepare_rx now s)) = root_key s"
  "session_generation (snd (prepare_rx now s)) = session_generation s"
  "send_epoch (snd (prepare_rx now s)) = send_epoch s"
  "send_seq (snd (prepare_rx now s)) = send_seq s"
  "rx_slots (snd (prepare_rx now s)) = evict_old_rx_slots now (rx_slots s)"
  "key_cache (snd (prepare_rx now s)) = key_cache s"
  "send_cipher_algorithm (snd (prepare_rx now s)) = send_cipher_algorithm s"
  "recv_cipher_algorithm (snd (prepare_rx now s)) = recv_cipher_algorithm s"
  "invalidated (snd (prepare_rx now s)) = invalidated s"
  "decrypt_fail_count (snd (prepare_rx now s)) = decrypt_fail_count s"
  by (simp_all add: prepare_rx_def sync_rx_grace_active_def Let_def split: prod.split)

lemma prepare_rx_ok:
  assumes "prepare_rx now s = (grace, s1)" and "session_ok C bf s"
  shows "session_ok C bf s1" and "\<And>g. grace = Some g \<Longrightarrow> slots_ok (grace_slots g)"
proof -
  obtain g x where f: "s1 = s\<lparr>rx_slots := evict_old_rx_slots now (rx_slots s), sync_grace := g,
      sync_grace_expires_at_ms := x\<rparr>" "slots_ok (grace_slots g)" "grace = None \<or> grace = Some g"
    using prepare_rx_frame [OF assms(1)] session_okD [OF assms(2)] by metis
  show "session_ok C bf s1"
    using session_okD [OF assms(2)] f(1,2) by (intro session_okI) auto
  show "\<And>g. grace = Some g \<Longrightarrow> slots_ok (grace_slots g)"
    using f(2,3) by auto
qed

lemma can_accept_total: "slot_ok slot \<Longrightarrow> \<exists>b. can_accept seq (window slot) = Some b"
  using window256.can by (auto simp: slot_ok_def)

lemma precheck_slots_total:
  "slot_ok (fst rx) \<Longrightarrow> slot_ok (snd rx) \<Longrightarrow> \<exists>b. precheck_slots send_ep epoch seq rx = Some b"
  using can_accept_total [of "fst rx" seq] can_accept_total [of "snd rx" seq]
  by (auto simp: precheck_slots_def)

lemma precheck_replay_spec:
  assumes "session_ok C bf s"
  obtains b where "precheck_replay epoch seq dir now s = Some (b, snd (prepare_rx now s))"
proof -
  obtain grace s1 where p: "prepare_rx now s = (grace, s1)" by force
  have ok: "slots_ok (rx_slots s1)" "\<And>g. grace = Some g \<Longrightarrow> slots_ok (grace_slots g)"
    using prepare_rx_ok [OF p assms] session_okD by blast+
  have rx: "\<exists>b. precheck_slots (send_epoch s1) epoch seq (at2 dir (rx_slots s1)) = Some b"
    using ok(1) by (intro precheck_slots_total) (simp_all add: slots_ok_def)
  have "\<exists>b. precheck_replay epoch seq dir now s = Some (b, s1)"
  proof (cases grace)
    case None
    then show ?thesis using p rx by (auto simp: precheck_replay_def)
  next
    case (Some g)
    then show ?thesis
      using p rx ok(2) [of g] can_accept_total [of "fst (at2 dir (grace_slots g))" seq]
        can_accept_total [of "snd (at2 dir (grace_slots g))" seq]
      by (auto simp: precheck_replay_def slots_ok_def Let_def)
  qed
  then show thesis using that p by auto
qed

lemma slot_accept_spec:
  assumes "window_offered (window slot) S"
  obtains w where "slot_accept now seq slot = Some (fresh_seq seq S, slot\<lparr>last_rx_ms := now, window := w\<rparr>)"
    and "window_offered w (insert seq S)"
proof -
  obtain w where "accept seq (window slot) = Some (fresh_seq seq S, w)" "window_offered w (insert seq S)"
    using window256.acc [OF assms] by blast
  then show thesis using that by (simp add: slot_accept_def)
qed

lemma slot_accept_total:
  assumes "slot_ok slot"
  obtains b slot' where "slot_accept now seq slot = Some (b, slot')" and "slot_ok slot'"
proof -
  obtain S where "window_offered (window slot) S" using assms by (auto simp: slot_ok_def)
  then obtain w where "slot_accept now seq slot = Some (fresh_seq seq S, slot\<lparr>last_rx_ms := now, window := w\<rparr>)"
      "window_offered w (insert seq S)"
    by (rule slot_accept_spec)
  then show thesis using that by (auto simp: slot_ok_def)
qed

lemma commit_slots_total:
  assumes "slot_ok (fst rx)" and "slot_ok (snd rx)"
  obtains b rx' where "commit_slots send_ep epoch seq now rx = Some (b, rx')"
    and "slot_ok (fst rx')" and "slot_ok (snd rx')"
proof -
  obtain b0 r0 where a0: "slot_accept now seq (fst rx) = Some (b0, r0)" "slot_ok r0"
    using slot_accept_total [OF assms(1)] by metis
  obtain b1 r1 where a1: "slot_accept now seq (snd rx) = Some (b1, r1)" "slot_ok r1"
    using slot_accept_total [OF assms(2)] by metis
  obtain b2 r2 where a2: "slot_accept now seq (fresh_rx_slot epoch now) = Some (b2, r2)" "slot_ok r2"
    using slot_accept_total [OF slot_ok_fresh] by metis
  have "\<exists>b rx'. commit_slots send_ep epoch seq now rx = Some (b, rx') \<and> slot_ok (fst rx') \<and> slot_ok (snd rx')"
    using a0 a1 a2 assms by (cases rx) (auto simp: commit_slots_def Let_def fresh_rx_slot_def)
  then show thesis using that by blast
qed

lemma commit_grace_total:
  assumes "slot_ok (fst gs)" and "slot_ok (snd gs)"
  obtains b gs' where "commit_grace epoch seq now gs = Some (b, gs')"
    and "slot_ok (fst gs')" and "slot_ok (snd gs')"
proof -
  obtain b0 r0 where a0: "slot_accept now seq (fst gs) = Some (b0, r0)" "slot_ok r0"
    using slot_accept_total [OF assms(1)] by metis
  obtain b1 r1 where a1: "slot_accept now seq (snd gs) = Some (b1, r1)" "slot_ok r1"
    using slot_accept_total [OF assms(2)] by metis
  have "\<exists>b gs'. commit_grace epoch seq now gs = Some (b, gs') \<and> slot_ok (fst gs') \<and> slot_ok (snd gs')"
    using a0 a1 assms by (cases gs) (auto simp: commit_grace_def)
  then show thesis using that by blast
qed

lemma key_slot_ok_prune [simp]: "key_slot_ok C bf s d k \<Longrightarrow> key_slot_ok C bf s d (prune_slot e rx g k)"
  by (auto simp: key_slot_ok_def prune_slot_def Let_def)

lemma prune_key_cache_ok: "session_ok C bf s \<Longrightarrow> session_ok C bf (prune_key_cache g s)"
proof -
  assume ok: "session_ok C bf s"
  have "cache_ok C bf (prune_key_cache g s)"
    unfolding cache_ok_def
  proof
    fix d
    show "key_slot_ok C bf (prune_key_cache g s) d (fst (at2 d (key_cache (prune_key_cache g s)))) \<and>
        key_slot_ok C bf (prune_key_cache g s) d (snd (at2 d (key_cache (prune_key_cache g s))))"
      using session_okD(1) [OF ok] by (cases d) (auto simp: cache_ok_def prune_key_cache_def Let_def
          dest: spec [of _ AToB] spec [of _ BToA])
  qed
  then show ?thesis
    using session_okD [OF ok] by (intro session_okI) (auto simp: prune_key_cache_def Let_def)
qed

lemma commit_rx_ok:
  assumes "session_ok C bf s"
  obtains b s' where "commit_rx epoch seq dir now s = Some (b, s')" and "session_ok C bf s'"
proof -
  have ok: "slot_ok (fst (at2 dir (rx_slots s)))" "slot_ok (snd (at2 dir (rx_slots s)))"
    using session_okD(2) [OF assms] by (simp_all add: slots_ok_def)
  obtain b rx' where "commit_slots (send_epoch s) epoch seq now (at2 dir (rx_slots s)) = Some (b, rx')"
      "slot_ok (fst rx')" "slot_ok (snd rx')"
    using commit_slots_total [OF ok] by metis
  then show thesis
    using session_okD [OF assms]
    by (intro that [of b "s\<lparr>rx_slots := set2 dir rx' (rx_slots s)\<rparr>"] session_okI)
      (auto simp: commit_rx_def slots_ok_set2)
qed

lemma commit_replay_ok:
  assumes "session_ok C bf s"
  obtains b s' where "commit_replay epoch seq dir now s = Some (b, s')" and "session_ok C bf s'"
proof -
  obtain grace s1 where p: "prepare_rx now s = (grace, s1)" by force
  note ok = prepare_rx_ok [OF p assms]
  obtain b s2 where c: "commit_rx epoch seq dir now s1 = Some (b, s2)" "session_ok C bf s2"
    using commit_rx_ok [OF ok(1)] by metis
  show thesis
  proof (cases grace)
    case None
    then show thesis
      using that [of b "prune_key_cache None s2"] p c prune_key_cache_ok by (simp add: commit_replay_def)
  next
    case (Some g)
    show thesis
    proof (cases "epoch_in_slots (at2 dir (grace_slots g)) epoch")
      case False
      then show thesis
        using that [of b "prune_key_cache (Some g) s2"] p c Some prune_key_cache_ok
        by (simp add: commit_replay_def)
    next
      case True
      have g: "slot_ok (fst (at2 dir (grace_slots g)))" "slot_ok (snd (at2 dir (grace_slots g)))"
        using ok(2) [OF Some] by (simp_all add: slots_ok_def)
      obtain b gs where gs: "commit_grace epoch seq now (at2 dir (grace_slots g)) = Some (b, gs)"
          "slot_ok (fst gs)" "slot_ok (snd gs)"
        using commit_grace_total [OF g] by metis
      let ?g = "g\<lparr>grace_slots := set2 dir gs (grace_slots g)\<rparr>"
      have "session_ok C bf (s1\<lparr>sync_grace := ?g\<rparr>)"
        using session_okD [OF ok(1)] ok(2) [OF Some] gs
        by (intro session_okI) (auto simp: slots_ok_set2)
      then show thesis
        using that [of b "prune_key_cache (Some ?g) (s1\<lparr>sync_grace := ?g\<rparr>)"] p gs Some True prune_key_cache_ok
        by (simp add: commit_replay_def Let_def)
    qed
  qed
qed


lemma nonce_bytes_parts [simp]:
  "u32_of_be (take 4 (nonce_bytes e q)) = e" "u64_of_be (drop 4 (nonce_bytes e q)) = q"
  "length (nonce_bytes e q) = NONCE_SIZE"
  by (simp_all add: nonce_bytes_def NONCE_SIZE_def)

lemma next_nonce_spec:
  assumes "session_ok C bf s"
  obtains ep st n where
    "next_nonce now dir s = Some ((ep, at2 dir (send_seq s), nonce_bytes ep (at2 dir (send_seq s))),
       s\<lparr>send_epoch := ep, send_epoch_started_ms := st, send_packets_since_epoch := n,
         send_seq := set2 dir (at2 dir (send_seq s) + 1) (send_seq s)\<rparr>)"
    and "n < ROTATE_AFTER_PACKETS"
    and "ep = send_epoch s \<and> n = send_packets_since_epoch s + 1 \<or> ep = send_epoch s + 1 \<and> n = 0"
proof -
  obtain ep st n where r: "maybe_rotate_epoch now s =
      Some (s\<lparr>send_epoch := ep, send_epoch_started_ms := st, send_packets_since_epoch := n\<rparr>)"
      "n < ROTATE_AFTER_PACKETS"
      "ep = send_epoch s \<and> n = send_packets_since_epoch s + 1 \<or> ep = send_epoch s + 1 \<and> n = 0"
    by (rule maybe_rotate_spec [OF session_okD(4) [OF assms]])
  show thesis
    by (rule that [where ep = ep and st = st and n = n]) (use r in \<open>simp_all add: next_nonce_def Let_def\<close>)
qed

lemma encrypt_payload_spec:
  assumes "hmac_ok C" and "session_ok C bf s" and "session_is_valid s"
  obtains ep e s' where
    "encrypt_payload C bf rnd now dir p s = do {
       r \<leftarrow> encryptor_encrypt_with_nonce C rnd e (Some (nonce_bytes ep (at2 dir (send_seq s)))) p;
       case r of Inl err \<Rightarrow> Some (Inl (CipherError err), invalidate s') | Inr q \<Rightarrow> Some (Inr q, s') }"
    and "traffic_cipher C bf (send_cipher_algorithm s) (root_key s) ep dir = Some e"
    and "session_ok C bf s'" and "root_key s' = root_key s" and "send_epoch s' = ep"
    and "ep = send_epoch s \<or> ep = send_epoch s + 1"
    and "send_seq s' = set2 dir (at2 dir (send_seq s) + 1) (send_seq s)"
    and "rx_slots s' = rx_slots s" and "sync_grace s' = sync_grace s"
    and "sync_grace_expires_at_ms s' = sync_grace_expires_at_ms s"
    and "send_cipher_algorithm s' = send_cipher_algorithm s"
    and "recv_cipher_algorithm s' = recv_cipher_algorithm s" and "invalidated s' = invalidated s"
proof -
  obtain ep st n where nn: "next_nonce now dir s =
      Some ((ep, at2 dir (send_seq s), nonce_bytes ep (at2 dir (send_seq s))),
       s\<lparr>send_epoch := ep, send_epoch_started_ms := st, send_packets_since_epoch := n,
         send_seq := set2 dir (at2 dir (send_seq s) + 1) (send_seq s)\<rparr>)" "n < ROTATE_AFTER_PACKETS"
      "ep = send_epoch s \<and> n = send_packets_since_epoch s + 1 \<or> ep = send_epoch s + 1 \<and> n = 0"
    by (rule next_nonce_spec [OF assms(2), where dir = dir and now = now])
  define s1 where "s1 = s\<lparr>send_epoch := ep, send_epoch_started_ms := st, send_packets_since_epoch := n,
         send_seq := set2 dir (at2 dir (send_seq s) + 1) (send_seq s)\<rparr>"
  have ok1: "session_ok C bf s1"
    using session_okD [OF assms(2)] nn(2) by (intro session_okI) (simp_all add: s1_def)
  obtain e kc where g: "get_or_create_encryptor C bf ep dir (session_generation s1) True s1 =
        Some (e, s1\<lparr>key_cache := kc\<rparr>)"
      "traffic_cipher C bf (session_alg True s1) (root_key s1) ep dir = Some e"
      "cache_ok C bf (s1\<lparr>key_cache := kc\<rparr>)"
    by (rule get_or_create_spec [OF assms(1) session_okD(1) [OF ok1]])
  have "session_ok C bf (s1\<lparr>key_cache := kc\<rparr>)"
    using session_okD [OF ok1] g(3) by (intro session_okI) simp_all
  moreover have "next_nonce now dir s =
      Some ((ep, at2 dir (send_seq s), nonce_bytes ep (at2 dir (send_seq s))), s1)"
    using nn(1) by (simp add: s1_def)
  then have "encrypt_payload C bf rnd now dir p s = do {
       r \<leftarrow> encryptor_encrypt_with_nonce C rnd e (Some (nonce_bytes ep (at2 dir (send_seq s)))) p;
       case r of Inl err \<Rightarrow> Some (Inl (CipherError err), invalidate (s1\<lparr>key_cache := kc\<rparr>))
         | Inr q \<Rightarrow> Some (Inr q, s1\<lparr>key_cache := kc\<rparr>) }"
    using assms(3) g(1) by (simp add: encrypt_payload_def)
  ultimately show thesis
    using that [where ep = ep and e = e and s' = "s1\<lparr>key_cache := kc\<rparr>"] g(2) nn(3)
    by (auto simp: session_alg_def s1_def)
qed

lemma encrypt_payload_ok:
  assumes "aead_correct C" and "hmac_ok C" and "session_ok C bf s" and "peer_manager_header p = Some h"
  obtains r s' where "encrypt_payload C bf rnd now dir p s = Some (r, s')" and "session_ok C bf s'"
proof (cases "session_is_valid s")
  case False
  then show thesis using that [of "Inl SessionInvalidated" s] assms(3) by (simp add: encrypt_payload_def)
next
  case True
  obtain ep e s' where s':
      "encrypt_payload C bf rnd now dir p s = do {
         r \<leftarrow> encryptor_encrypt_with_nonce C rnd e (Some (nonce_bytes ep (at2 dir (send_seq s)))) p;
         case r of Inl err \<Rightarrow> Some (Inl (CipherError err), invalidate s') | Inr q \<Rightarrow> Some (Inr q, s') }"
      "session_ok C bf s'"
    by (rule encrypt_payload_spec [OF assms(2,3) True])
  have "session_ok C bf (invalidate s')"
    using session_okD [OF s'(2)] by (intro session_okI) (simp_all add: invalidate_def)
  then show thesis
    using that s' encryptor_encrypt_no_panic [OF assms(1,4), of rnd e "Some (nonce_bytes ep (at2 dir (send_seq s)))"]
    by (cases "encryptor_encrypt_with_nonce C rnd e (Some (nonce_bytes ep (at2 dir (send_seq s)))) p")
      (auto split: sum.splits)
qed

text \<open>\<open>decrypt_payload\<close> after the header and the tail have been read: precheck, cipher, commit.\<close>

definition count_failure :: "session \<Rightarrow> session" where
  "count_failure s = (let s' = s\<lparr>decrypt_fail_count := decrypt_fail_count s + 1\<rparr>
     in if DECRYPT_FAIL_THRESHOLD \<le> decrypt_fail_count s' then invalidate s' else s')"

lemma decrypt_payload_spec:
  assumes "hmac_ok C" and "session_ok C bf s" and "session_is_valid s"
    and "payload p = Some pl" and "parse_tail pl = Some nonce"
    and "epoch = u32_of_be (take 4 nonce)" and "seq = u64_of_be (drop 4 nonce)"
  obtains b e s2 kc where
    "precheck_replay epoch seq dir now s = Some (b, snd (prepare_rx now s))"
    and "traffic_cipher C bf (recv_cipher_algorithm s) (root_key s) epoch dir = Some e"
    and "s2 = (snd (prepare_rx now s))\<lparr>key_cache := kc\<rparr>" and "session_ok C bf s2"
    and "decrypt_payload C bf now dir p s =
      (if \<not> b then Some (Inl ReplayRejected, snd (prepare_rx now s))
       else do {
         r \<leftarrow> encryptor_decrypt C e p;
         case r of
           Inl err \<Rightarrow> Some (Inl (CipherError err), count_failure s2)
         | Inr p' \<Rightarrow> do {
             (a, s4) \<leftarrow> commit_replay epoch seq dir now (s2\<lparr>decrypt_fail_count := 0\<rparr>);
             Some (if a then Inr p' else Inl ReplayRejected, s4)
           }
       })"
proof -
  define s1 where "s1 = snd (prepare_rx now s)"
  obtain b where pre: "precheck_replay epoch seq dir now s = Some (b, s1)"
    unfolding s1_def by (rule precheck_replay_spec [OF assms(2)])
  have ok1: "session_ok C bf s1"
    using prepare_rx_ok(1) [OF prod.collapse [symmetric] assms(2), of now] by (simp add: s1_def)
  obtain e kc where g: "get_or_create_encryptor C bf epoch dir (session_generation s1) False s1 =
        Some (e, s1\<lparr>key_cache := kc\<rparr>)"
      "traffic_cipher C bf (session_alg False s1) (root_key s1) epoch dir = Some e"
      "cache_ok C bf (s1\<lparr>key_cache := kc\<rparr>)"
    by (rule get_or_create_spec [OF assms(1) session_okD(1) [OF ok1]])
  define s2 where "s2 = s1\<lparr>key_cache := kc\<rparr>"
  have ok2: "session_ok C bf s2"
    using session_okD [OF ok1] g(3) by (intro session_okI) (simp_all add: s2_def)
  have "\<not> invalidated s2"
    using assms(3) by (simp add: s2_def s1_def session_is_valid_def)
  then have "decrypt_fail_count s2 < 10"
    using session_okD(5) [OF ok2] by (simp add: DECRYPT_FAIL_THRESHOLD_def)
  then have ne: "decrypt_fail_count s2 \<noteq> - 1" by auto
  have "decrypt_payload C bf now dir p s =
      (if \<not> b then Some (Inl ReplayRejected, s1)
       else do {
         r \<leftarrow> encryptor_decrypt C e p;
         case r of
           Inl err \<Rightarrow> Some (Inl (CipherError err), count_failure s2)
         | Inr p' \<Rightarrow> do {
             (a, s4) \<leftarrow> commit_replay epoch seq dir now (s2\<lparr>decrypt_fail_count := 0\<rparr>);
             Some (if a then Inr p' else Inl ReplayRejected, s4)
           }
       })"
    using pre g(1) assms(3-7) ne
    by (simp add: decrypt_payload_def count_failure_def Let_def flip: s2_def cong: sum.case_cong)
  moreover have "traffic_cipher C bf (recv_cipher_algorithm s) (root_key s) epoch dir = Some e"
    using g(2) by (simp add: session_alg_def s1_def)
  ultimately show thesis
    using that [of b e s2 kc] pre s2_def ok2 unfolding s1_def by blast
qed

lemma count_failure_ok: "session_ok C bf s \<Longrightarrow> session_ok C bf (count_failure s)"
  by (auto simp: session_ok_def count_failure_def invalidate_def Let_def not_le)

lemma decrypt_payload_ok:
  assumes "aead_correct C" and "hmac_ok C" and "session_ok C bf s" and "peer_manager_header p = Some h"
  obtains r s' where "decrypt_payload C bf now dir p s = Some (r, s')" and "session_ok C bf s'"
proof -
  obtain pl where pl: "payload p = Some pl" using assms(4) header_iff_payload [of p] by auto
  consider "\<not> session_is_valid s" | "session_is_valid s" "parse_tail pl = None"
    | nonce where "session_is_valid s" "parse_tail pl = Some nonce" by (cases "parse_tail pl") blast+
  then show thesis
  proof cases
    case 1
    then show thesis using that [of "Inl SessionInvalidated" s] assms(3) by (simp add: decrypt_payload_def)
  next
    case 2
    then show thesis using that [of "Inl NoTail" s] assms(3) pl by (simp add: decrypt_payload_def)
  next
    case (3 nonce)
    obtain b e s2 where d: "session_ok C bf s2"
      "decrypt_payload C bf now dir p s =
      (if \<not> b then Some (Inl ReplayRejected, snd (prepare_rx now s))
       else do {
         r \<leftarrow> encryptor_decrypt C e p;
         case r of
           Inl err \<Rightarrow> Some (Inl (CipherError err), count_failure s2)
         | Inr p' \<Rightarrow> do {
             (a, s4) \<leftarrow> commit_replay (u32_of_be (take 4 nonce)) (u64_of_be (drop 4 nonce)) dir now
               (s2\<lparr>decrypt_fail_count := 0\<rparr>);
             Some (if a then Inr p' else Inl ReplayRejected, s4)
           }
       })"
      by (rule decrypt_payload_spec [OF assms(2,3) 3(1) pl 3(2) refl refl])
    have ok1: "session_ok C bf (snd (prepare_rx now s))"
      by (rule prepare_rx_ok(1) [OF prod.collapse [symmetric] assms(3)])
    have ok3: "session_ok C bf (s2\<lparr>decrypt_fail_count := 0\<rparr>)"
      using session_okD [OF d(1)] by (intro session_okI) (auto simp: DECRYPT_FAIL_THRESHOLD_def)
    obtain r where r: "encryptor_decrypt C e p = Some r"
      using encryptor_decrypt_no_panic [OF assms(1,4)] by (meson not_None_eq)
    obtain a s4 where c: "commit_replay (u32_of_be (take 4 nonce)) (u64_of_be (drop 4 nonce)) dir now
          (s2\<lparr>decrypt_fail_count := 0\<rparr>) = Some (a, s4)" "session_ok C bf s4"
      by (rule commit_replay_ok [OF ok3])
    show thesis
      using that d(2) r c ok1 count_failure_ok [OF d(1)] by (cases b; cases r) auto
  qed
qed

lemma at2_key_cache_default [simp]:
  "at2 d key_cache_default = (epoch_key_slot_default, epoch_key_slot_default)"
  by (cases d) (simp_all add: key_cache_default_def)

lemma cache_ok_default: "key_cache s = key_cache_default \<Longrightarrow> cache_ok C bf s"
  by (simp add: cache_ok_def key_slot_ok_def epoch_key_slot_default_def)

lemma slots_ok_cleared:
  "slots_ok rx \<Longrightarrow> slots_ok (map_prod (map_prod rx_slot_clear rx_slot_clear) (map_prod rx_slot_clear rx_slot_clear) rx)"
  by (simp add: slots_ok_def)

lemma sync_root_key_ok: "session_ok C bf s \<Longrightarrow> session_ok C bf (sync_root_key t1 t2 key gen ep keep s)"
  by (frule session_okD(2), frule session_okD(3), frule session_okD(5), intro session_okI cache_ok_default)
    (simp_all add: sync_root_key_def Let_def grace_refresh_def grace_clear_def slots_ok_cleared
      ROTATE_AFTER_PACKETS_def)

lemma session_new_ok: "session_ok C bf (session_new now key gen ep sa ra)"
  by (intro session_okI cache_ok_default)
    (simp_all add: session_new_def sync_rx_grace_default_def ROTATE_AFTER_PACKETS_def DECRYPT_FAIL_THRESHOLD_def)

end
