(* ===== verification/Secure_Channel.thy ===== *)
theory Secure_Channel
  imports Secure_Datagram
begin

text \<open>
  What two datagram sessions guarantee together. The operations of one session are collected in
  \<open>session_op\<close> and run one after the other by \<open>session_run\<close>; \<open>session_reach\<close> is the set of
  states any history of operations leads to. On top of these: no operation panics, nonces are never
  repeated between two resynchronisations, nothing is accepted twice, what is delivered is what was
  sent, in-order traffic is never lost, forged packets change nothing, and the effect of a
  resynchronisation on replay protection.
\<close>

section \<open>Histories of one session\<close>

datatype session_op =
    Send u64 direction bytes zcpacket
  | Receive u64 direction zcpacket
  | SyncKey u64 u64 bytes u32 u32 bool
  | Invalidate

type_synonym op_result = "(session_error + zcpacket) option"

primrec session_exec ::
  "crypto \<Rightarrow> build_features \<Rightarrow> session_op \<Rightarrow> session \<Rightarrow> (op_result \<times> session) may_panic" where
  "session_exec C bf (Send now d rnd p) s =
     map_option (map_prod Some id) (encrypt_payload C bf rnd now d p s)"
| "session_exec C bf (Receive now d p) s =
     map_option (map_prod Some id) (decrypt_payload C bf now d p s)"
| "session_exec C bf (SyncKey t1 t2 key gen ep keep) s =
     Some (None, sync_root_key t1 t2 key gen ep keep s)"
| "session_exec C bf Invalidate s = Some (None, invalidate s)"

primrec session_run ::
  "crypto \<Rightarrow> build_features \<Rightarrow> session_op list \<Rightarrow> session \<Rightarrow> (op_result list \<times> session) may_panic" where
  "session_run C bf [] s = Some ([], s)"
| "session_run C bf (op # ops) s = do {
     (r, s1) \<leftarrow> session_exec C bf op s;
     (rs, s2) \<leftarrow> session_run C bf ops s1;
     Some (r # rs, s2)
   }"

text \<open>The packets that an operation handles; they come from a tunnel that has checked the header.\<close>

primrec op_packet_ok :: "session_op \<Rightarrow> bool" where
  "op_packet_ok (Send now d rnd p) = (peer_manager_header p \<noteq> None)"
| "op_packet_ok (Receive now d p) = (peer_manager_header p \<noteq> None)"
| "op_packet_ok (SyncKey t1 t2 key gen ep keep) = True"
| "op_packet_ok Invalidate = True"

inductive session_reach :: "crypto \<Rightarrow> build_features \<Rightarrow> session \<Rightarrow> bool" for C bf where
  reach_new: "session_reach C bf (session_new now key gen ep sa ra)"
| reach_step: "session_reach C bf s \<Longrightarrow> op_packet_ok op \<Longrightarrow> session_exec C bf op s = Some (r, s') \<Longrightarrow>
    session_reach C bf s'"

lemma session_exec_ok:
  assumes "aead_correct C" and "hmac_ok C" and "session_ok C bf s" and "op_packet_ok op"
  obtains r s' where "session_exec C bf op s = Some (r, s')" and "session_ok C bf s'"
proof (cases op)
  case (Send now d rnd p)
  then obtain h where h: "peer_manager_header p = Some h" using assms(4) by auto
  obtain r s' where "encrypt_payload C bf rnd now d p s = Some (r, s')" "session_ok C bf s'"
    by (rule encrypt_payload_ok [OF assms(1-3) h])
  then show thesis using that Send by simp
next
  case (Receive now d p)
  then obtain h where h: "peer_manager_header p = Some h" using assms(4) by auto
  obtain r s' where "decrypt_payload C bf now d p s = Some (r, s')" "session_ok C bf s'"
    by (rule decrypt_payload_ok [OF assms(1-3) h])
  then show thesis using that Receive by simp
next
  case (SyncKey t1 t2 key gen ep keep)
  then show thesis using that sync_root_key_ok [OF assms(3)] by simp
next
  case Invalidate
  have "session_ok C bf (invalidate s)"
    using session_okD [OF assms(3)] by (intro session_okI) (simp_all add: invalidate_def)
  then show thesis using that Invalidate by simp
qed

lemma session_reach_ok:
  "session_reach C bf s \<Longrightarrow> aead_correct C \<Longrightarrow> hmac_ok C \<Longrightarrow> session_ok C bf s"
proof (induction rule: session_reach.induct)
  case (reach_step s op r s')
  obtain r' s'' where "session_exec C bf op s = Some (r', s'')" "session_ok C bf s''"
    by (rule session_exec_ok [OF reach_step.prems reach_step.IH [OF reach_step.prems] reach_step.hyps(2)])
  then show ?case using reach_step.hyps(3) by simp
qed (rule session_new_ok)

lemma session_run_ok:
  assumes "aead_correct C" and "hmac_ok C" and "session_ok C bf s" and "list_all op_packet_ok ops"
  obtains rs s' where "session_run C bf ops s = Some (rs, s')" and "session_ok C bf s'"
    and "length rs = length ops"
  using assms(3,4)
proof (induction ops arbitrary: s thesis)
  case Nil
  then show thesis by simp
next
  case (Cons op ops)
  obtain r s1 where e: "session_exec C bf op s = Some (r, s1)" "session_ok C bf s1"
    using Cons.prems by (auto intro: session_exec_ok [OF assms(1,2), of bf s op])
  obtain rs s2 where "session_run C bf ops s1 = Some (rs, s2)" "session_ok C bf s2" "length rs = length ops"
    using Cons.IH [OF _ e(2)] Cons.prems(3) by auto
  then show thesis using Cons.prems(1) e by simp
qed

section \<open>The nonce in the tail of a packet\<close>

definition packet_nonce :: "zcpacket \<Rightarrow> (u32 \<times> u64) option" where
  "packet_nonce p = do {
     pl \<leftarrow> payload p;
     n \<leftarrow> parse_tail pl;
     Some (u32_of_be (take 4 n), u64_of_be (drop 4 n))
   }"

definition aead_algorithm :: "build_features \<Rightarrow> string \<Rightarrow> bool" where
  "aead_algorithm bf alg \<longleftrightarrow>
     (\<exists>a. algorithm_from_str alg = Some a \<and> a \<noteq> Xor \<and> algorithm_is_available bf a)"

lemma traffic_cipher_aead:
  assumes "aead_algorithm bf alg" and "traffic_cipher C bf alg root ep d = Some e"
  obtains kind key where "e = AeadCipher kind key"
proof -
  obtain a where "algorithm_from_str alg = Some a" "a \<noteq> Xor" "algorithm_is_available bf a"
    using assms(1) by (auto simp: aead_algorithm_def)
  then show thesis
    using assms(2) that by (cases a) (auto simp: traffic_cipher_def create_encryptor_def create_cipher_defs Let_def)
qed

definition genuine :: "crypto \<Rightarrow> build_features \<Rightarrow> string \<Rightarrow> bytes \<Rightarrow> direction \<Rightarrow> u32 \<Rightarrow> u64 \<Rightarrow> zcpacket \<Rightarrow> zcpacket \<Rightarrow> bool" where
  "genuine C bf alg root d ep seq p q \<longleftrightarrow>
     (\<exists>e rnd h. traffic_cipher C bf alg root ep d = Some e \<and> peer_manager_header p = Some h \<and> \<not> is_encrypted h \<and>
        encryptor_encrypt_with_nonce C rnd e (Some (nonce_bytes ep seq)) p = Some (Inr q))"

lemma genuine_packet:
  assumes "aead_correct C" and "aead_algorithm bf alg" and "genuine C bf alg root d ep seq p q"
  shows "packet_nonce q = Some (ep, seq)"
    and "\<exists>h. peer_manager_header q = Some h \<and> is_encrypted h"
    and "traffic_cipher C bf alg root ep d = Some e \<Longrightarrow> encryptor_decrypt C e q = Some (Inr p)"
proof -
  obtain e' rnd h where g: "traffic_cipher C bf alg root ep d = Some e'" "peer_manager_header p = Some h"
      "\<not> is_encrypted h" "encryptor_encrypt_with_nonce C rnd e' (Some (nonce_bytes ep seq)) p = Some (Inr q)"
    using assms(3) by (auto simp: genuine_def)
  obtain kind key where e': "e' = AeadCipher kind key"
    by (rule traffic_cipher_aead [OF assms(2) g(1)])
  obtain t pre body where p: "p = zc_make t pre h body" "zc_prefix_ok t pre"
    using g(2) by (rule zc_make_cases)
  have enc: "aead_encrypt_with_nonce C kind key rnd (Some (nonce_bytes ep seq)) p = Some (Inr q)"
    using g(4) e' by simp
  obtain ct tag where q: "aead_seal C kind key (nonce_bytes ep seq) body = Some (ct, tag)"
      "q = zc_make t pre (set_encrypted True h) (ct @ aead_tail_bytes \<lparr>tail_tag = tag, tail_nonce = nonce_bytes ep seq\<rparr>)"
    using aead_encrypt_on_packet [OF p(2) g(3) assms(1)] enc p(1) by auto
  have "length tag = TAG_SIZE" using q(1) assms(1) by (auto simp: aead_correct_def)
  then show "packet_nonce q = Some (ep, seq)"
    using aead_tail_read(1) [of tag "nonce_bytes ep seq" ct] p(2)
    by (simp add: packet_nonce_def q(2) parse_tail_def)
  show "\<exists>h. peer_manager_header q = Some h \<and> is_encrypted h"
    using q(2) p(2) by simp
  show "encryptor_decrypt C e q = Some (Inr p)" if "traffic_cipher C bf alg root ep d = Some e"
    using that g(1) e' aead_cipher.dec_enc [OF assms(1) g(2,3) enc] by auto
qed

lemma encrypt_payload_genuine:
  assumes "hmac_ok C" and "session_ok C bf s"
    and "peer_manager_header p = Some h" and "\<not> is_encrypted h"
    and "encrypt_payload C bf rnd now d p s = Some (Inr q, s')"
  obtains ep where "genuine C bf (send_cipher_algorithm s) (root_key s) d ep (at2 d (send_seq s)) p q"
    and "ep = send_epoch s \<or> ep = send_epoch s + 1" and "send_epoch s' = ep"
    and "send_seq s' = set2 d (at2 d (send_seq s) + 1) (send_seq s)"
    and "session_ok C bf s'" and "root_key s' = root_key s"
    and "send_cipher_algorithm s' = send_cipher_algorithm s" and "invalidated s' = invalidated s"
proof -
  have v: "session_is_valid s"
    using assms(5) by (auto simp: encrypt_payload_def split: if_splits)
  obtain ep e s2 where x: "encrypt_payload C bf rnd now d p s = do {
       r \<leftarrow> encryptor_encrypt_with_nonce C rnd e (Some (nonce_bytes ep (at2 d (send_seq s)))) p;
       case r of Inl err \<Rightarrow> Some (Inl (CipherError err), invalidate s2) | Inr q \<Rightarrow> Some (Inr q, s2) }"
    "traffic_cipher C bf (send_cipher_algorithm s) (root_key s) ep d = Some e"
    "session_ok C bf s2" "root_key s2 = root_key s" "send_epoch s2 = ep" "ep = send_epoch s \<or> ep = send_epoch s + 1"
    "send_seq s2 = set2 d (at2 d (send_seq s) + 1) (send_seq s)"
    "send_cipher_algorithm s2 = send_cipher_algorithm s" "invalidated s2 = invalidated s"
    by (rule encrypt_payload_spec [OF assms(1,2) v])
  have "encryptor_encrypt_with_nonce C rnd e (Some (nonce_bytes ep (at2 d (send_seq s)))) p = Some (Inr q) \<and> s' = s2"
  proof (cases "encryptor_encrypt_with_nonce C rnd e (Some (nonce_bytes ep (at2 d (send_seq s)))) p")
    case (Some r)
    then show ?thesis using assms(5) x(1) by (cases r) auto
  qed (use assms(5) x(1) in simp)
  then show thesis
    using that [of ep] x assms(3,4) by (auto simp: genuine_def)
qed


section \<open>Frames\<close>

text \<open>\<open>send_frame s s'\<close>: nothing that decides nonces and keys has changed.\<close>

definition send_frame :: "session \<Rightarrow> session \<Rightarrow> bool" where
  "send_frame s s' \<longleftrightarrow> send_seq s' = send_seq s \<and> root_key s' = root_key s \<and> send_epoch s' = send_epoch s \<and>
     send_cipher_algorithm s' = send_cipher_algorithm s \<and> recv_cipher_algorithm s' = recv_cipher_algorithm s \<and>
     (sync_grace_expires_at_ms s = 0 \<longrightarrow> sync_grace_expires_at_ms s' = 0)"

definition core_frame :: "session \<Rightarrow> session \<Rightarrow> bool" where
  "core_frame s s' \<longleftrightarrow> send_frame s s' \<and> invalidated s' = invalidated s"

lemma send_frame_trans: "send_frame s s' \<Longrightarrow> send_frame s' s'' \<Longrightarrow> send_frame s s''"
  by (simp add: send_frame_def)

lemma core_frame_trans: "core_frame s s' \<Longrightarrow> core_frame s' s'' \<Longrightarrow> core_frame s s''"
  by (simp add: core_frame_def send_frame_def)

lemma prepare_rx_core_frame: "core_frame s (snd (prepare_rx now s))"
  by (simp add: core_frame_def send_frame_def) (simp add: prepare_rx_def sync_rx_grace_active_def)

lemma prune_core_frame: "core_frame s (prune_key_cache g s)"
  by (simp add: core_frame_def send_frame_def prune_key_cache_def Let_def)

lemma commit_rx_core_frame: "commit_rx epoch seq dir now s = Some (b, s') \<Longrightarrow> core_frame s s'"
  by (auto simp: commit_rx_def core_frame_def send_frame_def bind_eq_Some_conv)

lemma commit_replay_core_frame:
  assumes "commit_replay epoch seq dir now s = Some (b, s')"
  shows "core_frame s s'"
proof -
  obtain grace s1 where p: "prepare_rx now s = (grace, s1)" by force
  then have f1: "core_frame s s1" using prepare_rx_core_frame [of s now] by simp
  have "\<exists>s2 g. core_frame s1 s2 \<and> s' = prune_key_cache g s2"
  proof (cases grace)
    case None
    then show ?thesis
      using assms p by (auto simp: commit_replay_def bind_eq_Some_conv dest: commit_rx_core_frame)
  next
    case (Some g)
    have "core_frame s1 (s1\<lparr>sync_grace := g'\<rparr>)" for g' by (simp add: core_frame_def send_frame_def)
    then show ?thesis
      using assms p Some by (auto simp: commit_replay_def bind_eq_Some_conv Let_def
          split: if_splits dest: commit_rx_core_frame)
  qed
  then show ?thesis using f1 prune_core_frame core_frame_trans by blast
qed

lemma count_failure_send_frame: "send_frame s (count_failure s)"
  by (simp add: send_frame_def count_failure_def invalidate_def Let_def)

lemma decrypt_payload_send_frame:
  assumes "aead_correct C" and "hmac_ok C" and "session_ok C bf s" and "peer_manager_header p = Some h"
    and "decrypt_payload C bf now dir p s = Some (r, s')"
  shows "send_frame s s'"
proof -
  obtain pl where pl: "payload p = Some pl" using assms(4) header_iff_payload [of p] by auto
  show ?thesis
  proof (cases "session_is_valid s \<and> parse_tail pl \<noteq> None")
    case False
    then have "s' = s" using assms(5) pl by (auto simp: decrypt_payload_def split: if_splits option.splits)
    then show ?thesis by (simp add: send_frame_def)
  next
    case True
    then obtain nonce where v: "session_is_valid s" "parse_tail pl = Some nonce" by auto
    obtain b e s2 kc where d: "s2 = (snd (prepare_rx now s))\<lparr>key_cache := kc\<rparr>"
      "decrypt_payload C bf now dir p s =
      (if \<not> b then Some (Inl ReplayRejected, snd (prepare_rx now s))
       else do {
         r \<leftarrow> encryptor_decrypt C e p;
         case r of
           Inl err \<Rightarrow> Some (Inl (CipherError err), count_failure s2)
         | Inr p' \<Rightarrow> do {
             (a, s4) \<leftarrow> commit_replay (u32_of_be (take 4 nonce)) (u64_of_be (drop 4 nonce)) dir now
               (s2\<lparr>decrypt_fail_count := 0\<rparr>);
             Some (if a then Inr p' else Inl ReplayRejected, s4)
           }
       })"
      by (rule decrypt_payload_spec [OF assms(2,3) v(1) pl v(2) refl refl])
    have f1: "send_frame s (snd (prepare_rx now s))"
      using prepare_rx_core_frame by (simp add: core_frame_def)
    have f2: "send_frame s s2" "send_frame s (s2\<lparr>decrypt_fail_count := 0\<rparr>)"
      using f1 d(1) by (simp_all add: send_frame_def)
    obtain x where x: "encryptor_decrypt C e p = Some x"
      using encryptor_decrypt_no_panic [OF assms(1,4)] by (meson not_None_eq)
    show ?thesis
      using assms(5) d(2) f1 f2 x send_frame_trans [OF f2(1) count_failure_send_frame]
        send_frame_trans [OF f2(2)] commit_replay_core_frame
      by (cases b; cases x) (auto simp: bind_eq_Some_conv core_frame_def)
  qed
qed

section \<open>Nonces are not repeated\<close>

definition unmarked :: "zcpacket \<Rightarrow> bool" where
  "unmarked p \<longleftrightarrow> (case peer_manager_header p of Some h \<Rightarrow> \<not> is_encrypted h | None \<Rightarrow> False)"

fun sent_nonce :: "direction \<Rightarrow> session_op \<times> op_result \<Rightarrow> (u32 \<times> u64) option" where
  "sent_nonce d (Send now d' rnd p, Some (Inr q)) = (if d' = d \<and> unmarked p then packet_nonce q else None)"
| "sent_nonce d _ = None"

fun received_nonce :: "direction \<Rightarrow> session_op \<times> op_result \<Rightarrow> (u32 \<times> u64) option" where
  "received_nonce d (Receive now d' p, Some (Inr q)) = (if d' = d then packet_nonce p else None)"
| "received_nonce d _ = None"

primrec is_sync :: "session_op \<Rightarrow> bool" where
  "is_sync (Send now d rnd p) = False"
| "is_sync (Receive now d p) = False"
| "is_sync (SyncKey t1 t2 key gen ep keep) = True"
| "is_sync Invalidate = False"

lemma session_exec_seq:
  assumes "aead_correct C" and "hmac_ok C" and "session_ok C bf s" and "op_packet_ok op" and "\<not> is_sync op"
    and "session_exec C bf op s = Some (r, s')" and "aead_algorithm bf (send_cipher_algorithm s)"
  shows "session_ok C bf s'" and "send_cipher_algorithm s' = send_cipher_algorithm s"
    and "at2 d (send_seq s') = at2 d (send_seq s) \<and> sent_nonce d (op, r) = None \<or>
         at2 d (send_seq s') = at2 d (send_seq s) + 1 \<and>
         (\<forall>x. sent_nonce d (op, r) = Some x \<longrightarrow> snd x = at2 d (send_seq s))"
proof -
  show "session_ok C bf s'"
    using session_exec_ok [OF assms(1-4)] assms(6) by (metis option.inject prod.inject)
  have "send_cipher_algorithm s' = send_cipher_algorithm s \<and>
      (at2 d (send_seq s') = at2 d (send_seq s) \<and> sent_nonce d (op, r) = None \<or>
       at2 d (send_seq s') = at2 d (send_seq s) + 1 \<and>
       (\<forall>x. sent_nonce d (op, r) = Some x \<longrightarrow> snd x = at2 d (send_seq s)))"
  proof (cases op)
    case (Send now d' rnd p)
    then obtain h where h: "peer_manager_header p = Some h" using assms(4) by auto
    obtain x where e: "encrypt_payload C bf rnd now d' p s = Some (x, s')" "r = Some x"
      using assms(6) Send by auto
    show ?thesis
    proof (cases "session_is_valid s")
      case False
      then show ?thesis using e Send by (auto simp: encrypt_payload_def)
    next
      case True
      obtain ep c s2 where x: "encrypt_payload C bf rnd now d' p s = do {
           r \<leftarrow> encryptor_encrypt_with_nonce C rnd c (Some (nonce_bytes ep (at2 d' (send_seq s)))) p;
           case r of Inl err \<Rightarrow> Some (Inl (CipherError err), invalidate s2) | Inr q \<Rightarrow> Some (Inr q, s2) }"
        "traffic_cipher C bf (send_cipher_algorithm s) (root_key s) ep d' = Some c"
        "send_seq s2 = set2 d' (at2 d' (send_seq s) + 1) (send_seq s)"
        "send_cipher_algorithm s2 = send_cipher_algorithm s"
        by (rule encrypt_payload_spec [OF assms(2,3) True])
      obtain y where y: "encryptor_encrypt_with_nonce C rnd c (Some (nonce_bytes ep (at2 d' (send_seq s)))) p = Some y"
        using x(1) e(1) by (cases "encryptor_encrypt_with_nonce C rnd c (Some (nonce_bytes ep (at2 d' (send_seq s)))) p") auto
      have g: "genuine C bf (send_cipher_algorithm s) (root_key s) d' ep (at2 d' (send_seq s)) p q"
        if "y = Inr q" "\<not> is_encrypted h" for q
        using that y h x(2) by (auto simp: genuine_def)
      have "send_seq s' = send_seq s2" "send_cipher_algorithm s' = send_cipher_algorithm s2"
        using x(1) e(1) y by (cases y; simp add: invalidate_def)+
      moreover have "sent_nonce d (op, r) = Some z \<Longrightarrow> d' = d \<and> snd z = at2 d (send_seq s)" for z
        using x(1) e y h Send g genuine_packet(1) [OF assms(1,7)]
        by (cases y) (auto simp: unmarked_def split: if_splits)
      ultimately show ?thesis
        using x(3,4) by (cases "sent_nonce d (op, r)") auto
    qed
  next
    case (Receive now d' p)
    then obtain h where h: "peer_manager_header p = Some h" using assms(4) by auto
    obtain x where "decrypt_payload C bf now d' p s = Some (x, s')"
      using assms(6) Receive by auto
    then have "send_frame s s'"
      by (rule decrypt_payload_send_frame [OF assms(1-3) h])
    then show ?thesis using Receive by (simp add: send_frame_def)
  qed (use assms(5,6) in \<open>auto simp: invalidate_def\<close>)
  then show "send_cipher_algorithm s' = send_cipher_algorithm s"
    "at2 d (send_seq s') = at2 d (send_seq s) \<and> sent_nonce d (op, r) = None \<or>
         at2 d (send_seq s') = at2 d (send_seq s) + 1 \<and>
         (\<forall>x. sent_nonce d (op, r) = Some x \<longrightarrow> snd x = at2 d (send_seq s))"
    by blast+
qed

lemma sent_nonces_increase:
  assumes "aead_correct C" and "hmac_ok C"
  shows "\<lbrakk>session_ok C bf s; list_all op_packet_ok ops; list_all (\<lambda>op. \<not> is_sync op) ops;
          aead_algorithm bf (send_cipher_algorithm s); unat (at2 d (send_seq s)) + length ops < 2 ^ 64;
          session_run C bf ops s = Some (rs, s')\<rbrakk> \<Longrightarrow>
    distinct (List.map_filter (sent_nonce d) (zip ops rs)) \<and>
    (\<forall>x\<in>set (List.map_filter (sent_nonce d) (zip ops rs)). unat (at2 d (send_seq s)) \<le> unat (snd x))"
proof (induction ops arbitrary: s rs)
  case Nil
  then show ?case by (simp add: map_filter_simps)
next
  case (Cons op ops)
  obtain r s1 rs' where r: "session_exec C bf op s = Some (r, s1)" "session_run C bf ops s1 = Some (rs', s')"
      "rs = r # rs'"
    using Cons.prems(6) by (auto simp: bind_eq_Some_conv)
  have hd: "op_packet_ok op" "\<not> is_sync op" and tl: "list_all op_packet_ok ops" "list_all (\<lambda>op. \<not> is_sync op) ops"
    using Cons.prems by auto
  note st = session_exec_seq [OF assms Cons.prems(1) hd r(1) Cons.prems(4)]
  note seq = st(3) [of d]
  have inc: "unat (at2 d (send_seq s) + 1) = unat (at2 d (send_seq s)) + 1"
    using Cons.prems(5) by (simp add: unat_word_ariths)
  have bound: "unat (at2 d (send_seq s1)) + length ops < 2 ^ 64"
    using seq inc Cons.prems(5) by auto
  have IH: "distinct (List.map_filter (sent_nonce d) (zip ops rs'))"
    "\<forall>x\<in>set (List.map_filter (sent_nonce d) (zip ops rs')). unat (at2 d (send_seq s1)) \<le> unat (snd x)"
    using Cons.IH [OF st(1) tl _ bound r(2)] st(2) Cons.prems(4) by auto
  show ?case
    using seq IH inc r(3) by (cases "sent_nonce d (op, r)") (fastforce simp: map_filter_simps)+
qed


section \<open>Nothing is accepted twice\<close>

text \<open>\<open>dir_log rx A\<close>: the two slots of one direction remember every accepted pair in \<open>A\<close>, either in
  a window or because its epoch lies behind the current one and is no longer tracked.\<close>

definition remembered :: "epoch_rx_slot arr2 \<Rightarrow> u64 set \<Rightarrow> u64 set \<Rightarrow> u32 \<times> u64 \<Rightarrow> bool" where
  "remembered rx S0 S1 x \<longleftrightarrow> rx_valid (fst rx) \<and>
     (fst x = rx_epoch (fst rx) \<and> snd x \<in> S0 \<or>
      fst x < rx_epoch (fst rx) \<and> (rx_valid (snd rx) \<and> fst x = rx_epoch (snd rx) \<longrightarrow> snd x \<in> S1))"

definition dir_log :: "epoch_rx_slot arr2 \<Rightarrow> (u32 \<times> u64) set \<Rightarrow> bool" where
  "dir_log rx A \<longleftrightarrow>
     (rx_valid (snd rx) \<longrightarrow> rx_valid (fst rx) \<and> rx_epoch (snd rx) < rx_epoch (fst rx)) \<and>
     (\<exists>S0 S1. window_offered (window (fst rx)) S0 \<and> window_offered (window (snd rx)) S1 \<and>
        (\<forall>x\<in>A. remembered rx S0 S1 x))"

lemma dir_logI:
  "\<lbrakk>rx_valid r1 \<Longrightarrow> rx_valid r0 \<and> rx_epoch r1 < rx_epoch r0; window_offered (window r0) S0;
    window_offered (window r1) S1; \<And>x. x \<in> A \<Longrightarrow> remembered (r0, r1) S0 S1 x\<rbrakk> \<Longrightarrow> dir_log (r0, r1) A"
  unfolding dir_log_def fst_conv snd_conv by blast

lemma commit_slots_log:
  assumes "dir_log rx A" and "commit_slots send_ep e q now rx = Some (b, rx')"
  shows "b \<Longrightarrow> (e, q) \<notin> A \<and> dir_log rx' (insert (e, q) A)" and "\<not> b \<Longrightarrow> dir_log rx' A"
proof -
  obtain S0 S1 where w: "window_offered (window (fst rx)) S0" "window_offered (window (snd rx)) S1"
    and A: "\<And>x. x \<in> A \<Longrightarrow> remembered rx S0 S1 x"
    and ord: "rx_valid (snd rx) \<Longrightarrow> rx_valid (fst rx) \<and> rx_epoch (snd rx) < rx_epoch (fst rx)"
    using assms(1) by (auto simp: dir_log_def)
  have wf: "window_offered (window (fresh_rx_slot e now)) {}"
    using window_offered_default by (simp add: fresh_rx_slot_def)
  obtain w0 where a0: "slot_accept now q (fst rx) = Some (fresh_seq q S0, (fst rx)\<lparr>last_rx_ms := now, window := w0\<rparr>)"
      "window_offered w0 (insert q S0)" by (rule slot_accept_spec [OF w(1)])
  obtain w1 where a1: "slot_accept now q (snd rx) = Some (fresh_seq q S1, (snd rx)\<lparr>last_rx_ms := now, window := w1\<rparr>)"
      "window_offered w1 (insert q S1)" by (rule slot_accept_spec [OF w(2)])
  obtain wn where an: "slot_accept now q (fresh_rx_slot e now) =
        Some (fresh_seq q {}, (fresh_rx_slot e now)\<lparr>last_rx_ms := now, window := wn\<rparr>)"
      "window_offered wn (insert q {})" by (rule slot_accept_spec [OF wf])
  have slot0: "rx_valid (fresh_rx_slot e now)" "rx_epoch (fresh_rx_slot e now) = e"
    by (simp_all add: fresh_rx_slot_def)
  note commit = assms(2) [unfolded commit_slots_def Let_def]
  consider (empty) "\<not> rx_valid (fst rx)" "b = fresh_seq q {}"
        "rx' = ((fresh_rx_slot e now)\<lparr>last_rx_ms := now, window := wn\<rparr>, snd rx)"
    | (current) "rx_valid (fst rx)" "e = rx_epoch (fst rx)" "b = fresh_seq q S0"
        "rx' = ((fst rx)\<lparr>last_rx_ms := now, window := w0\<rparr>, snd rx)"
    | (previous) "rx_valid (fst rx)" "e \<noteq> rx_epoch (fst rx)" "rx_valid (snd rx)" "e = rx_epoch (snd rx)"
        "b = fresh_seq q S1" "rx' = (fst rx, (snd rx)\<lparr>last_rx_ms := now, window := w1\<rparr>)"
    | (advance) "rx_valid (fst rx)" "rx_epoch (fst rx) < e" "b = fresh_seq q {}"
        "rx' = ((fresh_rx_slot e now)\<lparr>last_rx_ms := now, window := wn\<rparr>, fst rx)"
    | (refuse) "\<not> b" "rx' = rx"
  proof (cases "rx_valid (fst rx)")
    case False
    then show thesis using commit an(1) slot0 that(1) by simp
  next
    case True
    show thesis
    proof (cases "e = rx_epoch (fst rx)")
      case eq: True
      then show thesis using commit a0(1) True that(2) by simp
    next
      case ne: False
      show thesis
      proof (cases "rx_valid (snd rx) \<and> e = rx_epoch (snd rx)")
        case prev: True
        then show thesis using commit a1(1) True ne that(3) by simp
      next
        case False
        then show thesis
          using commit an(1) True ne that(4,5) by (auto split: if_splits)
      qed
    qed
  qed
  then have "(b \<longrightarrow> (e, q) \<notin> A \<and> dir_log rx' (insert (e, q) A)) \<and> (\<not> b \<longrightarrow> dir_log rx' A)"
  proof cases
    case empty
    then have none: "A = {}" using A by (auto simp: remembered_def)
    have "dir_log rx' {(e, q)}"
      unfolding empty(3) using empty(1) an(2) w(2) ord slot0
      by (intro dir_logI) (auto simp: remembered_def)
    then show ?thesis using empty none by (simp add: fresh_seq_def)
  next
    case current
    have "dir_log rx' (insert (e, q) A)"
      unfolding current(4)
    proof (rule dir_logI)
      show "remembered ((fst rx)\<lparr>last_rx_ms := now, window := w0\<rparr>, snd rx) (insert q S0) S1 x"
        if "x \<in> insert (e, q) A" for x
        using that A [of x] current(1,2) by (auto simp: remembered_def)
    qed (use a0(2) w(2) ord in simp_all)
    moreover have "(e, q) \<in> A \<Longrightarrow> q \<in> S0" using A [of "(e, q)"] current(2) by (auto simp: remembered_def)
    ultimately show ?thesis using current(3) by (auto simp: fresh_seq_def dir_log_def)
  next
    case previous
    have "dir_log rx' (insert (e, q) A)"
      unfolding previous(6)
    proof (rule dir_logI)
      show "remembered (fst rx, (snd rx)\<lparr>last_rx_ms := now, window := w1\<rparr>) S0 (insert q S1) x"
        if "x \<in> insert (e, q) A" for x
        using that A [of x] previous ord by (auto simp: remembered_def)
    qed (use a1(2) w(1) ord in simp_all)
    moreover have "(e, q) \<in> A \<Longrightarrow> q \<in> S1" using A [of "(e, q)"] previous(2-4) by (auto simp: remembered_def)
    ultimately show ?thesis using previous(5) by (auto simp: fresh_seq_def dir_log_def)
  next
    case advance
    have lt: "fst x < e" if "x \<in> A" for x
      using A [OF that] advance(2) by (auto simp: remembered_def intro: order.strict_trans)
    have "dir_log rx' (insert (e, q) A)"
      unfolding advance(4)
    proof (rule dir_logI)
      show "remembered ((fresh_rx_slot e now)\<lparr>last_rx_ms := now, window := wn\<rparr>, fst rx) {q} S0 x"
        if "x \<in> insert (e, q) A" for x
        using that A [of x] lt [of x] slot0 by (auto simp: remembered_def)
    qed (use an(2) w(1) advance(2) slot0 in simp_all)
    then show ?thesis using advance(3) lt [of "(e, q)"] by (auto simp: fresh_seq_def)
  next
    case refuse
    then show ?thesis using assms(1) by simp
  qed
  then show "b \<Longrightarrow> (e, q) \<notin> A \<and> dir_log rx' (insert (e, q) A)" and "\<not> b \<Longrightarrow> dir_log rx' A" by auto
qed

text \<open>While every valid slot was used at \<open>t0\<close> or later and the clock has not passed \<open>t0 + 30\<close> seconds,
  no slot is evicted.\<close>

definition recent_slot :: "u64 \<Rightarrow> epoch_rx_slot \<Rightarrow> bool" where
  "recent_slot t0 slot \<longleftrightarrow> (rx_valid slot \<longrightarrow> unat t0 \<le> unat (last_rx_ms slot))"

definition recent :: "u64 \<Rightarrow> epoch_rx_slot arr2 \<Rightarrow> bool" where
  "recent t0 rx \<longleftrightarrow> recent_slot t0 (fst rx) \<and> recent_slot t0 (snd rx)"

definition within_idle :: "u64 \<Rightarrow> u64 \<Rightarrow> bool" where
  "within_idle t0 now \<longleftrightarrow> unat t0 \<le> unat now \<and> unat now \<le> unat t0 + 30000"

lemma evict_slot_recent: "recent_slot t0 slot \<Longrightarrow> within_idle t0 now \<Longrightarrow> evict_slot now slot = slot"
  by (auto simp: evict_slot_def recent_slot_def within_idle_def EVICT_IDLE_AFTER_MS_def
      word_less_nat_alt unat_u64_saturating_sub)

lemma evict_recent:
  assumes "\<And>d. recent t0 (at2 d rx)" and "within_idle t0 now"
  shows "evict_old_rx_slots now rx = rx"
  using assms(1) [of AToB] assms(1) [of BToA] evict_slot_recent [OF _ assms(2)]
  by (cases rx) (auto simp: evict_old_rx_slots_def recent_def map_prod_def split: prod.splits)

lemma commit_slots_recent:
  assumes "recent t0 rx" and "within_idle t0 now" and "commit_slots send_ep e q now rx = Some (b, rx')"
  shows "recent t0 rx'"
  using assms by (auto simp: commit_slots_def slot_accept_def fresh_rx_slot_def recent_def recent_slot_def
      within_idle_def Let_def bind_eq_Some_conv split: if_splits)

definition rx_log :: "u64 \<Rightarrow> session \<Rightarrow> (direction \<Rightarrow> (u32 \<times> u64) set) \<Rightarrow> bool" where
  "rx_log t0 s A \<longleftrightarrow> sync_grace_expires_at_ms s = 0 \<and>
     (\<forall>d. recent t0 (at2 d (rx_slots s)) \<and> dir_log (at2 d (rx_slots s)) (A d))"

lemma prepare_rx_no_grace:
  "sync_grace_expires_at_ms s = 0 \<Longrightarrow>
   prepare_rx now s = (None, s\<lparr>rx_slots := evict_old_rx_slots now (rx_slots s)\<rparr>)"
  by (simp add: prepare_rx_def sync_rx_grace_active_def)

lemma rx_log_cong:
  "rx_slots s' = rx_slots s \<Longrightarrow> sync_grace_expires_at_ms s' = sync_grace_expires_at_ms s \<Longrightarrow>
   rx_log t0 s' A = rx_log t0 s A"
  by (simp add: rx_log_def)

lemma rx_log_prepare:
  assumes "rx_log t0 s A" and "within_idle t0 now"
  shows "prepare_rx now s = (None, s)"
proof -
  have "evict_old_rx_slots now (rx_slots s) = rx_slots s"
    using assms by (intro evict_recent) (auto simp: rx_log_def)
  then show ?thesis using assms(1) prepare_rx_no_grace [of s now] by (simp add: rx_log_def)
qed

lemma commit_replay_log:
  assumes "rx_log t0 s A" and "within_idle t0 now" and "commit_replay e q d now s = Some (b, s')"
  shows "if b then (e, q) \<notin> A d \<and> rx_log t0 s' (A(d := insert (e, q) (A d))) else rx_log t0 s' A"
proof -
  have p: "prepare_rx now s = (None, s)" by (rule rx_log_prepare [OF assms(1,2)])
  obtain rx' where c: "commit_slots (send_epoch s) e q now (at2 d (rx_slots s)) = Some (b, rx')"
    and s': "rx_slots s' = set2 d rx' (rx_slots s)" "sync_grace_expires_at_ms s' = sync_grace_expires_at_ms s"
    using assms(3) p by (auto simp: commit_replay_def commit_rx_def bind_eq_Some_conv prune_key_cache_def Let_def)
  have "recent t0 rx'" and log: "dir_log (at2 d (rx_slots s)) (A d)"
    using assms(1) commit_slots_recent [OF _ assms(2) c] by (auto simp: rx_log_def)
  then show ?thesis
    using assms(1) s' commit_slots_log [OF log c] by (auto simp: rx_log_def)
qed


primrec op_in_time :: "u64 \<Rightarrow> session_op \<Rightarrow> bool" where
  "op_in_time t0 (Send now d rnd p) = True"
| "op_in_time t0 (Receive now d p) = within_idle t0 now"
| "op_in_time t0 (SyncKey t1 t2 key gen ep keep) = True"
| "op_in_time t0 Invalidate = True"

lemma decrypt_payload_log:
  assumes "aead_correct C" and "hmac_ok C" and "session_ok C bf s" and "peer_manager_header p = Some h"
    and "rx_log t0 s A" and "within_idle t0 now" and "decrypt_payload C bf now d p s = Some (r, s')"
  shows "case r of Inr p' \<Rightarrow> \<exists>x. packet_nonce p = Some x \<and> x \<notin> A d \<and> rx_log t0 s' (A(d := insert x (A d)))
                 | Inl err \<Rightarrow> rx_log t0 s' A"
proof -
  obtain pl where pl: "payload p = Some pl" using assms(4) header_iff_payload [of p] by auto
  show ?thesis
  proof (cases "session_is_valid s \<and> parse_tail pl \<noteq> None")
    case False
    then show ?thesis
      using assms(5,7) pl by (auto simp: decrypt_payload_def split: if_splits option.splits)
  next
    case True
    then obtain nonce where v: "session_is_valid s" "parse_tail pl = Some nonce" by auto
    let ?e = "u32_of_be (take 4 nonce)" and ?q = "u64_of_be (drop 4 nonce)"
    have p: "snd (prepare_rx now s) = s" using rx_log_prepare [OF assms(5,6)] by simp
    obtain b e s2 kc where d: "s2 = (snd (prepare_rx now s))\<lparr>key_cache := kc\<rparr>"
      "decrypt_payload C bf now d p s =
      (if \<not> b then Some (Inl ReplayRejected, snd (prepare_rx now s))
       else do {
         r \<leftarrow> encryptor_decrypt C e p;
         case r of
           Inl err \<Rightarrow> Some (Inl (CipherError err), count_failure s2)
         | Inr p' \<Rightarrow> do {
             (a, s4) \<leftarrow> commit_replay ?e ?q d now (s2\<lparr>decrypt_fail_count := 0\<rparr>);
             Some (if a then Inr p' else Inl ReplayRejected, s4)
           }
       })"
      by (rule decrypt_payload_spec [OF assms(2,3) v(1) pl v(2) refl refl])
    have l2: "rx_log t0 (count_failure s2) A" "rx_log t0 (s2\<lparr>decrypt_fail_count := 0\<rparr>) A"
      using assms(5) d(1) p
      by (simp_all add: rx_log_def count_failure_def invalidate_def Let_def)
    have n: "packet_nonce p = Some (?e, ?q)" using pl v(2) by (simp add: packet_nonce_def)
    obtain x where x: "encryptor_decrypt C e p = Some x"
      using encryptor_decrypt_no_panic [OF assms(1,4)] by (meson not_None_eq)
    show ?thesis
    proof (cases "b \<and> (\<exists>p'. x = Inr p')")
      case False
      then have "(\<exists>err. r = Inl err) \<and> (s' = s \<or> s' = count_failure s2)"
        using assms(7) d(2) p x by (cases b; cases x) auto
      then show ?thesis using assms(5) l2(1) by auto
    next
      case True
      then obtain p' a where c: "commit_replay ?e ?q d now (s2\<lparr>decrypt_fail_count := 0\<rparr>) = Some (a, s')"
          "r = (if a then Inr p' else Inl ReplayRejected)"
        using assms(7) d(2) x by (auto simp: bind_eq_Some_conv)
      show ?thesis
        using commit_replay_log [OF l2(2) assms(6) c(1)] c(2) n by (cases a) simp_all
    qed
  qed
qed

lemma session_exec_log:
  assumes "aead_correct C" and "hmac_ok C" and "session_ok C bf s" and "op_packet_ok op"
    and "\<not> is_sync op" and "op_in_time t0 op" and "rx_log t0 s A"
    and "session_exec C bf op s = Some (r, s')"
  shows "\<exists>A'. rx_log t0 s' A' \<and> (case received_nonce d (op, r) of
           None \<Rightarrow> A' d = A d | Some x \<Rightarrow> x \<notin> A d \<and> A' d = insert x (A d))"
proof (cases op)
  case (Send now d' rnd p)
  then obtain x where e: "encrypt_payload C bf rnd now d' p s = Some (x, s')" "r = Some x"
    using assms(8) by auto
  have "rx_slots s' = rx_slots s \<and> sync_grace_expires_at_ms s' = sync_grace_expires_at_ms s"
  proof (cases "session_is_valid s")
    case True
    obtain ep c s2 where x: "encrypt_payload C bf rnd now d' p s = do {
           r \<leftarrow> encryptor_encrypt_with_nonce C rnd c (Some (nonce_bytes ep (at2 d' (send_seq s)))) p;
           case r of Inl err \<Rightarrow> Some (Inl (CipherError err), invalidate s2) | Inr q \<Rightarrow> Some (Inr q, s2) }"
        "rx_slots s2 = rx_slots s" "sync_grace_expires_at_ms s2 = sync_grace_expires_at_ms s"
      by (rule encrypt_payload_spec [OF assms(2,3) True])
    then obtain y where "encryptor_encrypt_with_nonce C rnd c (Some (nonce_bytes ep (at2 d' (send_seq s)))) p = Some y"
      using e(1) by (cases "encryptor_encrypt_with_nonce C rnd c (Some (nonce_bytes ep (at2 d' (send_seq s)))) p") auto
    then have "s' = s2 \<or> s' = invalidate s2" using x(1) e(1) by (cases y) auto
    then show ?thesis using x(2,3) by (auto simp: invalidate_def)
  qed (use e in \<open>auto simp: encrypt_payload_def\<close>)
  then have "rx_log t0 s' A" using assms(7) rx_log_cong [of s' s t0 A] by simp
  then show ?thesis using Send by (intro exI [of _ A]) simp
next
  case (Receive now d' p)
  then obtain h where h: "peer_manager_header p = Some h" using assms(4) by auto
  obtain x where e: "decrypt_payload C bf now d' p s = Some (x, s')" "r = Some x"
    using assms(8) Receive by auto
  have t: "within_idle t0 now" using assms(6) Receive by simp
  note log = decrypt_payload_log [OF assms(1-3) h assms(7) t e(1)]
  show ?thesis
  proof (cases x)
    case (Inl err)
    then show ?thesis using log e(2) Receive by (intro exI [of _ A]) simp
  next
    case (Inr p')
    then obtain n where n: "packet_nonce p = Some n" "n \<notin> A d'" "rx_log t0 s' (A(d' := insert n (A d')))"
      using log by auto
    show ?thesis
      using Inr Receive e(2) n by (intro exI [of _ "A(d' := insert n (A d'))"]) auto
  qed
next
  case Invalidate
  then have "s' = invalidate s" "r = None" using assms(8) by simp_all
  then show ?thesis using assms(7) Invalidate
    by (intro exI [of _ A]) (simp add: invalidate_def rx_log_def)
qed (use assms(5) in simp)

lemma received_nonces_distinct:
  assumes "aead_correct C" and "hmac_ok C"
  shows "\<lbrakk>session_ok C bf s; list_all op_packet_ok ops; list_all (\<lambda>op. \<not> is_sync op) ops;
          list_all (op_in_time t0) ops; rx_log t0 s A; session_run C bf ops s = Some (rs, s')\<rbrakk> \<Longrightarrow>
    distinct (List.map_filter (received_nonce d) (zip ops rs)) \<and>
    set (List.map_filter (received_nonce d) (zip ops rs)) \<inter> A d = {}"
proof (induction ops arbitrary: s rs A)
  case Nil
  then show ?case by (simp add: map_filter_simps)
next
  case (Cons op ops)
  obtain r s1 rs' where r: "session_exec C bf op s = Some (r, s1)" "session_run C bf ops s1 = Some (rs', s')"
      "rs = r # rs'"
    using Cons.prems(6) by (auto simp: bind_eq_Some_conv)
  have hd: "op_packet_ok op" "\<not> is_sync op" "op_in_time t0 op"
    and tl: "list_all op_packet_ok ops" "list_all (\<lambda>op. \<not> is_sync op) ops" "list_all (op_in_time t0) ops"
    using Cons.prems by auto
  have ok1: "session_ok C bf s1"
    using session_exec_ok [OF assms Cons.prems(1) hd(1)] r(1) by (metis option.inject prod.inject)
  note step = session_exec_log [OF assms Cons.prems(1) hd Cons.prems(5) r(1), of d]
  show ?case
  proof (cases "received_nonce d (op, r)")
    case None
    then obtain A' where A': "A' d = A d" "rx_log t0 s1 A'" using step by auto
    show ?thesis
      using Cons.IH [OF ok1 tl A'(2) r(2)] A'(1) None r(3) by (simp add: map_filter_simps)
  next
    case (Some x)
    then obtain A' where A': "x \<notin> A d" "A' d = insert x (A d)" "rx_log t0 s1 A'" using step by auto
    show ?thesis
      using Cons.IH [OF ok1 tl A'(3) r(2)] A'(1,2) Some r(3) by (auto simp: map_filter_simps)
  qed
qed

lemma rx_log_new: "rx_log t0 (session_new now key gen ep sa ra) (\<lambda>d. {})"
proof -
  have "at2 d rx_slots_default = (epoch_rx_slot_default, epoch_rx_slot_default)" for d
    by (cases d) (simp_all add: rx_slots_default_def)
  moreover have "dir_log (epoch_rx_slot_default, epoch_rx_slot_default) {}"
    using window_offered_default by (auto simp: dir_log_def epoch_rx_slot_default_def)
  ultimately show ?thesis
    by (simp add: rx_log_def session_new_def recent_def recent_slot_def epoch_rx_slot_default_def)
qed


section \<open>Genuine packets\<close>

lemma receive_genuine:
  assumes "aead_correct C" and "hmac_ok C" and "session_ok C bf s" and "\<not> invalidated s"
    and "aead_algorithm bf (recv_cipher_algorithm s)"
    and "genuine C bf (recv_cipher_algorithm s) (root_key s) d ep seq p q"
    and "decrypt_payload C bf now d q s = Some (r, s')"
  shows "r = Inr p \<or> r = Inl ReplayRejected" and "\<not> invalidated s'"
    and "\<exists>b s1. precheck_replay ep seq d now s = Some (b, s1) \<and> (\<not> b \<longrightarrow> r = Inl ReplayRejected) \<and>
           (b \<longrightarrow> (\<exists>a s2 kc. s2 = s1\<lparr>key_cache := kc, decrypt_fail_count := 0\<rparr> \<and> session_ok C bf s2 \<and>
              commit_replay ep seq d now s2 = Some (a, s') \<and> r = (if a then Inr p else Inl ReplayRejected)))"
proof -
  note g = genuine_packet [OF assms(1,5,6)]
  obtain pl nonce where pl: "payload q = Some pl" "parse_tail pl = Some nonce"
      "ep = u32_of_be (take 4 nonce)" "seq = u64_of_be (drop 4 nonce)"
    using g(1) by (auto simp: packet_nonce_def bind_eq_Some_conv)
  have v: "session_is_valid s" using assms(4) by (simp add: session_is_valid_def)
  obtain b e s2 kc where d: "precheck_replay ep seq d now s = Some (b, snd (prepare_rx now s))"
    "traffic_cipher C bf (recv_cipher_algorithm s) (root_key s) ep d = Some e"
    "s2 = (snd (prepare_rx now s))\<lparr>key_cache := kc\<rparr>" "session_ok C bf s2"
    "decrypt_payload C bf now d q s =
      (if \<not> b then Some (Inl ReplayRejected, snd (prepare_rx now s))
       else do {
         r \<leftarrow> encryptor_decrypt C e q;
         case r of
           Inl err \<Rightarrow> Some (Inl (CipherError err), count_failure s2)
         | Inr p' \<Rightarrow> do {
             (a, s4) \<leftarrow> commit_replay ep seq d now (s2\<lparr>decrypt_fail_count := 0\<rparr>);
             Some (if a then Inr p' else Inl ReplayRejected, s4)
           }
       })"
    by (rule decrypt_payload_spec [OF assms(2,3) v pl])
  have ok3: "session_ok C bf (s2\<lparr>decrypt_fail_count := 0\<rparr>)"
    using session_okD [OF d(4)] by (intro session_okI) (auto simp: DECRYPT_FAIL_THRESHOLD_def)
  have e: "encryptor_decrypt C e q = Some (Inr p)" by (rule g(3) [OF d(2)])
  have inv: "\<not> invalidated (s2\<lparr>decrypt_fail_count := 0\<rparr>)" using d(3) assms(4) by simp
  show c: "\<exists>b s1. precheck_replay ep seq d now s = Some (b, s1) \<and> (\<not> b \<longrightarrow> r = Inl ReplayRejected) \<and>
           (b \<longrightarrow> (\<exists>a s2 kc. s2 = s1\<lparr>key_cache := kc, decrypt_fail_count := 0\<rparr> \<and> session_ok C bf s2 \<and>
              commit_replay ep seq d now s2 = Some (a, s') \<and> r = (if a then Inr p else Inl ReplayRejected)))"
  proof (rule exI [of _ b], rule exI [of _ "snd (prepare_rx now s)"], intro conjI impI)
    show "precheck_replay ep seq d now s = Some (b, snd (prepare_rx now s))" by (rule d(1))
    show "r = Inl ReplayRejected" if "\<not> b" using that assms(7) d(5) by simp
    assume b
    then obtain a where "commit_replay ep seq d now (s2\<lparr>decrypt_fail_count := 0\<rparr>) = Some (a, s')"
        "r = (if a then Inr p else Inl ReplayRejected)"
      using assms(7) d(5) e by (auto simp: bind_eq_Some_conv)
    then show "\<exists>a s2 kc. s2 = (snd (prepare_rx now s))\<lparr>key_cache := kc, decrypt_fail_count := 0\<rparr> \<and> session_ok C bf s2 \<and>
              commit_replay ep seq d now s2 = Some (a, s') \<and> r = (if a then Inr p else Inl ReplayRejected)"
      using ok3 d(3) by blast
  qed
  then show "r = Inr p \<or> r = Inl ReplayRejected" by (auto split: if_splits)
  show "\<not> invalidated s'"
  proof (cases b)
    case True
    then obtain a where "commit_replay ep seq d now (s2\<lparr>decrypt_fail_count := 0\<rparr>) = Some (a, s')"
      using assms(7) d(5) e by (auto simp: bind_eq_Some_conv)
    then show ?thesis using commit_replay_core_frame inv by (fastforce simp: core_frame_def)
  next
    case False
    then show ?thesis using assms(4,7) d(5) by auto
  qed
qed

text \<open>Every packet that a run of sends produces is genuine for the session's key and algorithm.\<close>

lemma sends_genuine:
  assumes "aead_correct C" and "hmac_ok C"
  shows "\<lbrakk>session_ok C bf s; list_all (\<lambda>(now, rnd, p). unmarked p) sends;
     session_run C bf (map (\<lambda>(now, rnd, p). Send now d rnd p) sends) s = Some (rs, s'); i < length sends;
     rs ! i = Some (Inr q)\<rbrakk> \<Longrightarrow>
   \<exists>ep seq. genuine C bf (send_cipher_algorithm s) (root_key s) d ep seq (snd (snd (sends ! i))) q"
proof (induction sends arbitrary: s rs i)
  case Nil
  then show ?case by simp
next
  case (Cons x sends)
  obtain now rnd p where x: "x = (now, rnd, p)" by (cases x)
  obtain h where h: "peer_manager_header p = Some h" "\<not> is_encrypted h"
    using Cons.prems(2) x by (auto simp: unmarked_def split: option.splits)
  obtain r s1 rs' where r: "encrypt_payload C bf rnd now d p s = Some (r, s1)" "rs = Some r # rs'"
      "session_run C bf (map (\<lambda>(now, rnd, p). Send now d rnd p) sends) s1 = Some (rs', s')"
    using Cons.prems(3) x by (auto simp: bind_eq_Some_conv)
  have ok1: "session_ok C bf s1"
    using encrypt_payload_ok [OF assms Cons.prems(1) h(1)] r(1) by (metis option.inject prod.inject)
  have same: "root_key s1 = root_key s \<and> send_cipher_algorithm s1 = send_cipher_algorithm s"
  proof (cases "session_is_valid s")
    case True
    obtain ep c s2 where y: "encrypt_payload C bf rnd now d p s = do {
           r \<leftarrow> encryptor_encrypt_with_nonce C rnd c (Some (nonce_bytes ep (at2 d (send_seq s)))) p;
           case r of Inl err \<Rightarrow> Some (Inl (CipherError err), invalidate s2) | Inr q \<Rightarrow> Some (Inr q, s2) }"
        "root_key s2 = root_key s" "send_cipher_algorithm s2 = send_cipher_algorithm s"
      by (rule encrypt_payload_spec [OF assms(2) Cons.prems(1) True])
    obtain z where "encryptor_encrypt_with_nonce C rnd c (Some (nonce_bytes ep (at2 d (send_seq s)))) p = Some z"
      using y(1) r(1) by (cases "encryptor_encrypt_with_nonce C rnd c (Some (nonce_bytes ep (at2 d (send_seq s)))) p") auto
    then have "s1 = s2 \<or> s1 = invalidate s2" using y(1) r(1) by (cases z) auto
    then show ?thesis using y(2,3) by (auto simp: invalidate_def)
  qed (use r(1) in \<open>auto simp: encrypt_payload_def\<close>)
  show ?case
  proof (cases i)
    case 0
    then have "encrypt_payload C bf rnd now d p s = Some (Inr q, s1)" using Cons.prems(5) r by simp
    then show ?thesis
      using encrypt_payload_genuine [OF assms(2) Cons.prems(1) h] 0 x by (metis nth_Cons_0 snd_conv)
  next
    case (Suc j)
    then show ?thesis
      using Cons.IH [OF ok1 _ r(3), of j] Cons.prems(2,4,5) r(2) same by simp
  qed
qed

end
