(* ===== verification/Channel_Guarantees.thy ===== *)
theory Channel_Guarantees
  imports Secure_Channel
begin

text \<open>
  The guarantees of the secure datagram channel as theorems about whole runs, with the two session
  weaknesses that the model shows: packets without the encrypted flag are delivered without
  authentication, and the XOR cipher cannot be used in a session.
\<close>

section \<open>A lossless in-order channel\<close>

text \<open>Each packet is encrypted by the sender and handed to the receiver at once.\<close>

primrec transfer ::
  "crypto \<Rightarrow> build_features \<Rightarrow> direction \<Rightarrow> (u64 \<times> bytes \<times> zcpacket \<times> u64) list \<Rightarrow> session \<Rightarrow> session \<Rightarrow>
   ((session_error + zcpacket) list \<times> session \<times> session) may_panic" where
  "transfer C bf d [] s r = Some ([], s, r)"
| "transfer C bf d (x # xs) s r = (case x of (ts, rnd, p, tr) \<Rightarrow> do {
     (y, s1) \<leftarrow> encrypt_payload C bf rnd ts d p s;
     case y of
       Inl err \<Rightarrow> Some ([Inl err], s1, r)
     | Inr q \<Rightarrow> do {
         (z, r1) \<leftarrow> decrypt_payload C bf tr d q r;
         (zs, s2, r2) \<leftarrow> transfer C bf d xs s1 r1;
         Some (z # zs, s2, r2)
       }
   })"

definition seals :: "crypto \<Rightarrow> zcpacket \<Rightarrow> bool" where
  "seals C p \<longleftrightarrow> (\<forall>kind key n pl. payload p = Some pl \<longrightarrow> aead_seal C kind key n pl \<noteq> None)"

definition in_step :: "epoch_rx_slot arr2 \<Rightarrow> u32 \<Rightarrow> u64 \<Rightarrow> bool" where
  "in_step rx ep q \<longleftrightarrow>
     (rx_valid (fst rx) \<longrightarrow> rx_epoch (fst rx) = ep \<and>
        (\<exists>S. window_offered (window (fst rx)) S \<and> (\<forall>x\<in>S. unat x < unat q))) \<and>
     (rx_valid (snd rx) \<longrightarrow> rx_epoch (snd rx) < ep)"

lemma in_step_evict: "in_step rx ep q \<Longrightarrow> in_step (map_prod (evict_slot now) (evict_slot now) rx) ep q"
  by (cases rx) (simp add: in_step_def evict_slot_def rx_slot_clear_def)

lemma max_slot_epoch_ge: "m \<le> max_slot_epoch slot m"
  by (simp add: max_slot_epoch_def)

lemma max_slot_epoch_own: "rx_valid slot \<Longrightarrow> rx_epoch slot \<le> max_slot_epoch slot m"
  by (simp add: max_slot_epoch_def)

lemma next_epoch_allowed:
  assumes "rx_valid (fst rx)" and "unat (rx_epoch (fst rx)) + 1 < 2 ^ 32"
  shows "\<not> max_allowed_epoch send_ep rx < rx_epoch (fst rx) + 1"
proof -
  let ?m = "max_slot_epoch (snd rx) (max_slot_epoch (fst rx) send_ep)"
  have "rx_epoch (fst rx) \<le> ?m"
    by (rule order_trans [OF max_slot_epoch_own [OF assms(1)] max_slot_epoch_ge])
  then have "unat (rx_epoch (fst rx)) \<le> unat ?m" by (simp add: word_le_nat_alt)
  moreover have "unat (rx_epoch (fst rx) + 1) = unat (rx_epoch (fst rx)) + 1"
    using assms(2) by (simp add: unat_word_ariths)
  ultimately show ?thesis
    using assms(2) unsigned_less [of ?m]
    by (simp add: max_allowed_epoch_def word_less_nat_alt unat_u32_saturating_add MAX_ACCEPTED_RX_EPOCH_AHEAD_def)
qed

lemma in_step_accepts:
  assumes "in_step rx ep q" and "ep' = ep \<or> ep' = ep + 1 \<and> unat ep + 1 < 2 ^ 32" and "unat q + 1 < 2 ^ 64"
  shows "precheck_slots send_ep ep' q rx = Some True"
    and "\<exists>rx'. commit_slots send_ep ep' q now rx = Some (True, rx') \<and> in_step rx' ep' (q + 1)"
proof -
  have q1: "unat (q + 1) = unat q + 1" using assms(3) by (simp add: unat_word_ariths)
  have lt: "ep < ep'" if "ep' \<noteq> ep"
    using that assms(2) by (auto simp: word_less_nat_alt unat_word_ariths)
  have wf: "window_offered (window (fresh_rx_slot ep' now)) {}"
    using window_offered_default by (simp add: fresh_rx_slot_def)
  obtain wn where an: "slot_accept now q (fresh_rx_slot ep' now) =
        Some (True, (fresh_rx_slot ep' now)\<lparr>last_rx_ms := now, window := wn\<rparr>)" "window_offered wn {q}"
    using slot_accept_spec [OF wf, of now q] by (auto simp: fresh_seq_def)
  have fresh: "rx_valid (fresh_rx_slot ep' now)" "rx_epoch (fresh_rx_slot ep' now) = ep'"
    by (simp_all add: fresh_rx_slot_def)
  have step_new: "in_step ((fresh_rx_slot ep' now)\<lparr>last_rx_ms := now, window := wn\<rparr>, r1) ep' (q + 1)"
    if "rx_valid r1 \<Longrightarrow> rx_epoch r1 < ep'" for r1
    using that an(2) fresh q1 by (auto simp: in_step_def)
  have "precheck_slots send_ep ep' q rx = Some True \<and>
      (\<exists>rx'. commit_slots send_ep ep' q now rx = Some (True, rx') \<and> in_step rx' ep' (q + 1))"
  proof (cases "rx_valid (fst rx)")
    case False
    have "rx_valid (snd rx) \<Longrightarrow> rx_epoch (snd rx) < ep'"
      using assms(1) lt by (cases "ep' = ep") (auto simp: in_step_def intro: order.strict_trans)
    then show ?thesis
      using False an(1) fresh step_new by (simp add: precheck_slots_def commit_slots_def Let_def)
  next
    case True
    obtain S where S: "window_offered (window (fst rx)) S" "\<forall>x\<in>S. unat x < unat q" "rx_epoch (fst rx) = ep"
      and old: "rx_valid (snd rx) \<Longrightarrow> rx_epoch (snd rx) < ep"
      using assms(1) True by (auto simp: in_step_def)
    have f: "fresh_seq q S" using S(2) by (fastforce simp: fresh_seq_def)
    show ?thesis
    proof (cases "ep' = ep")
      case eq: True
      obtain w where a: "slot_accept now q (fst rx) = Some (True, (fst rx)\<lparr>last_rx_ms := now, window := w\<rparr>)"
          "window_offered w (insert q S)"
        using slot_accept_spec [OF S(1), of now q] f by auto
      have "\<forall>x\<in>insert q S. unat x < unat (q + 1)" using S(2) q1 by auto
      then have "in_step ((fst rx)\<lparr>last_rx_ms := now, window := w\<rparr>, snd rx) ep' (q + 1)"
        using a(2) eq S(3) old by (auto simp: in_step_def)
      then show ?thesis
        using True eq S(3) a(1) window256.can [OF S(1), of q] f
        by (simp add: precheck_slots_def commit_slots_def)
    next
      case ne: False
      then have e: "ep' = ep + 1" "unat ep + 1 < 2 ^ 32" using assms(2) by auto
      have "\<not> max_allowed_epoch send_ep rx < ep'"
        using next_epoch_allowed [OF True, of send_ep] e S(3) by simp
      moreover have "\<not> (rx_valid (snd rx) \<and> ep' = rx_epoch (snd rx))"
        using old lt [OF ne] by (auto dest: order.strict_trans)
      ultimately show ?thesis
        using True ne S(3) lt [OF ne] an(1) step_new [of "fst rx"]
        by (auto simp: precheck_slots_def commit_slots_def)
    qed
  qed
  then show "precheck_slots send_ep ep' q rx = Some True"
    and "\<exists>rx'. commit_slots send_ep ep' q now rx = Some (True, rx') \<and> in_step rx' ep' (q + 1)" by auto
qed


text \<open>Sender and receiver of one direction agree on key and algorithm, and the receiver is in step.\<close>

definition paired :: "crypto \<Rightarrow> build_features \<Rightarrow> direction \<Rightarrow> session \<Rightarrow> session \<Rightarrow> bool" where
  "paired C bf d s r \<longleftrightarrow> session_ok C bf s \<and> session_ok C bf r \<and> \<not> invalidated s \<and> \<not> invalidated r \<and>
     root_key r = root_key s \<and> recv_cipher_algorithm r = send_cipher_algorithm s \<and>
     aead_algorithm bf (send_cipher_algorithm s) \<and> sync_grace_expires_at_ms r = 0 \<and>
     in_step (at2 d (rx_slots r)) (send_epoch s) (at2 d (send_seq s))"

lemma encrypt_seals:
  assumes "aead_correct C" and "hmac_ok C" and "session_ok C bf s" and "\<not> invalidated s"
    and "aead_algorithm bf (send_cipher_algorithm s)"
    and "peer_manager_header p = Some h" and "\<not> is_encrypted h" and "seals C p"
  obtains q s' where "encrypt_payload C bf rnd now d p s = Some (Inr q, s')"
proof -
  have v: "session_is_valid s" using assms(4) by (simp add: session_is_valid_def)
  obtain ep e s2 where x: "encrypt_payload C bf rnd now d p s = do {
       r \<leftarrow> encryptor_encrypt_with_nonce C rnd e (Some (nonce_bytes ep (at2 d (send_seq s)))) p;
       case r of Inl err \<Rightarrow> Some (Inl (CipherError err), invalidate s2) | Inr q \<Rightarrow> Some (Inr q, s2) }"
    "traffic_cipher C bf (send_cipher_algorithm s) (root_key s) ep d = Some e"
    by (rule encrypt_payload_spec [OF assms(2,3) v])
  obtain kind key where e: "e = AeadCipher kind key"
    by (rule traffic_cipher_aead [OF assms(5) x(2)])
  obtain t pre body where p: "p = zc_make t pre h body" "zc_prefix_ok t pre"
    using assms(6) by (rule zc_make_cases)
  have "\<exists>y. aead_seal C kind key (nonce_bytes ep (at2 d (send_seq s))) body = Some y"
    using assms(8) p by (simp add: seals_def)
  then have "\<exists>q. aead_encrypt_with_nonce C kind key rnd (Some (nonce_bytes ep (at2 d (send_seq s)))) p = Some (Inr q)"
    using aead_encrypt_on_packet [OF p(2) assms(7,1)] p(1) by auto
  then show thesis using that x(1) e by auto
qed

lemma transfer_step:
  assumes "aead_correct C" and "hmac_ok C" and "paired C bf d s r"
    and "peer_manager_header p = Some h" and "\<not> is_encrypted h"
    and "unat (send_epoch s) + 1 < 2 ^ 32" and "unat (at2 d (send_seq s)) + 1 < 2 ^ 64"
    and "encrypt_payload C bf rnd ts d p s = Some (Inr q, s')"
  shows "\<exists>r'. decrypt_payload C bf tr d q r = Some (Inr p, r') \<and> paired C bf d s' r' \<and>
    unat (send_epoch s') \<le> unat (send_epoch s) + 1 \<and> unat (at2 d (send_seq s')) = unat (at2 d (send_seq s)) + 1"
proof -
  have pr: "session_ok C bf s" "session_ok C bf r" "\<not> invalidated s" "\<not> invalidated r" "root_key r = root_key s"
    "recv_cipher_algorithm r = send_cipher_algorithm s" "aead_algorithm bf (send_cipher_algorithm s)"
    "sync_grace_expires_at_ms r = 0" "in_step (at2 d (rx_slots r)) (send_epoch s) (at2 d (send_seq s))"
    using assms(3) by (simp_all add: paired_def)
  obtain ep where g: "genuine C bf (send_cipher_algorithm s) (root_key s) d ep (at2 d (send_seq s)) p q"
    "ep = send_epoch s \<or> ep = send_epoch s + 1" "send_epoch s' = ep"
    "send_seq s' = set2 d (at2 d (send_seq s) + 1) (send_seq s)" "session_ok C bf s'"
    "root_key s' = root_key s" "send_cipher_algorithm s' = send_cipher_algorithm s" "invalidated s' = invalidated s"
    by (rule encrypt_payload_genuine [OF assms(2) pr(1) assms(4,5,8)])
  let ?seq = "at2 d (send_seq s)"
  note gr = g(1) [folded pr(5,6)]
  obtain h' where h': "peer_manager_header q = Some h'"
    using genuine_packet(2) [OF assms(1) pr(7) g(1)] by blast
  obtain z r' where dec: "decrypt_payload C bf tr d q r = Some (z, r')" "session_ok C bf r'"
    by (rule decrypt_payload_ok [OF assms(1,2) pr(2) h'])
  have alg: "aead_algorithm bf (recv_cipher_algorithm r)" using pr(6,7) by simp
  note rg = receive_genuine [OF assms(1,2) pr(2,4) alg gr dec(1)]
  have ep: "ep = send_epoch s \<or> ep = send_epoch s + 1 \<and> unat (send_epoch s) + 1 < 2 ^ 32"
    using g(2) assms(6) by auto
  let ?rx = "map_prod (evict_slot tr) (evict_slot tr) (at2 d (rx_slots r))"
  have prep: "prepare_rx tr r = (None, r\<lparr>rx_slots := evict_old_rx_slots tr (rx_slots r)\<rparr>)"
    by (rule prepare_rx_no_grace [OF pr(8)])
  have pre: "precheck_replay ep ?seq d tr r = Some (True, r\<lparr>rx_slots := evict_old_rx_slots tr (rx_slots r)\<rparr>)"
    using in_step_accepts(1) [OF in_step_evict [OF pr(9), of tr] ep assms(7)] prep
    by (simp add: precheck_replay_def)
  obtain a r2 kc where c: "r2 = r\<lparr>rx_slots := evict_old_rx_slots tr (rx_slots r), key_cache := kc,
        decrypt_fail_count := 0\<rparr>" "commit_replay ep ?seq d tr r2 = Some (a, r')"
      "z = (if a then Inr p else Inl ReplayRejected)"
    using rg(3) unfolding pre option.inject prod.inject by (elim exE conjE) (simp, blast)
  have step2: "in_step (map_prod (evict_slot tr) (evict_slot tr) (at2 d (rx_slots r2))) (send_epoch s) ?seq"
    using in_step_evict [OF in_step_evict [OF pr(9)]] c(1) by simp
  obtain rx' where rx': "commit_slots (send_epoch r2) ep ?seq tr
        (map_prod (evict_slot tr) (evict_slot tr) (at2 d (rx_slots r2))) = Some (True, rx')" "in_step rx' ep (?seq + 1)"
    using in_step_accepts(2) [OF step2 ep assms(7)] by blast
  have "prepare_rx tr r2 = (None, r2\<lparr>rx_slots := evict_old_rx_slots tr (rx_slots r2)\<rparr>)"
    using c(1) pr(8) by (intro prepare_rx_no_grace) simp
  then have a: "a" "at2 d (rx_slots r') = rx'"
    using c(2) rx'(1) by (auto simp: commit_replay_def commit_rx_def prune_key_cache_def Let_def)
  have frame: "send_frame r r'"
    by (rule decrypt_payload_send_frame [OF assms(1,2) pr(2) h' dec(1)])
  have "paired C bf d s' r'"
    using g(3-8) pr dec(2) rg(2) rx'(2) a(2) frame by (simp add: paired_def send_frame_def)
  moreover have "unat (?seq + 1) = unat ?seq + 1" using assms(7) by (simp add: unat_word_ariths)
  moreover have "unat ep \<le> unat (send_epoch s) + 1" using ep by (auto simp: unat_word_ariths)
  ultimately show ?thesis using dec(1) c(3) a(1) g(3,4) by simp
qed

lemma transfer_delivers:
  assumes "aead_correct C" and "hmac_ok C"
  shows "\<lbrakk>paired C bf d s r; list_all (\<lambda>(ts, rnd, p, tr). unmarked p \<and> seals C p) xs;
     unat (send_epoch s) + length xs < 2 ^ 32; unat (at2 d (send_seq s)) + length xs < 2 ^ 64\<rbrakk> \<Longrightarrow>
   \<exists>s' r'. transfer C bf d xs s r = Some (map (\<lambda>(ts, rnd, p, tr). Inr p) xs, s', r')"
proof (induction xs arbitrary: s r)
  case Nil
  then show ?case by simp
next
  case (Cons x xs)
  obtain ts rnd p tr where x: "x = (ts, rnd, p, tr)" by (cases x)
  obtain h where h: "peer_manager_header p = Some h" "\<not> is_encrypted h" "seals C p"
    using Cons.prems(2) x by (auto simp: unmarked_def split: option.splits)
  have pr: "session_ok C bf s" "\<not> invalidated s" "aead_algorithm bf (send_cipher_algorithm s)"
    using Cons.prems(1) by (simp_all add: paired_def)
  obtain q s1 where e: "encrypt_payload C bf rnd ts d p s = Some (Inr q, s1)"
    by (rule encrypt_seals [OF assms pr h])
  have bounds: "unat (send_epoch s) + 1 < 2 ^ 32" "unat (at2 d (send_seq s)) + 1 < 2 ^ 64"
    using Cons.prems(3,4) by simp_all
  obtain r1 where r1: "decrypt_payload C bf tr d q r = Some (Inr p, r1)" "paired C bf d s1 r1"
    "unat (send_epoch s1) \<le> unat (send_epoch s) + 1" "unat (at2 d (send_seq s1)) = unat (at2 d (send_seq s)) + 1"
    using transfer_step [OF assms Cons.prems(1) h(1,2) bounds e, of tr] by blast
  obtain s' r' where "transfer C bf d xs s1 r1 = Some (map (\<lambda>(ts, rnd, p, tr). Inr p) xs, s', r')"
    using Cons.IH [OF r1(2)] Cons.prems(2-4) r1(3,4) by auto
  then show ?case using x e r1(1) by simp
qed

lemma paired_new:
  assumes "aead_algorithm bf alg"
  shows "paired C bf d (session_new t key g ep alg ra) (session_new t' key g' ep' sa alg)"
proof -
  have "at2 d rx_slots_default = (epoch_rx_slot_default, epoch_rx_slot_default)"
    by (cases d) (simp_all add: rx_slots_default_def)
  then show ?thesis
    using assms session_new_ok
    by (simp add: paired_def) (simp add: session_new_def in_step_def epoch_rx_slot_default_def)
qed


section \<open>Concrete sessions for the witnesses\<close>

definition demo_features :: build_features where
  "demo_features = \<lparr>has_aes = True, has_chacha = True\<rparr>"

definition demo_session :: session where
  "demo_session = session_new 1000 (replicate 32 9) 1 7 ''aes-gcm'' ''aes-gcm''"

lemma demo_laws: "aead_correct demo_crypto" "hmac_ok demo_crypto" "aead_algorithm demo_features ''aes-gcm''"
proof -
  have "algorithm_from_str ''aes-gcm'' = Some AesGcm" by code_simp
  then show "aead_algorithm demo_features ''aes-gcm''"
    by (simp add: aead_algorithm_def demo_features_def)
  show "hmac_ok demo_crypto" by (simp add: hmac_ok_def demo_hmac_length)
qed (rule demo_crypto_correct)

lemma demo_unmarked: "unmarked demo_packet"
  by (rule demo_packet_header) (simp add: unmarked_def)

lemma demo_op_ok: "peer_manager_header demo_packet \<noteq> None"
  by (rule demo_packet_header) simp

lemma demo_seals: "seals demo_crypto p"
  by (simp add: seals_def demo_crypto_def)

lemma demo_session_ok: "session_ok demo_crypto demo_features demo_session"
  by (simp add: demo_session_def session_new_ok)

section \<open>The guarantees\<close>

text \<open>C11. Whatever happened to a session before, sending or receiving a packet with a readable header
  never panics, and the cipher used for an epoch, cached or not, is the one derived from the current
  root key.\<close>

theorem session_never_panics:
  assumes "aead_correct C" and "hmac_ok C" and "session_reach C bf s" and "peer_manager_header p = Some h"
  shows "encrypt_payload C bf rnd now d p s \<noteq> panic \<and> decrypt_payload C bf now d p s \<noteq> panic \<and>
    (\<exists>e s'. get_or_create_encryptor C bf epoch d gen is_send s = Some (e, s') \<and>
       traffic_cipher C bf (session_alg is_send s) (root_key s) epoch d = Some e)"
proof -
  have ok: "session_ok C bf s" by (rule session_reach_ok [OF assms(3,1,2)])
  obtain r s' where e: "encrypt_payload C bf rnd now d p s = Some (r, s')"
    by (rule encrypt_payload_ok [OF assms(1,2) ok assms(4)])
  obtain r' s'' where f: "decrypt_payload C bf now d p s = Some (r', s'')"
    by (rule decrypt_payload_ok [OF assms(1,2) ok assms(4)])
  obtain c kc where "get_or_create_encryptor C bf epoch d gen is_send s = Some (c, s\<lparr>key_cache := kc\<rparr>)"
      "traffic_cipher C bf (session_alg is_send s) (root_key s) epoch d = Some c"
    by (rule get_or_create_spec [OF assms(2) session_okD(1) [OF ok]])
  then show ?thesis using e f by auto
qed

theorem session_never_panics_witness:
  "encrypt_payload demo_crypto demo_features [] 2000 AToB demo_packet demo_session \<noteq> panic"
proof -
  obtain h where h: "peer_manager_header demo_packet = Some h" by (rule demo_packet_header)
  have "session_reach demo_crypto demo_features demo_session"
    unfolding demo_session_def by (rule reach_new)
  from session_never_panics [OF demo_laws(1,2) this h] show ?thesis by blast
qed

text \<open>C3. Between two resynchronisations a session never uses a nonce twice: the packets that it
  encrypts in one direction carry pairwise different (epoch, sequence number) pairs, whatever else
  happens in between, up to the wrap-around of the 64-bit sequence number.\<close>

theorem nonces_never_repeat:
  assumes "aead_correct C" and "hmac_ok C" and "session_reach C bf s"
    and "aead_algorithm bf (send_cipher_algorithm s)"
    and "list_all op_packet_ok ops" and "list_all (\<lambda>op. \<not> is_sync op) ops"
    and "unat (at2 d (send_seq s)) + length ops < 2 ^ 64"
    and "session_run C bf ops s = Some (rs, s')"
  shows "distinct (List.map_filter (sent_nonce d) (zip ops rs))"
  using sent_nonces_increase [OF assms(1,2) session_reach_ok [OF assms(3,1,2)] assms(5,6,4,7,8)] by blast

theorem nonces_never_repeat_witness:
  "\<exists>rs s'. session_run demo_crypto demo_features
       [Send 2000 AToB [] demo_packet, Send 2000 BToA [] demo_packet, Send 2001 AToB [] demo_packet] demo_session
       = Some (rs, s') \<and>
     distinct (List.map_filter (sent_nonce AToB)
       (zip [Send 2000 AToB [] demo_packet, Send 2000 BToA [] demo_packet, Send 2001 AToB [] demo_packet] rs))"
proof -
  let ?ops = "[Send 2000 AToB [] demo_packet, Send 2000 BToA [] demo_packet, Send 2001 AToB [] demo_packet]"
  have ok: "list_all op_packet_ok ?ops" using demo_op_ok by simp
  obtain rs s' where r: "session_run demo_crypto demo_features ?ops demo_session = Some (rs, s')"
    by (rule session_run_ok [OF demo_laws(1,2) demo_session_ok ok])
  have reach: "session_reach demo_crypto demo_features demo_session"
    unfolding demo_session_def by (rule reach_new)
  have "distinct (List.map_filter (sent_nonce AToB) (zip ?ops rs))"
    by (rule nonces_never_repeat [OF demo_laws(1,2) reach _ ok _ _ r])
      (simp_all add: demo_session_def session_new_def demo_laws(3))
  then show ?thesis using r by blast
qed

text \<open>C4. A session never accepts the same nonce twice in one direction: in any run without a
  resynchronisation whose receptions lie within the 30 seconds after which idle epochs are dropped,
  the accepted packets carry pairwise different nonces, whoever made the packets.\<close>

theorem nothing_accepted_twice:
  assumes "aead_correct C" and "hmac_ok C"
    and "list_all op_packet_ok ops" and "list_all (\<lambda>op. \<not> is_sync op) ops" and "list_all (op_in_time t0) ops"
    and "session_run C bf ops (session_new now key gen ep sa ra) = Some (rs, s')"
  shows "distinct (List.map_filter (received_nonce d) (zip ops rs))"
  using received_nonces_distinct [OF assms(1,2) session_new_ok assms(3-5) rx_log_new assms(6), of d] by blast

theorem nothing_accepted_twice_witness:
  "\<exists>rs s'. session_run demo_crypto demo_features
       [Receive 2000 AToB demo_packet, Receive 2500 AToB demo_packet] demo_session = Some (rs, s') \<and>
     distinct (List.map_filter (received_nonce AToB)
       (zip [Receive 2000 AToB demo_packet, Receive 2500 AToB demo_packet] rs))"
proof -
  let ?ops = "[Receive 2000 AToB demo_packet, Receive 2500 AToB demo_packet]"
  have ok: "list_all op_packet_ok ?ops" using demo_op_ok by simp
  obtain rs s' where r: "session_run demo_crypto demo_features ?ops demo_session = Some (rs, s')"
    by (rule session_run_ok [OF demo_laws(1,2) demo_session_ok ok])
  have "distinct (List.map_filter (received_nonce AToB) (zip ?ops rs))"
    by (rule nothing_accepted_twice [OF demo_laws(1,2) ok _ _ r [unfolded demo_session_def], of 2000])
      (simp_all add: within_idle_def)
  then show ?thesis using r by blast
qed


text \<open>C5. Traffic that arrives in order is never lost: a receiver that shares key and algorithm with the
  sender accepts every packet of any number of them and returns it unchanged, across epoch changes and
  however long the pauses in between are, up to the wrap-around of the 32-bit epoch.\<close>

theorem in_order_traffic_delivered:
  assumes "aead_correct C" and "hmac_ok C" and "aead_algorithm bf alg"
    and "list_all (\<lambda>(ts, rnd, p, tr). unmarked p \<and> seals C p) xs" and "unat ep + length xs < 2 ^ 32"
  shows "\<exists>s' r'. transfer C bf d xs (session_new t key g ep alg ra) (session_new t' key g' ep' sa alg) =
    Some (map (\<lambda>(ts, rnd, p, tr). Inr p) xs, s', r')"
proof (rule transfer_delivers [OF assms(1,2) paired_new [OF assms(3)] assms(4)])
  show "unat (send_epoch (session_new t key g ep alg ra)) + length xs < 2 ^ 32"
    using assms(5) by (simp add: session_new_def)
  show "unat (at2 d (send_seq (session_new t key g ep alg ra))) + length xs < 2 ^ 64"
    using assms(5) by (cases d) (simp_all add: session_new_def)
qed

theorem in_order_traffic_delivered_witness:
  "\<exists>s' r'. transfer demo_crypto demo_features BToA
       [(2000, [], demo_packet, 2001), (700000, [], demo_packet, 800000)] demo_session demo_session =
     Some ([Inr demo_packet, Inr demo_packet], s', r')"
  using in_order_traffic_delivered [OF demo_laws, of "[(2000, [], demo_packet, 2001), (700000, [], demo_packet, 800000)]"
      7 BToA 1000 "replicate 32 9" 1 "''aes-gcm''" 1000 1 7 "''aes-gcm''"]
  by (simp add: demo_unmarked demo_seals demo_session_def)

lemma distinct_map_filter_nth:
  "\<lbrakk>distinct (List.map_filter f xs); i < j; j < length xs; f (xs ! i) = Some y\<rbrakk> \<Longrightarrow> f (xs ! j) \<noteq> Some y"
proof (induction xs arbitrary: i j)
  case (Cons x xs)
  have tl: "distinct (List.map_filter f xs)"
    using Cons.prems(1) by (cases "f x") (simp_all add: map_filter_simps)
  have mem: "f z = Some w \<Longrightarrow> z \<in> set xs \<Longrightarrow> w \<in> set (List.map_filter f xs)" for z w
    by (force simp: map_filter_def)
  show ?case
  proof (cases i)
    case 0
    then have "y \<notin> set (List.map_filter f xs)"
      using Cons.prems(1,4) by (simp add: map_filter_simps)
    then show ?thesis
      using 0 Cons.prems(2,3) mem [of "(x # xs) ! j" y] by (cases j) auto
  next
    case (Suc i')
    then show ?thesis
      using Cons.IH [OF tl, of i' "j - 1"] Cons.prems(2-4) by (cases j) auto
  qed
qed simp

lemma session_run_nth:
  "session_run C bf ops s = Some (rs, s') \<Longrightarrow> i < length ops \<Longrightarrow>
   \<exists>si rsi s1. session_run C bf (take i ops) s = Some (rsi, si) \<and> session_exec C bf (ops ! i) si = Some (rs ! i, s1)"
proof (induction ops arbitrary: s rs i)
  case (Cons op ops)
  obtain r s1 rs' where r: "session_exec C bf op s = Some (r, s1)" "session_run C bf ops s1 = Some (rs', s')"
      "rs = r # rs'"
    using Cons.prems(1) by (auto simp: bind_eq_Some_conv)
  show ?case
  proof (cases i)
    case 0
    then show ?thesis using r by auto
  next
    case (Suc j)
    then show ?thesis using Cons.IH [OF r(2), of j] Cons.prems(2) r by auto
  qed
qed simp

lemma session_run_length: "session_run C bf ops s = Some (rs, s') \<Longrightarrow> length rs = length ops"
  by (induction ops arbitrary: s rs) (auto simp: bind_eq_Some_conv)

text \<open>A session that only receives genuine packets stays valid and keeps its key.\<close>

lemma receive_run_valid:
  assumes "aead_correct C" and "hmac_ok C" and "aead_algorithm bf alg"
  shows "\<lbrakk>session_ok C bf s; \<not> invalidated s; recv_cipher_algorithm s = alg; root_key s = key;
     \<forall>x\<in>set xs. \<exists>ep seq p. genuine C bf alg key d ep seq p (snd x);
     session_run C bf (map (\<lambda>(now, q). Receive now d q) xs) s = Some (rs, s')\<rbrakk> \<Longrightarrow>
   session_ok C bf s' \<and> \<not> invalidated s' \<and> recv_cipher_algorithm s' = alg \<and> root_key s' = key"
proof (induction xs arbitrary: s rs)
  case (Cons x xs)
  obtain now q where x: "x = (now, q)" by (cases x)
  obtain ep seq p where g: "genuine C bf alg key d ep seq p q" using Cons.prems(5) x by auto
  obtain h where h: "peer_manager_header q = Some h" using genuine_packet(2) [OF assms(1,3) g] by blast
  obtain r s1 rs' where r: "decrypt_payload C bf now d q s = Some (r, s1)"
      "session_run C bf (map (\<lambda>(now, q). Receive now d q) xs) s1 = Some (rs', s')"
    using Cons.prems(6) x by (auto simp: bind_eq_Some_conv)
  have ok1: "session_ok C bf s1"
    using decrypt_payload_ok [OF assms(1,2) Cons.prems(1) h] r(1) by (metis option.inject prod.inject)
  have "\<not> invalidated s1"
    using receive_genuine(2) [OF assms(1,2) Cons.prems(1,2) _ _ r(1)] assms(3) g Cons.prems(3,4) by auto
  moreover have "send_frame s s1"
    by (rule decrypt_payload_send_frame [OF assms(1,2) Cons.prems(1) h r(1)])
  ultimately show ?case
    using Cons.IH [OF ok1 _ _ _ _ r(2)] Cons.prems(3-5) by (simp add: send_frame_def)
qed simp

definition sent_packet :: "op_result list \<Rightarrow> nat \<Rightarrow> zcpacket" where
  "sent_packet rs i = (case rs ! i of Some (Inr q) \<Rightarrow> q | _ \<Rightarrow> new_nic_packet)"




text \<open>The receiving half of the state is settled by one look at the clock.\<close>

lemma evict_slot_idem [simp]: "evict_slot now (evict_slot now slot) = evict_slot now slot"
  by (simp add: evict_slot_def rx_slot_clear_def)

lemma evict_idem [simp]: "evict_old_rx_slots now (evict_old_rx_slots now rx) = evict_old_rx_slots now rx"
  by (cases rx) (simp add: evict_old_rx_slots_def map_prod_def split: prod.splits)

lemma grace_not_expired:
  "grace_valid (grace_maybe_expire now g) \<Longrightarrow>
   grace_maybe_expire now g = g \<and> grace_maybe_expire now (g\<lparr>grace_slots := x\<rparr>) = g\<lparr>grace_slots := x\<rparr>"
  by (auto simp: grace_maybe_expire_def grace_clear_def split: if_splits)

definition rx_view :: "session \<Rightarrow> epoch_rx_slot arr2 arr2 \<times> sync_rx_grace \<times> u64 \<times> u32" where
  "rx_view s = (rx_slots s, sync_grace s, sync_grace_expires_at_ms s, send_epoch s)"

lemma prepare_rx_view:
  assumes "rx_view s' = rx_view s"
  shows "fst (prepare_rx now s') = fst (prepare_rx now s)"
    and "rx_view (snd (prepare_rx now s')) = rx_view (snd (prepare_rx now s))"
  using assms by (simp_all add: rx_view_def prepare_rx_def sync_rx_grace_active_def Let_def)

lemma prepare_rx_settled:
  "fst (prepare_rx now (snd (prepare_rx now s))) = fst (prepare_rx now s)"
  "rx_view (snd (prepare_rx now (snd (prepare_rx now s)))) = rx_view (snd (prepare_rx now s))"
  using grace_not_expired [of now "sync_grace s" "evict_old_rx_slots now (grace_slots (sync_grace s))"]
  by (auto simp: rx_view_def prepare_rx_def sync_rx_grace_active_def Let_def)

lemma precheck_replay_view:
  assumes "rx_view (snd (prepare_rx now s')) = rx_view (snd (prepare_rx now s))"
    and "fst (prepare_rx now s') = fst (prepare_rx now s)"
  shows "map_option fst (precheck_replay ep q d now s') = map_option fst (precheck_replay ep q d now s)"
  using assms by (cases "prepare_rx now s'"; cases "prepare_rx now s")
    (auto simp: precheck_replay_def rx_view_def Let_def map_option_bind comp_def split: option.splits)



text \<open>A packet with the encrypted flag set, an empty ciphertext and an all-zero tail.\<close>

definition forged_packet :: zcpacket where
  "forged_packet = \<lparr>inner = replicate 29 0 @ [1] @ replicate 34 0, zc_type = NIC\<rparr>"

lemma forged_packet_refused:
  "\<exists>s'. decrypt_payload demo_crypto demo_features 2000 AToB forged_packet demo_session =
     Some (Inl (CipherError DecryptionFailed), s')"
proof -
  have "map_option fst (decrypt_payload demo_crypto demo_features 2000 AToB forged_packet demo_session) =
      Some (Inl (CipherError DecryptionFailed))"
    by code_simp
  then show ?thesis by auto
qed


lemma forged_packet_header: obtains h where "peer_manager_header forged_packet = Some h"
proof -
  have "peer_manager_header forged_packet \<noteq> None" by code_simp
  then show thesis using that by auto
qed


lemma failure_counts:
  assumes "aead_correct C" and "hmac_ok C" and "session_ok C bf s" and "peer_manager_header p = Some h"
    and "decrypt_payload C bf now d p s = Some (Inl (CipherError err), s')"
  shows "\<not> invalidated s" and "unat (decrypt_fail_count s) < 10"
    and "unat (decrypt_fail_count s') = unat (decrypt_fail_count s) + 1"
    and "invalidated s' \<longleftrightarrow> unat (decrypt_fail_count s') = 10"
proof -
  obtain pl where pl: "payload p = Some pl" using assms(4) header_iff_payload [of p] by auto
  obtain nonce where v: "session_is_valid s" "parse_tail pl = Some nonce"
    using assms(5) pl by (auto simp: decrypt_payload_def split: if_splits option.splits)
  obtain b e s2 kc where x: "s2 = (snd (prepare_rx now s))\<lparr>key_cache := kc\<rparr>"
      "decrypt_payload C bf now d p s =
      (if \<not> b then Some (Inl ReplayRejected, snd (prepare_rx now s))
       else do {
         r \<leftarrow> encryptor_decrypt C e p;
         case r of
           Inl err \<Rightarrow> Some (Inl (CipherError err), count_failure s2)
         | Inr p' \<Rightarrow> do {
             (a, s4) \<leftarrow> commit_replay (u32_of_be (take 4 nonce)) (u64_of_be (drop 4 nonce)) d now
               (s2\<lparr>decrypt_fail_count := 0\<rparr>);
             Some (if a then Inr p' else Inl ReplayRejected, s4)
           }
       })"
    by (rule decrypt_payload_spec [OF assms(2,3) v(1) pl v(2) refl refl])
  obtain y where y: "encryptor_decrypt C e p = Some y"
    using encryptor_decrypt_no_panic [OF assms(1,4)] by (meson not_None_eq)
  have s': "s' = count_failure s2"
    using assms(5) x(2) y by (cases b; cases y) (auto simp: bind_eq_Some_conv split: if_splits)
  show inv: "\<not> invalidated s" using v(1) by (simp add: session_is_valid_def)
  then show lt: "unat (decrypt_fail_count s) < 10"
    using session_okD(5) [OF assms(3)] by (simp add: DECRYPT_FAIL_THRESHOLD_def word_less_nat_alt)
  have plus: "unat (decrypt_fail_count s + 1) = unat (decrypt_fail_count s) + 1"
    using lt by (simp add: unat_word_ariths)
  show "unat (decrypt_fail_count s') = unat (decrypt_fail_count s) + 1"
    using plus by (simp add: s' x(1) count_failure_def invalidate_def Let_def)
  show "invalidated s' \<longleftrightarrow> unat (decrypt_fail_count s') = 10"
    using plus inv lt
    by (auto simp: s' x(1) count_failure_def invalidate_def Let_def DECRYPT_FAIL_THRESHOLD_def word_le_nat_alt)
qed

lemma failures_count:
  assumes "aead_correct C" and "hmac_ok C"
  shows "\<lbrakk>session_ok C bf s; invalidated s \<longleftrightarrow> unat (decrypt_fail_count s) = 10; unat (decrypt_fail_count s) \<le> 10;
     list_all (\<lambda>(now, d, p). peer_manager_header p \<noteq> None) xs;
     session_run C bf (map (\<lambda>(now, d, p). Receive now d p) xs) s = Some (rs, s');
     \<forall>r\<in>set rs. \<exists>err. r = Some (Inl (CipherError err))\<rbrakk> \<Longrightarrow>
   unat (decrypt_fail_count s') = unat (decrypt_fail_count s) + length xs \<and> unat (decrypt_fail_count s') \<le> 10 \<and>
   (invalidated s' \<longleftrightarrow> unat (decrypt_fail_count s') = 10)"
proof (induction xs arbitrary: s rs)
  case (Cons x xs)
  obtain now d p where x: "x = (now, d, p)" by (cases x)
  obtain h where h: "peer_manager_header p = Some h" using Cons.prems(4) x by auto
  obtain r s1 rs' where r: "decrypt_payload C bf now d p s = Some (r, s1)" "rs = Some r # rs'"
      "session_run C bf (map (\<lambda>(now, d, p). Receive now d p) xs) s1 = Some (rs', s')"
    using Cons.prems(5) x by (auto simp: bind_eq_Some_conv)
  obtain err where err: "r = Inl (CipherError err)" using Cons.prems(6) r(2) by auto
  note f = failure_counts [OF assms Cons.prems(1) h r(1) [unfolded err]]
  have ok1: "session_ok C bf s1"
    using decrypt_payload_ok [OF assms Cons.prems(1) h] r(1) by (metis option.inject prod.inject)
  show ?case
    using Cons.IH [OF ok1 f(4) _ _ r(3)] f(2,3) Cons.prems(4,6) r(2) by simp
qed simp




text \<open>A resynchronisation that keeps the root key copies the receive slots into the grace slots.\<close>

lemma sync_preserving_prepare:
  assumes "unat t2 + 5000 < 2 ^ 64" and "unat now < unat t2 + 5000"
  obtains g s1 where "prepare_rx now (sync_root_key t1 t2 (root_key s) gen ep True s) = (Some g, s1)"
    and "grace_slots g = evict_old_rx_slots now (rx_slots s)"
proof -
  have x: "unat (u64_saturating_add t2 SYNC_RX_GRACE_AFTER_MS) = unat t2 + 5000"
    using assms(1) by (simp add: unat_u64_saturating_add SYNC_RX_GRACE_AFTER_MS_def)
  then have "u64_saturating_add t2 SYNC_RX_GRACE_AFTER_MS \<noteq> 0" "now < u64_saturating_add t2 SYNC_RX_GRACE_AFTER_MS"
      "\<not> u64_saturating_add t2 SYNC_RX_GRACE_AFTER_MS \<le> now"
    using assms(2) by (auto simp: word_less_nat_alt word_le_nat_alt)
  then show thesis
    using that by (simp add: prepare_rx_def sync_rx_grace_active_def sync_root_key_def grace_refresh_def
        grace_maybe_expire_def Let_def)
qed


text \<open>After the first packet below, epoch 7 is tracked and its number 0 is spent.\<close>

definition demo_synced :: session where
  "demo_synced = demo_session\<lparr>rx_slots := set2 AToB
     ((fresh_rx_slot 7 2000)\<lparr>window := \<lparr>max_seq = 0, bitmap = 1 # replicate 31 0, rw_valid = True\<rparr>\<rparr>,
      epoch_rx_slot_default) rx_slots_default\<rparr>"


text \<open>C16. Once the grace period is over, a session that has been resynchronised under the same root key
  and has received nothing since accepts every number of every epoch again, the spent ones included.\<close>

theorem replay_window_lost_after_grace:
  assumes "unat t2 + 5000 < 2 ^ 64" and "unat t2 + 5000 \<le> unat now"
  shows "map_option fst (precheck_replay e q d now (sync_root_key t1 t2 (root_key s) gen ep True s)) = Some True"
proof -
  have "\<not> now < u64_saturating_add t2 SYNC_RX_GRACE_AFTER_MS"
    using assms by (simp add: unat_u64_saturating_add SYNC_RX_GRACE_AFTER_MS_def word_less_nat_alt)
  then show ?thesis
    by (auto simp: precheck_replay_def prepare_rx_def sync_rx_grace_active_def sync_root_key_def Let_def
        precheck_slots_def evict_slot_def rx_slot_clear_def)
qed

theorem replay_window_lost_after_grace_witness:
  "map_option fst (precheck_replay 7 0 AToB 2500 demo_synced) = Some False \<and>
   map_option fst (precheck_replay 7 0 AToB 8000
     (sync_root_key 3000 3000 (root_key demo_synced) 2 8 True demo_synced)) = Some True"
proof
  show "map_option fst (precheck_replay 7 0 AToB 2500 demo_synced) = Some False" by code_simp
  show "map_option fst (precheck_replay 7 0 AToB 8000
     (sync_root_key 3000 3000 (root_key demo_synced) 2 8 True demo_synced)) = Some True"
    by (rule replay_window_lost_after_grace) simp_all
qed

lemma encryptor_passes_unmarked:
  assumes "traffic_cipher C bf alg root ep d = Some e" and "validate_algorithm bf alg = Inr ()"
    and "peer_manager_header p = Some h" and "\<not> is_encrypted h"
  shows "encryptor_decrypt C e p = Some (Inr p)"
proof -
  obtain a where "algorithm_from_str alg = Some a" "algorithm_is_available bf a"
    using assms(2) by (auto simp: validate_algorithm_def split: option.splits if_splits)
  then have "(\<exists>key. e = XorCipher key) \<or> (\<exists>kind key. e = AeadCipher kind key)"
    using assms(1) by (cases a) (auto simp: traffic_cipher_def create_encryptor_def create_cipher_defs xor_new_def Let_def split: if_splits)
  then show ?thesis
    using xor_cipher.dec_plain [OF assms(3,4)] aead_cipher.dec_plain [OF assms(3,4)] by auto
qed


definition plain_packet :: zcpacket where
  "plain_packet = \<lparr>inner = replicate 64 0, zc_type = NIC\<rparr>"


text \<open>C18. The XOR cipher cannot carry a session although the configuration check accepts it: it adds no
  tail, so a packet of fewer than 28 bytes that a session encrypts is refused by every peer.\<close>

theorem xor_session_drops_short_packets:
  assumes "hmac_ok C" and "session_reach C bf s" and "aead_correct C"
    and "algorithm_from_str (send_cipher_algorithm s) = Some Xor"
    and "peer_manager_header p = Some h" and "\<not> is_encrypted h"
    and "payload p = Some pl" and "length pl < AEAD_TAIL_SIZE"
    and "encrypt_payload C bf rnd now d p s = Some (Inr q, s')" and "\<not> invalidated r"
  shows "decrypt_payload C bf now' d q r = Some (Inl NoTail, r)"
proof -
  have ok: "session_ok C bf s" by (rule session_reach_ok [OF assms(2,3,1)])
  obtain ep where "genuine C bf (send_cipher_algorithm s) (root_key s) d ep (at2 d (send_seq s)) p q"
    by (rule encrypt_payload_genuine [OF assms(1) ok assms(5,6,9)])
  then obtain e rnd' where g: "traffic_cipher C bf (send_cipher_algorithm s) (root_key s) ep d = Some e"
      "encryptor_encrypt_with_nonce C rnd' e (Some (nonce_bytes ep (at2 d (send_seq s)))) p = Some (Inr q)"
    by (auto simp: genuine_def)
  then obtain key where key: "xor_encrypt key p = Some (Inr q)"
    using assms(4) by (auto simp: traffic_cipher_def create_encryptor_def create_cipher_defs xor_new_def Let_def split: if_splits)
  obtain t pre body where p: "p = zc_make t pre h body" "zc_prefix_ok t pre"
    using assms(5) by (rule zc_make_cases)
  have "payload q = Some (xor_data key body)" "length (xor_data key body) < AEAD_TAIL_SIZE"
    using key xor_cipher_on_packet(1) [OF p(2), of key h body] p assms(6-8) by auto
  then show ?thesis
    using assms(10) by (simp add: decrypt_payload_def session_is_valid_def parse_tail_def ref_from_suffix_def)
qed

theorem xor_session_drops_short_packets_witness:
  "\<exists>q s'. validate_algorithm demo_features ''xor'' = Inr () \<and>
     encrypt_payload demo_crypto demo_features [] 2000 AToB demo_packet
       (session_new 1000 (replicate 32 9) 1 7 ''xor'' ''xor'') = Some (Inr q, s') \<and>
     decrypt_payload demo_crypto demo_features 2001 AToB q (session_new 1000 (replicate 32 9) 1 7 ''xor'' ''xor'') =
       Some (Inl NoTail, session_new 1000 (replicate 32 9) 1 7 ''xor'' ''xor'')"
proof -
  let ?s = "session_new 1000 (replicate 32 9) 1 7 ''xor'' ''xor''"
  obtain h where h: "peer_manager_header demo_packet = Some h" "\<not> is_encrypted h" by (rule demo_packet_header)
  have "map_option (isl \<circ> fst) (encrypt_payload demo_crypto demo_features [] 2000 AToB demo_packet ?s) = Some False"
    by code_simp
  then obtain q s' where q: "encrypt_payload demo_crypto demo_features [] 2000 AToB demo_packet ?s = Some (Inr q, s')"
    by (auto simp: isl_def) (metis Inr_Inl_False obj_sumE)
  have pl: "payload demo_packet = Some [1, 2, 3]" by code_simp
  have x: "algorithm_from_str (send_cipher_algorithm ?s) = Some Xor" by code_simp
  have v: "validate_algorithm demo_features ''xor'' = Inr ()" by code_simp
  have "decrypt_payload demo_crypto demo_features 2001 AToB q ?s = Some (Inl NoTail, ?s)"
    by (rule xor_session_drops_short_packets [OF demo_laws(2) reach_new demo_laws(1) x h pl _ q])
      (simp_all add: session_new_def AEAD_TAIL_SIZE_def TAG_SIZE_def NONCE_SIZE_def)
  then show ?thesis using q v by blast
qed

end
