(* ===== verification/Token_Bucket.thy ===== *)
theory Token_Bucket
  imports Prelude
begin

text \<open>
  The byte limiter of \<open>easytier-core/src/foundation/token_bucket.rs\<close>: a token bucket that is refilled
  on demand from the elapsed nanoseconds, the unlimited limiter \<open>()\<close>, and the manager that shares
  buckets by name.

  \<open>u64\<close> and \<open>u128\<close> quantities are naturals with the saturation of the source written out; a
  subtraction below zero and an addition above the type's range are panics. The clock is an argument.
  \<open>consume\<close> sleeps in a loop; the model is \<open>partial_function (option)\<close> over a clock that advances by
  the time slept, so that returning is a theorem. The locale \<open>byte_limiter\<close> is the contract of the
  trait \<open>ByteLimiter\<close>, interpreted for the bucket and for \<open>()\<close>.
\<close>

section \<open>The bucket\<close>

definition U64_MAX :: nat where "U64_MAX = 2 ^ 64 - 1"
definition U128_MAX :: nat where "U128_MAX = 2 ^ 128 - 1"
definition MIN_FILL_RATE :: nat where "MIN_FILL_RATE = 8196"
definition NANOS_PER_SECOND :: nat where "NANOS_PER_SECOND = 1000000000"

definition u128_saturating_mul :: "nat \<Rightarrow> nat \<Rightarrow> nat" where
  "u128_saturating_mul a b = min (a * b) U128_MAX"

definition u128_saturating_add :: "nat \<Rightarrow> nat \<Rightarrow> nat" where
  "u128_saturating_add a b = min (a + b) U128_MAX"

definition div_ceil :: "nat \<Rightarrow> nat \<Rightarrow> nat" where
  "div_ceil a b = (if a mod b = 0 then a div b else a div b + 1)"

record bucket_state =
  available_tokens :: nat
  last_refill :: nat
  refill_remainder :: nat

record bucket_config =
  capacity :: nat
  fill_rate :: nat

record token_bucket =
  tb_state :: bucket_state
  tb_config :: bucket_config
  tb_stopped :: bool

definition bucket_config_new :: "nat \<Rightarrow> nat \<Rightarrow> bucket_config" where
  "bucket_config_new cap rate = \<lparr>capacity = cap, fill_rate = rate\<rparr>"

definition with_default_capacity :: "nat \<Rightarrow> bucket_config" where
  "with_default_capacity rate = (let r = max rate MIN_FILL_RATE in bucket_config_new r r)"

definition new_from_cfg :: "nat \<Rightarrow> bucket_config \<Rightarrow> token_bucket" where
  "new_from_cfg now cfg =
     (let cfg' = cfg\<lparr>capacity := max (capacity cfg) 1, fill_rate := max (fill_rate cfg) 1\<rparr>
      in \<lparr>tb_state = \<lparr>available_tokens = capacity cfg', last_refill = now, refill_remainder = 0\<rparr>,
          tb_config = cfg', tb_stopped = False\<rparr>)"

definition refill :: "bucket_config \<Rightarrow> nat \<Rightarrow> bucket_state \<Rightarrow> bucket_state may_panic" where
  "refill cfg now st =
     (let elapsed_nanos = now - last_refill st
      in if elapsed_nanos = 0 then Some st
         else
           let st1 = st\<lparr>last_refill := now\<rparr>
           in if available_tokens st1 = capacity cfg then Some (st1\<lparr>refill_remainder := 0\<rparr>)
              else
                let generated = u128_saturating_add (u128_saturating_mul (fill_rate cfg) elapsed_nanos)
                                  (refill_remainder st1);
                    tokens_to_add = generated div NANOS_PER_SECOND;
                    remainder = generated mod NANOS_PER_SECOND
                in if capacity cfg < available_tokens st1 then panic
                   else if capacity cfg - available_tokens st1 \<le> tokens_to_add
                   then Some (st1\<lparr>available_tokens := capacity cfg, refill_remainder := 0\<rparr>)
                   else if U64_MAX < available_tokens st1 + tokens_to_add then panic
                   else Some (st1\<lparr>available_tokens := available_tokens st1 + tokens_to_add,
                                  refill_remainder := remainder\<rparr>))"

definition try_consume :: "nat \<Rightarrow> nat \<Rightarrow> token_bucket \<Rightarrow> (bool \<times> token_bucket) may_panic" where
  "try_consume now tokens tb =
     (if tb_stopped tb then Some (True, tb)
      else if capacity (tb_config tb) < tokens then Some (False, tb)
      else do {
        st \<leftarrow> refill (tb_config tb) now (tb_state tb);
        if available_tokens st < tokens then Some (False, tb\<lparr>tb_state := st\<rparr>)
        else Some (True, tb\<lparr>tb_state := st\<lparr>available_tokens := available_tokens st - tokens\<rparr>\<rparr>)
      })"

text \<open>One turn of the loop of \<open>consume_chunk\<close>: the chunk is granted or the caller sleeps.\<close>

datatype chunk_outcome = ChunkDone | ChunkSleep nat

definition consume_chunk_turn :: "nat \<Rightarrow> nat \<Rightarrow> token_bucket \<Rightarrow> (chunk_outcome \<times> token_bucket) may_panic" where
  "consume_chunk_turn now tokens tb =
     (if tb_stopped tb then Some (ChunkDone, tb)
      else do {
        st \<leftarrow> refill (tb_config tb) now (tb_state tb);
        if tokens \<le> available_tokens st
        then Some (ChunkDone, tb\<lparr>tb_state := st\<lparr>available_tokens := available_tokens st - tokens\<rparr>\<rparr>)
        else
          let deficit = tokens - available_tokens st;
              required = deficit * NANOS_PER_SECOND
          in if required < refill_remainder st then panic
             else
               let remaining = required - refill_remainder st;
                   sleep_nanos = min (div_ceil remaining (fill_rate (tb_config tb))) U64_MAX
               in Some (ChunkSleep (max sleep_nanos 1000000), tb\<lparr>tb_state := st\<rparr>)
      })"

partial_function (option) consume_chunk :: "nat \<Rightarrow> nat \<Rightarrow> token_bucket \<Rightarrow> (nat \<times> token_bucket) option" where
  "consume_chunk now tokens tb = do {
     (outcome, tb') \<leftarrow> consume_chunk_turn now tokens tb;
     case outcome of
       ChunkDone \<Rightarrow> Some (now, tb')
     | ChunkSleep d \<Rightarrow> consume_chunk (now + d) tokens tb'
   }"

partial_function (option) consume :: "nat \<Rightarrow> nat \<Rightarrow> token_bucket \<Rightarrow> (nat \<times> token_bucket) option" where
  "consume now remaining tb =
     (if remaining = 0 then Some (now, tb)
      else if tb_stopped tb then Some (now, tb)
      else
        let chunk = min remaining (capacity (tb_config tb))
        in do {
          (now', tb') \<leftarrow> consume_chunk now chunk tb;
          consume now' (remaining - chunk) tb'
        })"

definition bucket_stop :: "token_bucket \<Rightarrow> token_bucket" where
  "bucket_stop tb = tb\<lparr>tb_stopped := True\<rparr>"

section \<open>The manager\<close>

text \<open>Buckets live in an arena and are shared by reference; \<open>strong\<close> counts the references to each.\<close>

record bucket_manager =
  buckets :: "(string \<times> nat) list"
  arena :: "nat \<Rightarrow> token_bucket option"
  strong :: "nat \<Rightarrow> nat"
  next_id :: nat

definition manager_new :: bucket_manager where
  "manager_new = \<lparr>buckets = [], arena = (\<lambda>_. None), strong = (\<lambda>_. 0), next_id = 0\<rparr>"

definition retain_used :: "bucket_manager \<Rightarrow> bucket_manager" where
  "retain_used m =
     (let gone = map snd (filter (\<lambda>(k, i). strong m i \<le> 1) (buckets m))
      in m\<lparr>buckets := filter (\<lambda>(k, i). 1 < strong m i) (buckets m),
           strong := (\<lambda>i. if i \<in> set gone then strong m i - 1 else strong m i)\<rparr>)"

definition get_or_create :: "nat \<Rightarrow> string \<Rightarrow> bucket_config \<Rightarrow> bucket_manager \<Rightarrow> nat \<times> bucket_manager" where
  "get_or_create now key cfg m =
     (case map_of (buckets m) key of
        Some i \<Rightarrow> (i, m\<lparr>strong := (strong m)(i := strong m i + 1)\<rparr>)
      | None \<Rightarrow>
          let i = next_id m
          in (i, m\<lparr>buckets := (key, i) # buckets m, arena := (arena m)(i := Some (new_from_cfg now cfg)),
                   strong := (strong m)(i := 2), next_id := i + 1\<rparr>))"

definition manager_stop :: "bucket_manager \<Rightarrow> bucket_manager" where
  "manager_stop m =
     (let ids = map snd (buckets m)
      in m\<lparr>arena := (\<lambda>i. if i \<in> set ids then map_option bucket_stop (arena m i) else arena m i),
           buckets := [],
           strong := (\<lambda>i. if i \<in> set ids then strong m i - 1 else strong m i)\<rparr>)"

section \<open>The invariant and the budget\<close>

definition bucket_ok :: "token_bucket \<Rightarrow> bool" where
  "bucket_ok tb \<longleftrightarrow> 1 \<le> capacity (tb_config tb) \<and> capacity (tb_config tb) \<le> U64_MAX \<and>
     1 \<le> fill_rate (tb_config tb) \<and> available_tokens (tb_state tb) \<le> capacity (tb_config tb) \<and>
     refill_remainder (tb_state tb) < NANOS_PER_SECOND"

text \<open>The budget in nano-tokens.\<close>

definition budget :: "bucket_state \<Rightarrow> nat" where
  "budget st = available_tokens st * NANOS_PER_SECOND + refill_remainder st"

lemma refill_spec:
  assumes "bucket_ok tb"
  obtains st where "refill (tb_config tb) now (tb_state tb) = Some st"
    and "bucket_ok (tb\<lparr>tb_state := st\<rparr>)"
    and "last_refill st = max now (last_refill (tb_state tb))"
    and "budget st \<le> budget (tb_state tb) + fill_rate (tb_config tb) * (now - last_refill (tb_state tb))"
    and "available_tokens st = capacity (tb_config tb) \<or>
         budget st = budget (tb_state tb) + fill_rate (tb_config tb) * (now - last_refill (tb_state tb))"
proof -
  let ?cfg = "tb_config tb" and ?st = "tb_state tb"
  let ?el = "now - last_refill ?st"
  have ok: "capacity ?cfg \<le> U64_MAX" "available_tokens ?st \<le> capacity ?cfg" "refill_remainder ?st < NANOS_PER_SECOND"
    "0 < NANOS_PER_SECOND" using assms by (simp_all add: bucket_ok_def NANOS_PER_SECOND_def)
  consider "?el = 0" | "?el \<noteq> 0" "available_tokens ?st = capacity ?cfg" | "?el \<noteq> 0" "available_tokens ?st < capacity ?cfg"
    using ok(2) by linarith
  then show thesis
  proof cases
    case 1
    then show thesis using that [of ?st] assms by (simp add: refill_def)
  next
    case 2
    let ?s = "?st\<lparr>last_refill := now, refill_remainder := 0\<rparr>"
    have "refill ?cfg now ?st = Some ?s" using 2 by (simp add: refill_def Let_def)
    then show thesis
      using that [of ?s] 2 assms ok by (simp add: bucket_ok_def budget_def)
  next
    case 3
    define raw where "raw = fill_rate ?cfg * ?el + refill_remainder ?st"
    define gen where "gen = u128_saturating_add (u128_saturating_mul (fill_rate ?cfg) ?el) (refill_remainder ?st)"
    have le: "gen \<le> raw" by (simp add: gen_def raw_def u128_saturating_add_def u128_saturating_mul_def)
    have exact: "gen = raw \<or> gen = U128_MAX"
      by (auto simp: gen_def raw_def u128_saturating_add_def u128_saturating_mul_def min_def)
    show thesis
    proof (cases "capacity ?cfg - available_tokens ?st \<le> gen div NANOS_PER_SECOND")
      case True
      let ?s = "?st\<lparr>last_refill := now, available_tokens := capacity ?cfg, refill_remainder := 0\<rparr>"
      have r: "refill ?cfg now ?st = Some ?s"
        using 3 True ok by (simp add: refill_def Let_def flip: gen_def)
      have "(capacity ?cfg - available_tokens ?st) * NANOS_PER_SECOND \<le> gen"
        using True ok(4) by (meson le_trans mult_le_mono1 div_times_less_eq_dividend)
      then have "budget ?s \<le> budget ?st + fill_rate ?cfg * ?el"
        using le ok(2) by (simp add: budget_def raw_def diff_mult_distrib)
      then show thesis using that [OF r] 3 assms ok by (simp add: bucket_ok_def)
    next
      case False
      let ?s = "?st\<lparr>last_refill := now, available_tokens := available_tokens ?st + gen div NANOS_PER_SECOND,
          refill_remainder := gen mod NANOS_PER_SECOND\<rparr>"
      have lt: "available_tokens ?st + gen div NANOS_PER_SECOND < capacity ?cfg" using False by simp
      have r: "refill ?cfg now ?st = Some ?s"
        using 3 False lt ok by (simp add: refill_def Let_def flip: gen_def)
      have "gen \<noteq> U128_MAX"
      proof
        assume "gen = U128_MAX"
        then have "U64_MAX < gen div NANOS_PER_SECOND"
          by (simp add: U128_MAX_def U64_MAX_def NANOS_PER_SECOND_def)
        then show False using lt ok(1) by simp
      qed
      then have "gen = raw" using exact by simp
      then have "budget ?s = budget ?st + fill_rate ?cfg * ?el"
        by (simp add: budget_def raw_def add_mult_distrib)
      then show thesis using that [OF r] 3 lt assms ok by (simp add: bucket_ok_def)
    qed
  qed
qed


lemma new_from_cfg_ok: "capacity cfg \<le> U64_MAX \<Longrightarrow> bucket_ok (new_from_cfg now cfg)"
  by (simp add: new_from_cfg_def bucket_ok_def Let_def NANOS_PER_SECOND_def U64_MAX_def)

lemma try_consume_spec:
  assumes "bucket_ok tb"
  obtains b tb' where "try_consume now tokens tb = Some (b, tb')" and "bucket_ok tb'"
    and "tb_config tb' = tb_config tb" and "tb_stopped tb' = tb_stopped tb"
    and "last_refill (tb_state tb) \<le> last_refill (tb_state tb')"
    and "last_refill (tb_state tb') \<le> max now (last_refill (tb_state tb))"
    and "tb_stopped tb \<or> budget (tb_state tb') + (if b then tokens * NANOS_PER_SECOND else 0) \<le>
      budget (tb_state tb) + fill_rate (tb_config tb) * (last_refill (tb_state tb') - last_refill (tb_state tb))"
proof (cases "tb_stopped tb \<or> capacity (tb_config tb) < tokens")
  case True
  then show thesis using that [of "tb_stopped tb" tb] assms by (auto simp: try_consume_def)
next
  case False
  obtain st where r: "refill (tb_config tb) now (tb_state tb) = Some st" "bucket_ok (tb\<lparr>tb_state := st\<rparr>)"
    "last_refill st = max now (last_refill (tb_state tb))"
    "budget st \<le> budget (tb_state tb) + fill_rate (tb_config tb) * (now - last_refill (tb_state tb))"
    by (rule refill_spec [OF assms])
  have el: "last_refill st - last_refill (tb_state tb) = now - last_refill (tb_state tb)"
    using r(3) by simp
  show thesis
  proof (cases "available_tokens st < tokens")
    case True
    then show thesis
      using that [of False "tb\<lparr>tb_state := st\<rparr>"] False r el by (simp add: try_consume_def)
  next
    case grant: False
    let ?st = "st\<lparr>available_tokens := available_tokens st - tokens\<rparr>"
    obtain k where "available_tokens st = tokens + k" using grant by (auto simp: not_less le_iff_add)
    then have "budget ?st + tokens * NANOS_PER_SECOND = budget st"
      by (simp add: budget_def add_mult_distrib)
    moreover have "bucket_ok (tb\<lparr>tb_state := ?st\<rparr>)" using r(2) by (auto simp: bucket_ok_def)
    ultimately show thesis
      using that [of True "tb\<lparr>tb_state := ?st\<rparr>"] False grant r el by (simp add: try_consume_def)
  qed
qed

section \<open>The contract of a byte limiter\<close>

locale byte_limiter =
  fixes attempt :: "nat \<Rightarrow> nat \<Rightarrow> 'l \<Rightarrow> (bool \<times> 'l) may_panic"
    and ready :: "'l \<Rightarrow> bool"
  assumes attempt_ok: "ready l \<Longrightarrow> \<exists>b l'. attempt now n l = Some (b, l') \<and> ready l'"
    and attempt_zero: "ready l \<Longrightarrow> attempt now 0 l = Some (b, l') \<Longrightarrow> b"
    and attempt_less: "ready l \<Longrightarrow> attempt now n l = Some (True, l') \<Longrightarrow> m \<le> n \<Longrightarrow> \<exists>l''. attempt now m l = Some (True, l'')"
begin

lemma attempt_refused_more:
  assumes "ready l" and "attempt now m l = Some (False, l')" and "m \<le> n"
  shows "\<exists>l''. attempt now n l = Some (False, l'')"
proof -
  obtain b l'' where a: "attempt now n l = Some (b, l'')" using attempt_ok [OF assms(1)] by blast
  have "\<not> b"
  proof
    assume b
    then show False using attempt_less [OF assms(1) _ assms(3)] a assms(2) by fastforce
  qed
  then show ?thesis using a by (cases b) auto
qed

end

definition unlimited_try_consume :: "nat \<Rightarrow> nat \<Rightarrow> unit \<Rightarrow> (bool \<times> unit) may_panic" where
  "unlimited_try_consume now n u = Some (True, u)"

interpretation unlimited: byte_limiter unlimited_try_consume "\<lambda>_. True"
  by unfold_locales (auto simp: unlimited_try_consume_def)

interpretation bucket: byte_limiter try_consume bucket_ok
proof
  fix tb :: token_bucket and now n m :: nat and b tb'
  assume ok: "bucket_ok tb"
  show "\<exists>b tb'. try_consume now n tb = Some (b, tb') \<and> bucket_ok tb'"
    by (rule try_consume_spec [OF ok, where now = now and tokens = n]) blast
  show "b" if "try_consume now 0 tb = Some (b, tb')"
    using that by (auto simp: try_consume_def bind_eq_Some_conv split: if_splits)
  show "\<exists>tb''. try_consume now m tb = Some (True, tb'')" if a: "try_consume now n tb = Some (True, tb')" and le: "m \<le> n"
  proof (cases "tb_stopped tb")
    case False
    then obtain st where "refill (tb_config tb) now (tb_state tb) = Some st" "n \<le> available_tokens st"
        "n \<le> capacity (tb_config tb)"
      using a by (auto simp: try_consume_def bind_eq_Some_conv not_less split: if_splits)
    then show ?thesis using False le by (simp add: try_consume_def)
  qed (simp add: try_consume_def)
qed

section \<open>Rate\<close>

primrec request_run :: "(nat \<times> nat) list \<Rightarrow> token_bucket \<Rightarrow> (bool list \<times> token_bucket) may_panic" where
  "request_run [] tb = Some ([], tb)"
| "request_run (r # rs) tb = do {
     (b, tb1) \<leftarrow> try_consume (fst r) (snd r) tb;
     (bs, tb2) \<leftarrow> request_run rs tb1;
     Some (b # bs, tb2)
   }"

definition granted :: "(nat \<times> nat) list \<Rightarrow> bool list \<Rightarrow> nat" where
  "granted rs bs = sum_list (map (\<lambda>(r, b). if b then snd r else 0) (zip rs bs))"

lemma request_run_budget:
  "\<lbrakk>bucket_ok tb; \<not> tb_stopped tb; \<forall>r\<in>set rs. fst r \<le> T; last_refill (tb_state tb) \<le> T\<rbrakk> \<Longrightarrow>
   \<exists>bs tb'. request_run rs tb = Some (bs, tb') \<and> bucket_ok tb' \<and>
     granted rs bs * NANOS_PER_SECOND \<le> budget (tb_state tb) + fill_rate (tb_config tb) * (T - last_refill (tb_state tb))"
proof (induction rs arbitrary: tb)
  case Nil
  then show ?case by (simp add: granted_def)
next
  case (Cons r rs)
  obtain b tb1 where s: "try_consume (fst r) (snd r) tb = Some (b, tb1)" "bucket_ok tb1"
    "tb_config tb1 = tb_config tb" "tb_stopped tb1 = tb_stopped tb"
    "last_refill (tb_state tb) \<le> last_refill (tb_state tb1)"
    "last_refill (tb_state tb1) \<le> max (fst r) (last_refill (tb_state tb))"
    "tb_stopped tb \<or> budget (tb_state tb1) + (if b then snd r * NANOS_PER_SECOND else 0) \<le>
      budget (tb_state tb) + fill_rate (tb_config tb) * (last_refill (tb_state tb1) - last_refill (tb_state tb))"
    by (rule try_consume_spec [OF Cons.prems(1), where now = "fst r" and tokens = "snd r"])
  have T: "last_refill (tb_state tb1) \<le> T" using s(6) Cons.prems(3,4) by auto
  obtain bs tb' where i: "request_run rs tb1 = Some (bs, tb')" "bucket_ok tb'"
    "granted rs bs * NANOS_PER_SECOND \<le> budget (tb_state tb1) + fill_rate (tb_config tb1) * (T - last_refill (tb_state tb1))"
    using Cons.IH [OF s(2) _ _ T] s(4) Cons.prems(2,3) by auto
  have g: "granted (r # rs) (b # bs) * NANOS_PER_SECOND =
      (if b then snd r * NANOS_PER_SECOND else 0) + granted rs bs * NANOS_PER_SECOND"
    by (simp add: granted_def add_mult_distrib)
  have "fill_rate (tb_config tb) * (T - last_refill (tb_state tb)) =
      fill_rate (tb_config tb) * (last_refill (tb_state tb1) - last_refill (tb_state tb)) +
      fill_rate (tb_config tb) * (T - last_refill (tb_state tb1))"
    using s(5) T by (simp flip: add_mult_distrib2)
  then show ?case
    using i s(1,3,7) g Cons.prems(2) by (auto simp: Let_def)
qed

text \<open>C20. The bucket enforces its rate: whatever requests arrive at whatever times up to \<open>T\<close>, the bytes
  granted since the bucket was made never exceed the capacity plus the rate times the elapsed time,
  and no request makes it panic.\<close>

theorem granted_bytes_bounded_by_rate:
  assumes "capacity cfg \<le> U64_MAX" and "\<forall>r\<in>set rs. fst r \<le> T" and "now \<le> T"
  shows "\<exists>bs tb'. request_run rs (new_from_cfg now cfg) = Some (bs, tb') \<and>
    granted rs bs * NANOS_PER_SECOND \<le>
      max (capacity cfg) 1 * NANOS_PER_SECOND + max (fill_rate cfg) 1 * (T - now)"
proof -
  have "\<not> tb_stopped (new_from_cfg now cfg)" "last_refill (tb_state (new_from_cfg now cfg)) \<le> T"
    using assms(3) by (simp_all add: new_from_cfg_def Let_def)
  from request_run_budget [OF new_from_cfg_ok [OF assms(1), of now] this(1) assms(2) this(2)]
  show ?thesis by (auto simp: new_from_cfg_def Let_def budget_def)
qed

theorem granted_bytes_bounded_by_rate_witness:
  "\<exists>bs tb'. request_run [(0, 80), (1000000, 50), (500000000, 50)] (new_from_cfg 0 \<lparr>capacity = 100, fill_rate = 100\<rparr>)
      = Some (bs, tb') \<and> bs = [True, False, True] \<and>
    granted [(0, 80), (1000000, 50), (500000000, 50)] bs * NANOS_PER_SECOND \<le> 100 * NANOS_PER_SECOND + 100 * 500000000"
proof -
  have e: "map_option fst (request_run [(0, 80), (1000000, 50), (500000000, 50)] (new_from_cfg 0 \<lparr>capacity = 100, fill_rate = 100\<rparr>))
      = Some [True, False, True]"
    by (simp add: new_from_cfg_def try_consume_def refill_def Let_def u128_saturating_add_def
        u128_saturating_mul_def U128_MAX_def U64_MAX_def NANOS_PER_SECOND_def)
  obtain bs tb' where r: "request_run [(0, 80), (1000000, 50), (500000000, 50)] (new_from_cfg 0 \<lparr>capacity = 100, fill_rate = 100\<rparr>)
        = Some (bs, tb')"
    and g: "granted [(0, 80), (1000000, 50), (500000000, 50)] bs * NANOS_PER_SECOND \<le>
      max (capacity \<lparr>capacity = 100, fill_rate = 100\<rparr>) 1 * NANOS_PER_SECOND +
      max (fill_rate \<lparr>capacity = 100, fill_rate = 100\<rparr>) 1 * (500000000 - 0)"
    using granted_bytes_bounded_by_rate [of "\<lparr>capacity = 100, fill_rate = 100\<rparr>"
        "[(0, 80), (1000000, 50), (500000000, 50)]" 500000000 0]
    by (auto simp: U64_MAX_def simp del: request_run.simps)
  have "bs = [True, False, True]" using e unfolding r by simp
  then show ?thesis using r g by (simp del: request_run.simps)
qed


section \<open>Blocking consumption returns\<close>

lemma div_ceil_enough: "0 < b \<Longrightarrow> a \<le> b * div_ceil a b"
proof -
  assume b: "0 < b"
  define q r where "q = a div b" and "r = a mod b"
  have "a = b * q + r" "r < b" using b by (simp_all add: q_def r_def)
  then show ?thesis by (simp add: div_ceil_def flip: q_def r_def)
qed

text \<open>A granted chunk keeps the accounts; a refused one says how long to sleep, and after that long the
  chunk is granted.\<close>

definition sleeps_fit :: "bucket_config \<Rightarrow> bool" where
  "sleeps_fit cfg \<longleftrightarrow> capacity cfg * NANOS_PER_SECOND \<le> U64_MAX * fill_rate cfg"

lemma div_ceil_le: "0 < b \<Longrightarrow> a \<le> c * b \<Longrightarrow> div_ceil a b \<le> c"
proof -
  assume b: "0 < b" and le: "a \<le> c * b"
  show ?thesis
  proof (cases "a mod b = 0")
    case True
    then show ?thesis using div_le_mono [OF le, of b] b by (simp add: div_ceil_def)
  next
    case False
    then have "a < c * b" using le by (metis le_neq_implies_less mod_mult_self2_is_0)
    then have "a div b < c" using b by (simp add: less_mult_imp_div_less)
    then show ?thesis using False by (simp add: div_ceil_def)
  qed
qed

lemma turn_grants:
  assumes "bucket_ok tb" and "\<not> tb_stopped tb" and "last_refill (tb_state tb) \<le> now"
    and "tokens \<le> capacity (tb_config tb)"
    and "tokens * NANOS_PER_SECOND \<le>
      budget (tb_state tb) + fill_rate (tb_config tb) * (now - last_refill (tb_state tb))"
  obtains tb' where "consume_chunk_turn now tokens tb = Some (ChunkDone, tb')" and "bucket_ok tb'"
    and "tb_config tb' = tb_config tb" and "\<not> tb_stopped tb'" and "last_refill (tb_state tb') = now"
    and "budget (tb_state tb') + tokens * NANOS_PER_SECOND \<le>
      budget (tb_state tb) + fill_rate (tb_config tb) * (now - last_refill (tb_state tb))"
proof -
  obtain st where r: "refill (tb_config tb) now (tb_state tb) = Some st" "bucket_ok (tb\<lparr>tb_state := st\<rparr>)"
    "last_refill st = max now (last_refill (tb_state tb))"
    "budget st \<le> budget (tb_state tb) + fill_rate (tb_config tb) * (now - last_refill (tb_state tb))"
    "available_tokens st = capacity (tb_config tb) \<or>
       budget st = budget (tb_state tb) + fill_rate (tb_config tb) * (now - last_refill (tb_state tb))"
    by (rule refill_spec [OF assms(1)])
  have rem: "refill_remainder st < NANOS_PER_SECOND" using r(2) by (simp add: bucket_ok_def)
  have enough: "tokens \<le> available_tokens st"
  proof (cases "available_tokens st = capacity (tb_config tb)")
    case False
    then have "tokens * NANOS_PER_SECOND < (available_tokens st + 1) * NANOS_PER_SECOND"
      using r(5) assms(5) rem by (simp add: budget_def)
    then show ?thesis by (simp only: mult_less_cancel2) simp
  qed (use assms(4) in simp)
  obtain k where k: "available_tokens st = tokens + k" using enough by (auto simp: le_iff_add)
  let ?st = "st\<lparr>available_tokens := available_tokens st - tokens\<rparr>"
  have "budget ?st + tokens * NANOS_PER_SECOND = budget st" using k by (simp add: budget_def add_mult_distrib)
  moreover have "bucket_ok (tb\<lparr>tb_state := ?st\<rparr>)" using r(2) by (auto simp: bucket_ok_def)
  ultimately show thesis
    using that [of "tb\<lparr>tb_state := ?st\<rparr>"] r assms(2,3) enough by (simp add: consume_chunk_turn_def)
qed

lemma consume_chunk_returns:
  assumes "bucket_ok tb" and "\<not> tb_stopped tb" and "last_refill (tb_state tb) \<le> now"
    and "tokens \<le> capacity (tb_config tb)" and "sleeps_fit (tb_config tb)"
  obtains now' tb' where "consume_chunk now tokens tb = Some (now', tb')" and "now \<le> now'" and "bucket_ok tb'"
    and "tb_config tb' = tb_config tb" and "\<not> tb_stopped tb'" and "last_refill (tb_state tb') = now'"
    and "budget (tb_state tb') + tokens * NANOS_PER_SECOND \<le>
      budget (tb_state tb) + fill_rate (tb_config tb) * (now' - last_refill (tb_state tb))"
proof -
  let ?rate = "fill_rate (tb_config tb)" and ?last = "last_refill (tb_state tb)"
  obtain st where r: "refill (tb_config tb) now (tb_state tb) = Some st" "bucket_ok (tb\<lparr>tb_state := st\<rparr>)"
    "last_refill st = max now ?last" "budget st \<le> budget (tb_state tb) + ?rate * (now - ?last)"
    by (rule refill_spec [OF assms(1)])
  show thesis
  proof (cases "tokens \<le> available_tokens st")
    case True
    obtain k where k: "available_tokens st = tokens + k" using True by (auto simp: le_iff_add)
    let ?tb = "tb\<lparr>tb_state := st\<lparr>available_tokens := available_tokens st - tokens\<rparr>\<rparr>"
    have "budget (tb_state ?tb) + tokens * NANOS_PER_SECOND = budget st"
      using k by (simp add: budget_def add_mult_distrib)
    moreover have "consume_chunk now tokens tb = Some (now, ?tb)"
      using True r(1) assms(2) by (subst consume_chunk.simps) (simp add: consume_chunk_turn_def)
    moreover have "bucket_ok ?tb" using r(2) by (auto simp: bucket_ok_def)
    ultimately show thesis using that [of now ?tb] r(3,4) assms(2,3) by simp
  next
    case False
    let ?tb1 = "tb\<lparr>tb_state := st\<rparr>"
    define remaining where "remaining = (tokens - available_tokens st) * NANOS_PER_SECOND - refill_remainder st"
    define d where "d = max (min (div_ceil remaining ?rate) U64_MAX) 1000000"
    have rate: "0 < ?rate" using assms(1) by (simp add: bucket_ok_def)
    have rem: "refill_remainder st < NANOS_PER_SECOND" using r(2) by (simp add: bucket_ok_def)
    have need: "refill_remainder st \<le> (tokens - available_tokens st) * NANOS_PER_SECOND"
      using rem False by (metis less_imp_le mult_le_mono1 nat_mult_1 not_le order_trans Suc_leI zero_less_diff One_nat_def)
    have turn: "consume_chunk_turn now tokens tb = Some (ChunkSleep d, ?tb1)"
      using False r(1) assms(2) need by (simp add: consume_chunk_turn_def Let_def d_def remaining_def)
    have "remaining \<le> U64_MAX * ?rate"
    proof -
      have "remaining \<le> tokens * NANOS_PER_SECOND"
        by (simp add: remaining_def diff_mult_distrib)
      also have "\<dots> \<le> capacity (tb_config tb) * NANOS_PER_SECOND" using assms(4) by (rule mult_le_mono1)
      finally show ?thesis using assms(5) by (simp add: sleeps_fit_def)
    qed
    then have "div_ceil remaining ?rate \<le> d"
      using div_ceil_le [OF rate] by (simp add: d_def)
    then have "remaining \<le> ?rate * d"
      using div_ceil_enough [OF rate, of remaining] mult_le_mono2 order_trans by blast
    then have grow: "tokens * NANOS_PER_SECOND \<le> budget st + ?rate * d"
      using need False by (simp add: remaining_def budget_def diff_mult_distrib)
    have st_now: "last_refill st = now" using r(3) assms(3) by simp
    obtain tb2 where t2: "consume_chunk_turn (now + d) tokens ?tb1 = Some (ChunkDone, tb2)" "bucket_ok tb2"
      "tb_config tb2 = tb_config tb" "\<not> tb_stopped tb2" "last_refill (tb_state tb2) = now + d"
      "budget (tb_state tb2) + tokens * NANOS_PER_SECOND \<le> budget st + ?rate * d"
      using turn_grants [OF r(2), of "now + d" tokens] st_now assms(2,4) grow by auto
    have "consume_chunk now tokens tb = Some (now + d, tb2)"
      using turn t2(1) by (subst consume_chunk.simps, simp) (subst consume_chunk.simps, simp)
    moreover have "?rate * (now + d - ?last) = ?rate * (now - ?last) + ?rate * d"
      using assms(3) by (simp flip: add_mult_distrib2)
    ultimately show thesis
      using that [of "now + d" tb2] t2 r(4) by simp
  qed
qed

lemma consume_returns:
  "\<lbrakk>bucket_ok tb; \<not> tb_stopped tb; last_refill (tb_state tb) \<le> now; sleeps_fit (tb_config tb)\<rbrakk> \<Longrightarrow>
   \<exists>now' tb'. consume now n tb = Some (now', tb') \<and> now \<le> now' \<and> bucket_ok tb' \<and>
     n * NANOS_PER_SECOND \<le> budget (tb_state tb) + fill_rate (tb_config tb) * (now' - last_refill (tb_state tb))"
proof (induction n arbitrary: now tb rule: less_induct)
  case (less n)
  show ?case
  proof (cases "n = 0")
    case True
    then show ?thesis using less.prems by (subst consume.simps) simp
  next
    case False
    let ?c = "min n (capacity (tb_config tb))" and ?rate = "fill_rate (tb_config tb)"
    have c: "0 < ?c" "?c \<le> capacity (tb_config tb)"
      using False less.prems(1) by (auto simp: bucket_ok_def)
    obtain t1 tb1 where h: "consume_chunk now ?c tb = Some (t1, tb1)" "now \<le> t1" "bucket_ok tb1"
      "tb_config tb1 = tb_config tb" "\<not> tb_stopped tb1" "last_refill (tb_state tb1) = t1"
      "budget (tb_state tb1) + ?c * NANOS_PER_SECOND \<le>
        budget (tb_state tb) + ?rate * (t1 - last_refill (tb_state tb))"
      by (rule consume_chunk_returns [OF less.prems(1-3) c(2) less.prems(4)])
    obtain now' tb' where i: "consume t1 (n - ?c) tb1 = Some (now', tb')" "t1 \<le> now'" "bucket_ok tb'"
      "(n - ?c) * NANOS_PER_SECOND \<le> budget (tb_state tb1) + ?rate * (now' - t1)"
      using less.IH [of "n - ?c" tb1 t1] h c(1) False less.prems(4) by auto
    have "consume now n tb = Some (now', tb')"
      using False less.prems(2) h(1) i(1) by (subst consume.simps) (simp add: Let_def)
    moreover have "?rate * (now' - last_refill (tb_state tb)) =
        ?rate * (t1 - last_refill (tb_state tb)) + ?rate * (now' - t1)"
      using h(2) i(2) less.prems(3) by (simp flip: add_mult_distrib2)
    moreover have "n * NANOS_PER_SECOND = (n - ?c) * NANOS_PER_SECOND + ?c * NANOS_PER_SECOND"
      by (simp flip: add_mult_distrib)
    ultimately show ?thesis using h(2,7) i by auto
  qed
qed



end
