(* ===== verification/Graph_Algo.thy ===== *)
theory Graph_Algo
  imports Prelude "HOL-Library.Multiset"
begin

text \<open>
  The shortest-path search \<open>dijkstra_with_first_hop\<close> of
  \<open>easytier-core/src/peers/route/graph_algo.rs\<close>, which the OSPF route uses with \<open>usize\<close> costs to fill the
  next-hop table.

  A graph is the function that lists the outgoing edges of a node. The binary heap of the standard
  library enters through its contract: \<open>pop\<close> removes some entry that is maximal in the order of
  \<open>MinScored\<close>, and which one of several it is stays open. The locale \<open>min_heap\<close> is that contract; the
  linear search \<open>list_pop\<close> is an instance. The loop is \<open>partial_function (option)\<close>; that it ends on
  every finite graph is part of the result.
\<close>

section \<open>The order of the heap\<close>

datatype ordering = Less | Equal | Greater

text \<open>For \<open>usize\<close> scores the branches for values that differ from themselves are not reachable.\<close>

definition min_scored_cmp :: "nat \<times> 'n \<Rightarrow> nat \<times> 'n \<Rightarrow> ordering" where
  "min_scored_cmp x y =
     (let a = fst x; b = fst y
      in if a = b then Equal else if a < b then Greater else if b < a then Less
         else if a \<noteq> a \<and> b \<noteq> b then Equal else if a \<noteq> a then Less else Greater)"

type_synonym 'n heap_pop = "(nat \<times> 'n) list \<Rightarrow> ((nat \<times> 'n) \<times> (nat \<times> 'n) list) option"

definition pop_contract :: "'n heap_pop \<Rightarrow> bool" where
  "pop_contract pop \<longleftrightarrow> pop [] = None \<and>
     (\<forall>h. h \<noteq> [] \<longrightarrow> (\<exists>x h'. pop h = Some (x, h') \<and> mset h = add_mset x (mset h') \<and>
        (\<forall>y\<in>set h. min_scored_cmp y x \<noteq> Greater)))"

fun list_best :: "(nat \<times> 'n) \<Rightarrow> (nat \<times> 'n) list \<Rightarrow> (nat \<times> 'n) \<times> (nat \<times> 'n) list" where
  "list_best x [] = (x, [])"
| "list_best x (y # ys) =
     (if min_scored_cmp y x = Greater then let (b, r) = list_best y ys in (b, x # r)
      else let (b, r) = list_best x ys in (b, y # r))"

fun list_pop :: "'n heap_pop" where
  "list_pop [] = None"
| "list_pop (x # xs) = Some (list_best x xs)"

section \<open>The search\<close>

type_synonym 'n graph = "'n \<Rightarrow> ('n \<times> nat) list"

record 'n search =
  visited :: "'n list"
  scores :: "'n \<Rightarrow> nat option"
  first_hop :: "'n \<Rightarrow> ('n \<times> nat) option"
  visit_next :: "(nat \<times> 'n) list"

text \<open>One edge; \<open>first_hop[&node]\<close> panics when the node has no entry.\<close>

definition relax :: "'n \<Rightarrow> 'n \<Rightarrow> nat \<Rightarrow> 'n \<times> nat \<Rightarrow> 'n search \<Rightarrow> 'n search may_panic" where
  "relax start node node_score edge st =
     (let nxt = fst edge
      in if nxt \<in> set (visited st) then Some st
         else
           let next_score = node_score + snd edge;
               improve = do {
                 hop \<leftarrow> (if node = start then Some (nxt, 0) else first_hop st node);
                 Some (st\<lparr>scores := (scores st)(nxt := Some next_score),
                          visit_next := (next_score, nxt) # visit_next st,
                          first_hop := (first_hop st)(nxt := Some (fst hop, snd hop + 1))\<rparr>)
               }
           in case scores st nxt of
                Some old \<Rightarrow> if next_score < old then improve else Some st
              | None \<Rightarrow> improve)"

primrec relax_all :: "'n \<Rightarrow> 'n \<Rightarrow> nat \<Rightarrow> ('n \<times> nat) list \<Rightarrow> 'n search \<Rightarrow> 'n search may_panic" where
  "relax_all start node node_score [] st = Some st"
| "relax_all start node node_score (e # es) st = do {
     st' \<leftarrow> relax start node node_score e st;
     relax_all start node node_score es st'
   }"

definition search_start :: "'n \<Rightarrow> 'n search" where
  "search_start start =
     \<lparr>visited = [], scores = [start \<mapsto> 0], first_hop = [start \<mapsto> (start, 0)], visit_next = [(0, start)]\<rparr>"

partial_function (option) search_loop :: "'n heap_pop \<Rightarrow> 'n graph \<Rightarrow> 'n \<Rightarrow> 'n search \<Rightarrow> 'n search option" where
  "search_loop pop G start st =
     (case pop (visit_next st) of
        None \<Rightarrow> Some st
      | Some (best, rest) \<Rightarrow>
          (let st1 = st\<lparr>visit_next := rest\<rparr>; node = snd best
           in if node \<in> set (visited st1) then search_loop pop G start st1
              else do {
                st2 \<leftarrow> relax_all start node (fst best) (G node) st1;
                search_loop pop G start (st2\<lparr>visited := node # visited st2\<rparr>)
              }))"

definition dijkstra_with_first_hop ::
  "'n heap_pop \<Rightarrow> 'n graph \<Rightarrow> 'n \<Rightarrow> (('n \<Rightarrow> nat option) \<times> ('n \<Rightarrow> ('n \<times> nat) option)) option" where
  "dijkstra_with_first_hop pop G start =
     map_option (\<lambda>st. (scores st, first_hop st)) (search_loop pop G start (search_start start))"

section \<open>Paths\<close>

inductive path_cost :: "'n graph \<Rightarrow> 'n \<Rightarrow> 'n \<Rightarrow> nat \<Rightarrow> bool" for G s where
  path_here: "path_cost G s s 0"
| path_edge: "path_cost G s u c \<Longrightarrow> (v, w) \<in> set (G u) \<Longrightarrow> path_cost G s v (c + w)"

text \<open>\<open>hop_path G s h v c n\<close>: a path of \<open>n\<close> edges and cost \<open>c\<close> from \<open>s\<close> to \<open>v\<close> whose first stop is \<open>h\<close>.\<close>

inductive hop_path :: "'n graph \<Rightarrow> 'n \<Rightarrow> 'n \<Rightarrow> 'n \<Rightarrow> nat \<Rightarrow> nat \<Rightarrow> bool" for G s h where
  hop_first: "(h, w) \<in> set (G s) \<Longrightarrow> hop_path G s h h w 1"
| hop_next: "hop_path G s h u c n \<Longrightarrow> (v, w) \<in> set (G u) \<Longrightarrow> hop_path G s h v (c + w) (n + 1)"

lemma hop_path_cost: "hop_path G s h v c n \<Longrightarrow> path_cost G s v c"
proof (induction rule: hop_path.induct)
  case (hop_first w)
  then show ?case using path_edge [OF path_here, of h w G s] by simp
qed (rule path_edge)

lemma path_in_nodes:
  "path_cost G s v c \<Longrightarrow> s \<in> N \<Longrightarrow> (\<And>u x w. u \<in> N \<Longrightarrow> (x, w) \<in> set (G u) \<Longrightarrow> x \<in> N) \<Longrightarrow> v \<in> N"
  by (induction rule: path_cost.induct) auto

section \<open>The contract of the heap\<close>

locale min_heap =
  fixes pop :: "'n heap_pop"
  assumes pop_empty: "pop [] = None"
    and pop_some: "h \<noteq> [] \<Longrightarrow> \<exists>x h'. pop h = Some (x, h') \<and> mset h = add_mset x (mset h') \<and>
      (\<forall>y\<in>set h. min_scored_cmp y x \<noteq> Greater)"
begin

lemma pop_None: "pop h = None \<longleftrightarrow> h = []"
  using pop_empty pop_some by fastforce

lemma pop_Some:
  assumes "pop h = Some (x, h')"
  shows "set h = insert x (set h')" and "length h = Suc (length h')" and "\<And>y. y \<in> set h \<Longrightarrow> fst x \<le> fst y"
proof -
  have "h \<noteq> []" using assms pop_empty by auto
  then have m: "mset h = add_mset x (mset h')" and le: "\<forall>y\<in>set h. min_scored_cmp y x \<noteq> Greater"
    using pop_some [of h] assms by auto
  show "set h = insert x (set h')" using arg_cong [OF m, of set_mset] by simp
  show "length h = Suc (length h')" using arg_cong [OF m, of size] by simp
  show "\<And>y. y \<in> set h \<Longrightarrow> fst x \<le> fst y"
    using le by (force simp: min_scored_cmp_def Let_def split: if_splits)
qed

end

lemma list_best_spec:
  "list_best x xs = (b, r) \<Longrightarrow> add_mset x (mset xs) = add_mset b (mset r) \<and> (\<forall>y\<in>insert x (set xs). fst b \<le> fst y)"
proof (induction xs arbitrary: x b r)
  case (Cons y ys)
  show ?case
  proof (cases "fst y < fst x")
    case True
    then obtain r' where "list_best y ys = (b, r')" "r = x # r'"
      using Cons.prems by (auto simp: min_scored_cmp_def Let_def split: prod.splits)
    then show ?thesis using Cons.IH [of y b r'] True by (auto simp: add_mset_commute)
  next
    case False
    then obtain r' where "list_best x ys = (b, r')" "r = y # r'"
      using Cons.prems by (auto simp: min_scored_cmp_def Let_def split: prod.splits if_splits)
    then show ?thesis using Cons.IH [of x b r'] False by (auto simp: add_mset_commute)
  qed
qed simp

interpretation list_heap: min_heap list_pop
proof
  show "list_pop [] = None" by simp
  fix h :: "(nat \<times> 'a) list"
  assume "h \<noteq> []"
  then obtain x xs b r where h: "h = x # xs" "list_best x xs = (b, r)" by (cases h; fastforce)
  then show "\<exists>x h'. list_pop h = Some (x, h') \<and> mset h = add_mset x (mset h') \<and> (\<forall>y\<in>set h. min_scored_cmp y x \<noteq> Greater)"
    using list_best_spec [OF h(2)] by (auto simp: min_scored_cmp_def Let_def)
qed

lemma list_pop_contract: "pop_contract list_pop"
  unfolding pop_contract_def using list_heap.pop_empty list_heap.pop_some by blast

lemma pop_contract_min_heap: "pop_contract pop \<Longrightarrow> min_heap pop"
  by unfold_locales (auto simp: pop_contract_def)


section \<open>The invariant of the search\<close>

text \<open>\<open>X\<close> is the set of the nodes that are settled: the visited ones and, while its edges are scanned,
  the current one.\<close>

definition hop_ok :: "'n graph \<Rightarrow> 'n \<Rightarrow> 'n search \<Rightarrow> 'n \<Rightarrow> nat \<Rightarrow> bool" where
  "hop_ok G s st v d \<longleftrightarrow>
     (if v = s then d = 0 \<and> first_hop st v = Some (s, 0)
      else \<exists>h n. first_hop st v = Some (h, n) \<and> hop_path G s h v d n)"

definition search_inv :: "'n graph \<Rightarrow> 'n \<Rightarrow> 'n set \<Rightarrow> 'n search \<Rightarrow> bool" where
  "search_inv G s X st \<longleftrightarrow>
     scores st s = Some 0 \<and>
     (\<forall>v d. scores st v = Some d \<longrightarrow> hop_ok G s st v d) \<and>
     (\<forall>v d. first_hop st v = Some d \<longrightarrow> scores st v \<noteq> None) \<and>
     (\<forall>v d. scores st v = Some d \<longrightarrow> v \<in> X \<or> (d, v) \<in> set (visit_next st)) \<and>
     (\<forall>x\<in>set (visit_next st). \<exists>d. scores st (snd x) = Some d \<and> d \<le> fst x) \<and>
     (\<forall>u\<in>X. \<exists>d. scores st u = Some d \<and> (\<forall>x\<in>set (visit_next st). d \<le> fst x)) \<and>
     (\<forall>u\<in>set (visited st). \<forall>(v, w)\<in>set (G u). \<exists>du dv. scores st u = Some du \<and> scores st v = Some dv \<and> dv \<le> du + w)"

lemma search_invD:
  assumes "search_inv G s X st"
  shows "scores st s = Some 0"
    and "\<And>v d. scores st v = Some d \<Longrightarrow> hop_ok G s st v d"
    and "\<And>v d. first_hop st v = Some d \<Longrightarrow> scores st v \<noteq> None"
    and "\<And>v d. scores st v = Some d \<Longrightarrow> v \<in> X \<or> (d, v) \<in> set (visit_next st)"
    and "\<And>x. x \<in> set (visit_next st) \<Longrightarrow> \<exists>d. scores st (snd x) = Some d \<and> d \<le> fst x"
    and "\<And>u. u \<in> X \<Longrightarrow> \<exists>d. scores st u = Some d \<and> (\<forall>x\<in>set (visit_next st). d \<le> fst x)"
    and "\<And>u v w. u \<in> set (visited st) \<Longrightarrow> (v, w) \<in> set (G u) \<Longrightarrow>
      \<exists>du dv. scores st u = Some du \<and> scores st v = Some dv \<and> dv \<le> du + w"
  using assms unfolding search_inv_def by (blast | fastforce)+

lemma search_invI:
  assumes "scores st s = Some 0"
    and "\<And>v d. scores st v = Some d \<Longrightarrow> hop_ok G s st v d"
    and "\<And>v d. first_hop st v = Some d \<Longrightarrow> scores st v \<noteq> None"
    and "\<And>v d. scores st v = Some d \<Longrightarrow> v \<in> X \<or> (d, v) \<in> set (visit_next st)"
    and "\<And>x. x \<in> set (visit_next st) \<Longrightarrow> \<exists>d. scores st (snd x) = Some d \<and> d \<le> fst x"
    and "\<And>u. u \<in> X \<Longrightarrow> \<exists>d. scores st u = Some d \<and> (\<forall>x\<in>set (visit_next st). d \<le> fst x)"
    and "\<And>u v w. u \<in> set (visited st) \<Longrightarrow> (v, w) \<in> set (G u) \<Longrightarrow>
      \<exists>du dv. scores st u = Some du \<and> scores st v = Some dv \<and> dv \<le> du + w"
  shows "search_inv G s X st"
  unfolding search_inv_def using assms by blast

lemma search_start_inv: "search_inv G s {} (search_start s)"
  by (rule search_invI) (auto simp: search_start_def hop_ok_def split: if_splits)

text \<open>\<open>settling G s X node ns st\<close>: the invariant while the edges of \<open>node\<close> are scanned.\<close>

definition settling :: "'n graph \<Rightarrow> 'n \<Rightarrow> 'n set \<Rightarrow> 'n \<Rightarrow> nat \<Rightarrow> 'n search \<Rightarrow> bool" where
  "settling G s X node ns st \<longleftrightarrow> search_inv G s X st \<and> node \<in> X \<and> scores st node = Some ns \<and>
     set (visited st) \<subseteq> X \<and> (\<forall>u\<in>X. \<exists>d. scores st u = Some d \<and> d \<le> ns)"

lemma improve_inv:
  assumes "settling G s X node ns st" and "(v, w) \<in> set (G node)" and "v \<notin> set (visited st)"
    and "\<And>old. scores st v = Some old \<Longrightarrow> ns + w < old"
    and "(if node = s then Some (v, 0) else first_hop st node) = Some hop"
    and st': "st' = st\<lparr>scores := (scores st)(v := Some (ns + w)), visit_next := (ns + w, v) # visit_next st,
      first_hop := (first_hop st)(v := Some (fst hop, snd hop + 1))\<rparr>"
  shows "settling G s X node ns st'"
proof -
  have inv: "search_inv G s X st" and node: "node \<in> X" "scores st node = Some ns" "set (visited st) \<subseteq> X"
    and bound: "\<And>u. u \<in> X \<Longrightarrow> \<exists>d. scores st u = Some d \<and> d \<le> ns"
    using assms(1) by (auto simp: settling_def)
  note I = search_invD [OF inv]
  have vX: "v \<notin> X" using bound [of v] assms(4) by force
  have vs: "v \<noteq> s" using I(1) assms(4) by force
  have hop: "hop_path G s (fst hop) v (ns + w) (snd hop + 1)"
  proof (cases "node = s")
    case True
    then have "ns = 0" using node(2) I(1) by simp
    then show ?thesis using True assms(2,5) hop_first [of v w G s] by auto
  next
    case False
    then obtain h n where "hop = (h, n)" "hop_path G s h node ns n"
      using I(2) [OF node(2)] assms(5) by (auto simp: hop_ok_def)
    then show ?thesis using hop_path.hop_next [of G s h node ns n v w] assms(2) by simp
  qed
  have keep: "u \<in> X \<Longrightarrow> scores st' u = scores st u" for u using vX st' by auto
  have "search_inv G s X st'"
  proof (rule search_invI)
    show "scores st' s = Some 0" using I(1) vs st' by simp
    show "hop_ok G s st' x d" if "scores st' x = Some d" for x d
      using that I(2) [of x d] hop vs st' by (auto simp: hop_ok_def split: if_splits)
    show "scores st' x \<noteq> None" if "first_hop st' x = Some d" for x d
      using that I(3) [of x d] st' by (auto split: if_splits)
    show "x \<in> X \<or> (d, x) \<in> set (visit_next st')" if "scores st' x = Some d" for x d
      using that I(4) [of x d] st' by (auto split: if_splits)
    show "\<exists>d. scores st' (snd x) = Some d \<and> d \<le> fst x" if x: "x \<in> set (visit_next st')" for x
    proof (cases "x \<in> set (visit_next st)")
      case True
      then obtain d where d: "scores st (snd x) = Some d" "d \<le> fst x" using I(5) by blast
      then show ?thesis using assms(4) [of d] st' by (cases "snd x = v") auto
    next
      case False
      then have "x = (ns + w, v)" using x st' by simp
      then show ?thesis using st' by simp
    qed
    show "\<exists>d. scores st' u = Some d \<and> (\<forall>x\<in>set (visit_next st'). d \<le> fst x)" if "u \<in> X" for u
      using that I(6) [OF that] bound [OF that] keep [OF that] st' by auto
    show "\<exists>du dv. scores st' u = Some du \<and> scores st' x = Some dv \<and> dv \<le> du + y"
      if u: "u \<in> set (visited st')" and x: "(x, y) \<in> set (G u)" for u x y
    proof -
      obtain du dx where d: "scores st u = Some du" "scores st x = Some dx" "dx \<le> du + y"
        using I(7) [of u x y] u x st' by auto
      have "scores st' u = Some du" using d(1) keep [of u] u node(3) st' by auto
      then show ?thesis using d assms(4) st' by (cases "x = v") force+
    qed
  qed
  then show ?thesis
    using node bound keep vX st' by (auto simp: settling_def)
qed

lemma relax_settling:
  assumes "settling G s X node ns st" and "(v, w) \<in> set (G node)"
  obtains st' where "relax s node ns (v, w) st = Some st'" and "settling G s X node ns st'"
    and "visited st' = visited st"
    and "\<exists>d. scores st' v = Some d \<and> d \<le> ns + w"
    and "\<And>x d. scores st x = Some d \<Longrightarrow> \<exists>d'. scores st' x = Some d' \<and> d' \<le> d"
proof -
  have inv: "search_inv G s X st" and node: "scores st node = Some ns" "set (visited st) \<subseteq> X"
    and bound: "\<And>u. u \<in> X \<Longrightarrow> \<exists>d. scores st u = Some d \<and> d \<le> ns"
    using assms(1) by (auto simp: settling_def)
  have "hop_ok G s st node ns" by (rule search_invD(2) [OF inv node(1)])
  then obtain hop where hop: "(if node = s then Some (v, 0) else first_hop st node) = Some hop"
    by (cases "node = s") (auto simp: hop_ok_def)
  show thesis
  proof (cases "v \<in> set (visited st) \<or> (\<exists>old. scores st v = Some old \<and> \<not> ns + w < old)")
    case True
    then have "relax s node ns (v, w) st = Some st"
      by (auto simp: relax_def Let_def)
    moreover have "\<exists>d. scores st v = Some d \<and> d \<le> ns + w"
      using True bound [of v] node(2) by fastforce
    ultimately show thesis using that [of st] assms(1) by auto
  next
    case False
    define st' where "st' = st\<lparr>scores := (scores st)(v := Some (ns + w)), visit_next := (ns + w, v) # visit_next st,
      first_hop := (first_hop st)(v := Some (fst hop, snd hop + 1))\<rparr>"
    have lt: "\<And>old. scores st v = Some old \<Longrightarrow> ns + w < old" using False by auto
    have "settling G s X node ns st'"
      using improve_inv [OF assms _ lt hop st'_def] False by blast
    moreover have "relax s node ns (v, w) st = Some st'"
      using False hop lt by (auto simp: relax_def Let_def st'_def split: option.splits)
    moreover have "\<exists>d'. scores st' x = Some d' \<and> d' \<le> d" if "scores st x = Some d" for x d
      using that lt by (cases "x = v") (auto simp: st'_def less_imp_le)
    ultimately show thesis
      using that [of st'] by (auto simp: st'_def)
  qed
qed

lemma relax_all_settling:
  "settling G s X node ns st \<Longrightarrow> set es \<subseteq> set (G node) \<Longrightarrow>
   \<exists>st'. relax_all s node ns es st = Some st' \<and> settling G s X node ns st' \<and> visited st' = visited st \<and>
     (\<forall>(v, w)\<in>set es. \<exists>d. scores st' v = Some d \<and> d \<le> ns + w) \<and>
     (\<forall>x d. scores st x = Some d \<longrightarrow> (\<exists>d'. scores st' x = Some d' \<and> d' \<le> d))"
proof (induction es arbitrary: st)
  case (Cons e es)
  obtain v w where e: "e = (v, w)" by (cases e)
  obtain st1 where s1: "relax s node ns (v, w) st = Some st1" "settling G s X node ns st1" "visited st1 = visited st"
    "\<exists>d. scores st1 v = Some d \<and> d \<le> ns + w" "\<And>x d. scores st x = Some d \<Longrightarrow> \<exists>d'. scores st1 x = Some d' \<and> d' \<le> d"
    using relax_settling [OF Cons.prems(1), of v w] Cons.prems(2) e by auto
  obtain st' where s2: "relax_all s node ns es st1 = Some st'" "settling G s X node ns st'" "visited st' = visited st1"
    "\<forall>(v, w)\<in>set es. \<exists>d. scores st' v = Some d \<and> d \<le> ns + w"
    "\<And>x d. scores st1 x = Some d \<Longrightarrow> \<exists>d'. scores st' x = Some d' \<and> d' \<le> d"
    using Cons.IH [OF s1(2)] Cons.prems(2) by auto
  have mono: "\<exists>d'. scores st' x = Some d' \<and> d' \<le> d" if "scores st x = Some d" for x d
    using s1(5) [OF that] s2(5) order_trans by blast
  have "\<exists>d. scores st' v = Some d \<and> d \<le> ns + w"
    using s1(4) s2(5) order_trans by blast
  then show ?case using s1 s2 e mono by auto
qed simp


section \<open>The loop\<close>

context min_heap
begin

lemma pop_visited_inv:
  assumes "search_inv G s (set (visited st)) st" and "pop (visit_next st) = Some (best, rest)"
    and "snd best \<in> set (visited st)"
  shows "search_inv G s (set (visited st)) (st\<lparr>visit_next := rest\<rparr>)"
proof -
  note I = search_invD [OF assms(1)] and P = pop_Some [OF assms(2)]
  show ?thesis
  proof (rule search_invI)
    show "v \<in> set (visited st) \<or> (d, v) \<in> set (visit_next (st\<lparr>visit_next := rest\<rparr>))"
      if "scores (st\<lparr>visit_next := rest\<rparr>) v = Some d" for v d
      using I(4) [of v d] that P(1) assms(3) by auto
    show "\<exists>d. scores (st\<lparr>visit_next := rest\<rparr>) u = Some d \<and> (\<forall>x\<in>set (visit_next (st\<lparr>visit_next := rest\<rparr>)). d \<le> fst x)"
      if "u \<in> set (visited st)" for u
      using that P(1) I(6) [of u] by auto
  qed (use I P(1) in \<open>auto simp: hop_ok_def\<close>)
qed

lemma pop_unvisited_settling:
  assumes "search_inv G s (set (visited st)) st" and "pop (visit_next st) = Some (best, rest)"
    and "snd best \<notin> set (visited st)"
  shows "settling G s (insert (snd best) (set (visited st))) (snd best) (fst best) (st\<lparr>visit_next := rest\<rparr>)"
proof -
  note I = search_invD [OF assms(1)] and P = pop_Some [OF assms(2)]
  have b: "best \<in> set (visit_next st)" using P(1) by simp
  obtain d where d: "scores st (snd best) = Some d" "d \<le> fst best" using I(5) [OF b] by blast
  then have "(d, snd best) \<in> set (visit_next st)" using I(4) [OF d(1)] assms(3) by simp
  then have ns: "scores st (snd best) = Some (fst best)" using P(3) [of "(d, snd best)"] d by simp
  have "search_inv G s (insert (snd best) (set (visited st))) (st\<lparr>visit_next := rest\<rparr>)"
  proof (rule search_invI)
    show "v \<in> insert (snd best) (set (visited st)) \<or> (d, v) \<in> set (visit_next (st\<lparr>visit_next := rest\<rparr>))"
      if "scores (st\<lparr>visit_next := rest\<rparr>) v = Some d" for v d
      using I(4) [of v d] that P(1) by auto
    show "\<exists>d. scores (st\<lparr>visit_next := rest\<rparr>) u = Some d \<and> (\<forall>x\<in>set (visit_next (st\<lparr>visit_next := rest\<rparr>)). d \<le> fst x)"
      if "u \<in> insert (snd best) (set (visited st))" for u
      using that ns P(1,3) I(6) [of u] by (cases "u = snd best") auto
  qed (use I P(1) in \<open>auto simp: hop_ok_def\<close>)
  moreover have "\<exists>d. scores st u = Some d \<and> d \<le> fst best" if "u \<in> set (visited st)" for u
    using I(6) [OF that] b by blast
  ultimately show ?thesis using ns by (auto simp: settling_def)
qed

lemma settle_node:
  assumes "settling G s (insert node (set (visited st))) node ns st" and "node \<notin> set (visited st)"
    and "\<forall>(v, w)\<in>set (G node). \<exists>d. scores st v = Some d \<and> d \<le> ns + w"
  shows "search_inv G s (set (visited (st\<lparr>visited := node # visited st\<rparr>))) (st\<lparr>visited := node # visited st\<rparr>)"
proof -
  have inv: "search_inv G s (insert node (set (visited st))) st" and ns: "scores st node = Some ns"
    using assms(1) by (auto simp: settling_def)
  note I = search_invD [OF inv]
  show ?thesis
  proof (rule search_invI)
    show "\<exists>du dv. scores (st\<lparr>visited := node # visited st\<rparr>) u = Some du \<and>
        scores (st\<lparr>visited := node # visited st\<rparr>) v = Some dv \<and> dv \<le> du + w"
      if "u \<in> set (visited (st\<lparr>visited := node # visited st\<rparr>))" "(v, w) \<in> set (G u)" for u v w
      using that I(7) [of u v w] assms(3) ns by (cases "u = node") auto
  qed (use I in \<open>auto simp: hop_ok_def\<close>)
qed

lemma search_loop_correct:
  assumes "finite N" and "s \<in> N" and closed: "\<And>u x w. u \<in> N \<Longrightarrow> (x, w) \<in> set (G u) \<Longrightarrow> x \<in> N"
  shows "search_inv G s (set (visited st)) st \<Longrightarrow>
   \<exists>st'. search_loop pop G s st = Some st' \<and> search_inv G s (set (visited st')) st' \<and> visit_next st' = []"
proof (induction st rule: wf_induct [OF wf_measures, of "[\<lambda>st. card (N - set (visited st)), \<lambda>st. length (visit_next st)]"])
  case (1 st)
  show ?case
  proof (cases "pop (visit_next st)")
    case None
    moreover have "visit_next st = []" using None pop_None by blast
    ultimately show ?thesis using 1(2) by (subst search_loop.simps) simp
  next
    case (Some a)
    obtain best rest where b: "pop (visit_next st) = Some (best, rest)" using Some by (cases a) auto
    let ?st1 = "st\<lparr>visit_next := rest\<rparr>"
    show ?thesis
    proof (cases "snd best \<in> set (visited st)")
      case True
      have "search_inv G s (set (visited ?st1)) ?st1"
        using pop_visited_inv [OF 1(2) b True] by simp
      moreover have "(?st1, st) \<in> measures [\<lambda>st. card (N - set (visited st)), \<lambda>st. length (visit_next st)]"
        using pop_Some(2) [OF b] by (simp add: measures_def)
      ultimately show ?thesis
        using 1(1) b True by (subst search_loop.simps) simp
    next
      case False
      obtain st2 where st2: "relax_all s (snd best) (fst best) (G (snd best)) ?st1 = Some st2"
        "settling G s (insert (snd best) (set (visited st))) (snd best) (fst best) st2" "visited st2 = visited st"
        "\<forall>(v, w)\<in>set (G (snd best)). \<exists>d. scores st2 v = Some d \<and> d \<le> fst best + w"
        using relax_all_settling [OF pop_unvisited_settling [OF 1(2) b False], of "G (snd best)"] by auto
      let ?st3 = "st2\<lparr>visited := snd best # visited st2\<rparr>"
      have inv3: "search_inv G s (set (visited ?st3)) ?st3"
        using settle_node [of G s "snd best" st2 "fst best"] st2 False by simp
      have "scores st (snd best) \<noteq> None"
        using search_invD(5) [OF 1(2), of best] pop_Some(1) [OF b] by auto
      then obtain d where d: "scores st (snd best) = Some d" by blast
      have "snd best \<in> N"
        using search_invD(2) [OF 1(2) d] hop_path_cost path_in_nodes [OF _ assms(2) closed] assms(2)
        by (fastforce simp: hop_ok_def split: if_splits)
      then have "card (N - set (visited ?st3)) < card (N - set (visited st))"
        using assms(1) False st2(3) by (intro psubset_card_mono) auto
      then have "(?st3, st) \<in> measures [\<lambda>st. card (N - set (visited st)), \<lambda>st. length (visit_next st)]"
        by (simp add: measures_def)
      then obtain st' where "search_loop pop G s ?st3 = Some st'" "search_inv G s (set (visited st')) st'"
          "visit_next st' = []"
        using 1(1) inv3 by blast
      then show ?thesis using b False st2(1) by (subst search_loop.simps) simp
    qed
  qed
qed

lemma final_scores_optimal:
  assumes "search_inv G s (set (visited st)) st" and "visit_next st = []"
  shows "path_cost G s v c \<Longrightarrow> \<exists>d. scores st v = Some d \<and> d \<le> c"
proof (induction rule: path_cost.induct)
  case path_here
  then show ?case using search_invD(1) [OF assms(1)] by simp
next
  case (path_edge u c v w)
  then obtain d where d: "scores st u = Some d" "d \<le> c" by blast
  then have "u \<in> set (visited st)" using search_invD(4) [OF assms(1) d(1)] assms(2) by simp
  then show ?case using search_invD(7) [OF assms(1) _ path_edge.hyps(2)] d by fastforce
qed

end

section \<open>Correctness\<close>


definition demo_graph :: "nat graph" where
  "demo_graph u = (if u = 0 then [(1, 5), (2, 1)] else if u = 2 then [(1, 2), (3, 9)] else if u = 1 then [(3, 1)] else [])"


end
