(* ===== verification/Compressor.thy ===== *)
theory Compressor
  imports Encryptor
begin

text \<open>
  Payload compression: \<open>easytier-core/src/packet/compressor.rs\<close> and \<open>packet/compressor/zstd.rs\<close>.

  The bulk compressor of the \<open>zstd\<close> crate is the record \<open>zstd_codec\<close>; a build without the feature has
  no codec, which is the value \<open>None\<close> of the argument \<open>Z\<close>. The crate's documented behaviour is
  \<open>zstd_correct\<close>: decompressing into a buffer that is large enough gives the data back, and a smaller
  buffer is reported as too small. Buffer lengths are below \<open>2 ^ 59\<close>, as every allocation is, so the
  products of \<open>decompress\<close> do not overflow. An operation that fails does so before it touches the packet.
\<close>

section \<open>The codec\<close>

datatype zstd_result = ZstdOk bytes | ZstdTooSmall | ZstdError

record zstd_codec =
  bulk_compress :: "bytes \<Rightarrow> bytes option"
  bulk_decompress :: "bytes \<Rightarrow> nat \<Rightarrow> zstd_result"

definition zstd_correct :: "zstd_codec \<Rightarrow> bool" where
  "zstd_correct z \<longleftrightarrow>
     (\<forall>data buf. bulk_compress z data = Some buf \<longrightarrow>
        (\<forall>cap. bulk_decompress z buf cap = (if length data \<le> cap then ZstdOk data else ZstdTooSmall)))"

datatype compress_error =
    CompressFailed
  | DecompressFailed
  | DecompressAttempts compressor_algo
  | CompressionUnavailable compressor_algo
  | CompressorTailMissing nat
  | UnknownCompressor u8
  | DecompressedLength nat nat

definition zstd_compress :: "zstd_codec option \<Rightarrow> bytes \<Rightarrow> compressor_algo \<Rightarrow> compress_error + bytes" where
  "zstd_compress Z data algo =
     (case Z of
        None \<Rightarrow> Inl (CompressionUnavailable algo)
      | Some z \<Rightarrow> (case bulk_compress z data of None \<Rightarrow> Inl CompressFailed | Some buf \<Rightarrow> Inr buf))"

text \<open>The buffer size of attempt \<open>i\<close>, and the attempts from \<open>i\<close> on; there are five.\<close>

definition attempt_len :: "bytes \<Rightarrow> nat \<Rightarrow> nat" where
  "attempt_len data i =
     (let len = length data * 2 ^ i in if i = 5 \<and> len < 64 * 1024 then 64 * 1024 else len)"

fun decompress_attempts :: "zstd_codec \<Rightarrow> bytes \<Rightarrow> compressor_algo \<Rightarrow> nat list \<Rightarrow> compress_error + bytes" where
  "decompress_attempts z data algo [] = Inl (DecompressAttempts algo)"
| "decompress_attempts z data algo (i # is) =
     (case bulk_decompress z data (attempt_len data i) of
        ZstdOk buf \<Rightarrow> Inr buf
      | ZstdTooSmall \<Rightarrow> decompress_attempts z data algo is
      | ZstdError \<Rightarrow> Inl DecompressFailed)"

definition zstd_decompress :: "zstd_codec option \<Rightarrow> bytes \<Rightarrow> compressor_algo \<Rightarrow> compress_error + bytes" where
  "zstd_decompress Z data algo =
     (case Z of
        None \<Rightarrow> Inl (CompressionUnavailable algo)
      | Some z \<Rightarrow> decompress_attempts z data algo [1..<6])"

definition compress_raw :: "zstd_codec option \<Rightarrow> bytes \<Rightarrow> compressor_algo \<Rightarrow> compress_error + bytes" where
  "compress_raw Z data algo = (case algo of ZstdDefault \<Rightarrow> zstd_compress Z data algo | NoCompressor \<Rightarrow> Inr data)"

definition decompress_raw :: "zstd_codec option \<Rightarrow> bytes \<Rightarrow> compressor_algo \<Rightarrow> compress_error + bytes" where
  "decompress_raw Z data algo = (case algo of ZstdDefault \<Rightarrow> zstd_decompress Z data algo | NoCompressor \<Rightarrow> Inr data)"

section \<open>Packets\<close>

definition truncate_and_extend :: "bytes \<Rightarrow> zcpacket \<Rightarrow> zcpacket" where
  "truncate_and_extend new p = p\<lparr>inner := take (payload_offset p) (inner p) @ new\<rparr>"

definition compress :: "zstd_codec option \<Rightarrow> compressor_algo \<Rightarrow> zcpacket \<Rightarrow> (compress_error + zcpacket) may_panic" where
  "compress Z algo p =
     (if algo = NoCompressor then Some (Inr p)
      else do {
        pm_header \<leftarrow> peer_manager_header p;
        if is_compressed pm_header then Some (Inr p)
        else do {
          pl \<leftarrow> payload p;
          case compress_raw Z pl algo of
            Inl e \<Rightarrow> Some (Inl e)
          | Inr buf \<Rightarrow>
              if unat (hdr_len pm_header) < length buf + COMPRESSOR_TAIL_SIZE then Some (Inr p)
              else do {
                q \<leftarrow> mut_peer_manager_header (set_compressed True) p;
                Some (Inr (truncate_and_extend (buf @ [compressor_tail_new algo]) q))
              }
        }
      })"

definition decompress :: "zstd_codec option \<Rightarrow> zcpacket \<Rightarrow> (compress_error + zcpacket) may_panic" where
  "decompress Z p = do {
     pm_header \<leftarrow> peer_manager_header p;
     if \<not> is_compressed pm_header then Some (Inr p)
     else do {
       pl \<leftarrow> payload p;
       if length pl < COMPRESSOR_TAIL_SIZE then Some (Inl (CompressorTailMissing (length pl)))
       else do {
         let text_len = length pl - COMPRESSOR_TAIL_SIZE;
         tail \<leftarrow> ref_from_suffix COMPRESSOR_TAIL_SIZE hd pl;
         case compressor_tail_get_algo tail of
           None \<Rightarrow> Some (Inl (UnknownCompressor tail))
         | Some algo \<Rightarrow>
             (case decompress_raw Z (take text_len pl) algo of
                Inl e \<Rightarrow> Some (Inl e)
              | Inr buf \<Rightarrow>
                  if length buf \<noteq> unat (hdr_len pm_header)
                  then Some (Inl (DecompressedLength (length buf) (unat (hdr_len pm_header))))
                  else do {
                    q \<leftarrow> mut_peer_manager_header (set_compressed False) p;
                    Some (Inr (truncate_and_extend buf q))
                  })
       }
     }
   }"

section \<open>What decompression reaches\<close>

text \<open>The largest buffer that the five attempts offer.\<close>

definition decompress_reach :: "bytes \<Rightarrow> nat" where
  "decompress_reach buf = max (length buf * 32) (64 * 1024)"

lemma attempt_len_le_reach: "i \<in> {1..5} \<Longrightarrow> attempt_len buf i \<le> decompress_reach buf"
proof -
  assume i: "i \<in> {1..5}"
  then have "(2::nat) ^ i \<le> 2 ^ 5" by (intro power_increasing) auto
  then have "length buf * 2 ^ i \<le> length buf * 32" by simp
  then show ?thesis
    unfolding attempt_len_def decompress_reach_def Let_def by (simp only: le_max_iff_disj split: if_split) simp
qed

lemma decompress_attempts_spec:
  assumes "zstd_correct z" and "bulk_compress z data = Some buf"
  shows "decompress_attempts z buf algo is =
    (if \<exists>i\<in>set is. length data \<le> attempt_len buf i then Inr data else Inl (DecompressAttempts algo))"
proof -
  have "bulk_decompress z buf cap = (if length data \<le> cap then ZstdOk data else ZstdTooSmall)" for cap
    using assms by (auto simp: zstd_correct_def)
  then show ?thesis by (induction "is") auto
qed

text \<open>What was compressed is recovered exactly when it is within reach; beyond it the attempts run out.\<close>

lemma zstd_decompress_compressed:
  assumes "zstd_correct z" and "bulk_compress z data = Some buf"
  shows "zstd_decompress (Some z) buf algo =
    (if length data \<le> decompress_reach buf then Inr data else Inl (DecompressAttempts algo))"
proof -
  have "(\<exists>i\<in>set [1..<6]. length data \<le> attempt_len buf i) \<longleftrightarrow> length data \<le> decompress_reach buf"
  proof
    assume "\<exists>i\<in>set [1..<6]. length data \<le> attempt_len buf i"
    then obtain i where "i \<in> {1..5}" "length data \<le> attempt_len buf i" by fastforce
    then show "length data \<le> decompress_reach buf" using attempt_len_le_reach [of i buf] by linarith
  next
    assume "length data \<le> decompress_reach buf"
    then have "length data \<le> attempt_len buf 5" by (auto simp: attempt_len_def decompress_reach_def Let_def max_def split: if_splits)
    then show "\<exists>i\<in>set [1..<6]. length data \<le> attempt_len buf i" by force
  qed
  then show ?thesis by (simp add: zstd_decompress_def decompress_attempts_spec [OF assms])
qed

lemma is_compressed_set_compressed [simp]: "is_compressed (set_compressed b h) = b"
  by (simp add: is_compressed_def set_compressed_def flag_masks flags_contains_bit bit_flags_insert bit_flags_remove)

lemma set_compressed_undo:
  assumes "\<not> is_compressed h"
  shows "set_compressed False (set_compressed True h) = h"
proof -
  have "flags_remove (flags_insert (flags h) COMPRESSED) COMPRESSED = flags h"
    using assms by (intro bit_word_eqI)
      (auto simp: is_compressed_def flag_masks flags_contains_bit bit_flags_insert bit_flags_remove)
  then show ?thesis by (simp add: set_compressed_def)
qed

lemma set_compressed_fields [simp]:
  "from_peer_id (set_compressed b h) = from_peer_id h" "to_peer_id (set_compressed b h) = to_peer_id h"
  "hdr_packet_type (set_compressed b h) = hdr_packet_type h" "hdr_len (set_compressed b h) = hdr_len h"
  by (simp_all add: set_compressed_def)

lemma truncate_and_extend_zc_make [simp]:
  "zc_prefix_ok t pre \<Longrightarrow> truncate_and_extend new (zc_make t pre h body) = zc_make t pre h new"
  by (simp add: truncate_and_extend_def zc_make_def zc_prefix_ok_def payload_offset_def payload_after_header)

lemma ref_from_suffix_hd_snoc [simp]: "ref_from_suffix COMPRESSOR_TAIL_SIZE hd (xs @ [b]) = Some b"
  by (simp add: ref_from_suffix_def COMPRESSOR_TAIL_SIZE_def)

text \<open>Both operations on a packet in normal form.\<close>

lemma compress_zc_make:
  assumes "zc_prefix_ok t pre" and "\<not> is_compressed h"
  shows "compress Z ZstdDefault (zc_make t pre h body) =
    Some (case zstd_compress Z body ZstdDefault of
            Inl e \<Rightarrow> Inl e
          | Inr buf \<Rightarrow> Inr (if unat (hdr_len h) < length buf + 1 then zc_make t pre h body
                          else zc_make t pre (set_compressed True h) (buf @ [1])))"
  using assms by (simp add: compress_def compress_raw_def COMPRESSOR_TAIL_SIZE_def compressor_tail_new_def split: sum.split)

lemma decompress_zc_make:
  assumes "zc_prefix_ok t pre" and "is_compressed h"
  shows "decompress Z (zc_make t pre h (buf @ [1])) =
    Some (case zstd_decompress Z buf ZstdDefault of
            Inl e \<Rightarrow> Inl e
          | Inr data \<Rightarrow> if length data \<noteq> unat (hdr_len h) then Inl (DecompressedLength (length data) (unat (hdr_len h)))
                       else Inr (zc_make t pre (set_compressed False h) data))"
  using assms ref_from_suffix_hd_snoc [of buf 1]
  by (simp add: decompress_def decompress_raw_def COMPRESSOR_TAIL_SIZE_def compressor_tail_get_algo_def split: sum.split)

section \<open>Round trip\<close>


text \<open>A run-length coder that meets the contract of the codec.\<close>

definition is_run :: "bytes \<Rightarrow> bool" where
  "is_run data \<longleftrightarrow> data \<noteq> [] \<and> length data < 2 ^ 32 \<and> data = replicate (length data) (hd data)"

definition run_decode :: "bytes \<Rightarrow> bytes" where
  "run_decode buf = (case buf of
       [] \<Rightarrow> []
     | x # xs \<Rightarrow> if x = 1 then replicate (unat (u32_of_le (take 4 xs))) (xs ! 4) else xs)"

definition run_encode :: "bytes \<Rightarrow> bytes" where
  "run_encode data = (if is_run data then 1 # u32_le (word_of_nat (length data)) @ [hd data] else 0 # data)"

definition run_zstd :: zstd_codec where
  "run_zstd = \<lparr>bulk_compress = (\<lambda>data. Some (run_encode data)),
     bulk_decompress = (\<lambda>buf cap. if length (run_decode buf) \<le> cap then ZstdOk (run_decode buf) else ZstdTooSmall)\<rparr>"

lemma run_decode_encode: "run_decode (run_encode data) = data"
proof (cases "is_run data")
  case True
  then have "unat (word_of_nat (length data) :: u32) = length data"
    by (simp add: is_run_def unat_of_nat take_bit_eq_mod)
  then have "run_decode (1 # u32_le (word_of_nat (length data)) @ [hd data]) = replicate (length data) (hd data)"
    by (simp add: run_decode_def nth_append)
  then show ?thesis using True by (simp add: is_run_def run_encode_def)
qed (simp add: run_decode_def run_encode_def)

lemma run_zstd_correct: "zstd_correct run_zstd"
  by (simp add: zstd_correct_def run_zstd_def run_decode_encode)

lemma run_encode_replicate:
  "0 < n \<Longrightarrow> n < 2 ^ 32 \<Longrightarrow> run_encode (replicate n b) = 1 # u32_le (word_of_nat n) @ [b]"
  by (simp add: run_encode_def is_run_def)

definition zeros_packet :: zcpacket where
  "zeros_packet = zc_make DummyTunnel [] \<lparr>from_peer_id = 1, to_peer_id = 2, hdr_packet_type = 1, flags = 0,
     forward_counter = 1, reserved = 0, hdr_len = 8\<rparr> (replicate 8 0)"

lemma u32_le_8: "u32_le 8 = [8, 0, 0, 0]"
  by code_simp


end
