(* ===== verification/Rpc_Packet.thy ===== *)
theory Rpc_Packet
  imports Compressor
begin

text \<open>
  RPC messages on the wire: \<open>easytier-core/src/rpc/packet.rs\<close>.

  A message is compressed when that pays, cut into pieces that fit a UDP datagram, and merged again by
  \<open>PacketMerger\<close> whatever the order of arrival. The protobuf code is generated at build time and enters
  as the record \<open>rpc_codec\<close>; what is relied on is \<open>rpc_codec_ok\<close>: decoding undoes encoding, the encoded
  length is the length of the encoding, a body costs its tag, its length prefix and its bytes, and larger
  piece numbers never need fewer bytes. Time is in seconds and an argument.
\<close>

section \<open>Messages\<close>

record rpc_descriptor =
  domain_name :: string
  proto_name :: string
  service_name :: string
  method_index :: u32

record rpc_compression_info =
  ci_algo :: u32
  ci_accepted_algo :: u32

record rpc_packet =
  rp_from_peer :: u32
  rp_to_peer :: u32
  rp_transaction_id :: u64
  rp_descriptor :: "rpc_descriptor option"
  rp_body :: bytes
  rp_is_request :: bool
  rp_total_pieces :: u32
  rp_piece_idx :: u32
  rp_trace_id :: u32
  rp_compression_info :: "rpc_compression_info option"

definition rpc_packet_default :: rpc_packet where
  "rpc_packet_default = \<lparr>rp_from_peer = 0, rp_to_peer = 0, rp_transaction_id = 0, rp_descriptor = None,
     rp_body = [], rp_is_request = False, rp_total_pieces = 0, rp_piece_idx = 0, rp_trace_id = 0,
     rp_compression_info = None\<rparr>"

text \<open>Enumeration values travel as integers; an unknown one reads as the default \<open>Invalid\<close>.\<close>

primrec pb_code :: "compression_algo_pb \<Rightarrow> u32" where
  "pb_code PbInvalid = 0"
| "pb_code PbNone = 1"
| "pb_code PbZstd = 2"

definition pb_of_code :: "u32 \<Rightarrow> compression_algo_pb" where
  "pb_of_code c = (if c = 1 then PbNone else if c = 2 then PbZstd else PbInvalid)"

lemma pb_of_code_code [simp]: "pb_of_code (pb_code a) = a"
  by (cases a) (simp_all add: pb_of_code_def)

datatype rpc_error =
    ExecutionError string
  | CompressionError compress_error
  | DecodeError
  | EncodeError
  | InvalidMethodIndex u8 string
  | InvalidServiceKey string string
  | MalformatRpcPacket string
  | RpcTimeout
  | TunnelError string
  | Shutdown

section \<open>Compression of a message\<close>

definition accepted_compression_algo :: "zstd_codec option \<Rightarrow> compression_algo_pb" where
  "accepted_compression_algo Z = (if algo_is_available (Z \<noteq> None) ZstdDefault then PbZstd else PbNone)"

definition compress_packet ::
  "zstd_codec option \<Rightarrow> compression_algo_pb \<Rightarrow> bytes \<Rightarrow> (rpc_error + bytes \<times> compression_algo_pb) may_panic" where
  "compress_packet Z accepted content =
     (let algo = (case algo_try_from_pb accepted of
                    Inl _ \<Rightarrow> NoCompressor
                  | Inr a \<Rightarrow> if algo_is_available (Z \<noteq> None) a then a else NoCompressor)
      in case compress_raw Z content algo of
           Inl e \<Rightarrow> Some (Inl (CompressionError e))
         | Inr compressed \<Rightarrow>
             if length content \<le> length compressed then Some (Inr (content, PbNone))
             else (case pb_try_from_algo algo of
                     Inr pb \<Rightarrow> Some (Inr (compressed, pb))
                   | Inl _ \<Rightarrow> panic))"

definition decompress_packet :: "zstd_codec option \<Rightarrow> compression_algo_pb \<Rightarrow> bytes \<Rightarrow> rpc_error + bytes" where
  "decompress_packet Z pb content =
     (case algo_try_from_pb pb of
        Inl _ \<Rightarrow> Inl (ExecutionError ''invalid compression algorithm'')
      | Inr algo \<Rightarrow> (case decompress_raw Z content algo of
                      Inl e \<Rightarrow> Inl (CompressionError e)
                    | Inr data \<Rightarrow> Inr data))"

section \<open>Merging\<close>

record packet_merger =
  first_piece :: "rpc_packet option"
  pieces :: "rpc_packet list"
  last_updated :: nat

definition merger_new :: "nat \<Rightarrow> packet_merger" where
  "merger_new now = \<lparr>first_piece = None, pieces = [], last_updated = now\<rparr>"

definition try_merge_pieces :: "packet_merger \<Rightarrow> rpc_packet option" where
  "try_merge_pieces m =
     (if first_piece m = None \<or> pieces m = [] then None
      else if list_ex (\<lambda>p. rp_total_pieces p = 0) (pieces m) then None
      else Some ((pieces m ! 0)\<lparr>rp_total_pieces := 1, rp_piece_idx := 0,
                                rp_body := concat (map rp_body (pieces m))\<rparr>))"

definition vec_resize :: "nat \<Rightarrow> 'a \<Rightarrow> 'a list \<Rightarrow> 'a list" where
  "vec_resize n d xs = take n xs @ replicate (n - length xs) d"

definition feed ::
  "nat \<Rightarrow> rpc_packet \<Rightarrow> packet_merger \<Rightarrow> ((rpc_error + rpc_packet option) \<times> packet_merger) may_panic" where
  "feed now p m =
     (let total_n = rp_total_pieces p; idx = rp_piece_idx p
      in if total_n = 0 \<and> idx = 0 then Some (Inr (Some p), m)
         else if idx = 0 \<and> rp_descriptor p = None
         then Some (Inl (MalformatRpcPacket ''descriptor is missing''), m)
         else if total_n > 32 * 1024 \<or> total_n = 0
         then Some (Inl (MalformatRpcPacket ''total_pieces is invalid''), m)
         else if total_n \<le> idx then Some (Inl (MalformatRpcPacket ''piece_idx >= total_pieces''), m)
         else
           let m1 = (case first_piece m of
                       None \<Rightarrow> m\<lparr>first_piece := Some p, pieces := []\<rparr>
                     | Some f \<Rightarrow>
                         if rp_transaction_id f \<noteq> rp_transaction_id p \<or> rp_from_peer f \<noteq> rp_from_peer p
                         then m\<lparr>first_piece := Some p, pieces := []\<rparr> else m);
               ps = vec_resize (unat total_n) rpc_packet_default (pieces m1)
           in if unat idx < length ps
              then (let m2 = m1\<lparr>pieces := ps[unat idx := p], last_updated := now\<rparr>
                    in Some (Inr (try_merge_pieces m2), m2))
              else panic)"

section \<open>Splitting\<close>

record build_args =
  ba_from_peer :: u32
  ba_to_peer :: u32
  ba_rpc_desc :: rpc_descriptor
  ba_transaction_id :: u64
  ba_is_req :: bool
  ba_content :: bytes
  ba_trace_id :: u32
  ba_compression_info :: rpc_compression_info

record rpc_codec =
  length_delimiter_len :: "nat \<Rightarrow> nat"
  encoded_len :: "rpc_packet \<Rightarrow> nat"
  encode :: "rpc_packet \<Rightarrow> bytes"
  decode :: "bytes \<Rightarrow> rpc_packet option"

definition RPC_PACKET_UDP_PAYLOAD_BUDGET :: nat where
  "RPC_PACKET_UDP_PAYLOAD_BUDGET = 1300"

definition udp_rpc_tunnel_overhead :: nat where
  "udp_rpc_tunnel_overhead = payload_off (get_packet_offsets UDP) + TAIL_RESERVED_SIZE"

definition max_rpc_packet_encoded_len_for_udp :: nat where
  "max_rpc_packet_encoded_len_for_udp = RPC_PACKET_UDP_PAYLOAD_BUDGET - udp_rpc_tunnel_overhead"

definition build_rpc_piece :: "build_args \<Rightarrow> u32 \<Rightarrow> u32 \<Rightarrow> bytes \<Rightarrow> rpc_packet" where
  "build_rpc_piece args total_pieces idx body =
     \<lparr>rp_from_peer = ba_from_peer args, rp_to_peer = ba_to_peer args,
      rp_transaction_id = ba_transaction_id args,
      rp_descriptor = (if idx = 0 \<or> ci_algo (ba_compression_info args) = pb_code PbNone
                       then Some (ba_rpc_desc args) else None),
      rp_body = body, rp_is_request = ba_is_req args, rp_total_pieces = total_pieces, rp_piece_idx = idx,
      rp_trace_id = ba_trace_id args,
      rp_compression_info = (if idx = 0 then Some (ba_compression_info args) else None)\<rparr>"

definition pick_piece_len_for_budget :: "rpc_codec \<Rightarrow> nat \<Rightarrow> nat \<Rightarrow> nat \<Rightarrow> nat" where
  "pick_piece_len_for_budget K base remaining max_encoded_len =
     (if remaining = 0 then 0
      else if max_encoded_len < base + 3 then 1
      else
        let budget = max_encoded_len - base;
            reserved_for_body_header = 1 + length_delimiter_len K budget
        in max (min remaining (budget - reserved_for_body_header)) 1)"

lemma pick_piece_len_pos: "0 < remaining \<Longrightarrow> 0 < pick_piece_len_for_budget K base remaining mx"
  by (auto simp: pick_piece_len_for_budget_def Let_def max_def)

lemma pick_piece_len_le: "pick_piece_len_for_budget K base remaining mx \<le> remaining"
  by (auto simp: pick_piece_len_for_budget_def Let_def)

text \<open>The loop of \<open>split_rpc_content_for_udp_budget\<close> from an offset on; the first base length applies
  while nothing has been cut yet.\<close>

function split_loop :: "rpc_codec \<Rightarrow> nat \<Rightarrow> nat \<Rightarrow> nat \<Rightarrow> nat \<Rightarrow> nat \<Rightarrow> (nat \<times> nat) list" where
  "split_loop K base other mx total_n offset =
     (if offset < total_n
      then (let piece_len = pick_piece_len_for_budget K base (total_n - offset) mx
            in (offset, piece_len) # split_loop K other other mx total_n (offset + piece_len))
      else [])"
  by pat_completeness auto
termination
  by (relation "measure (\<lambda>(K, base, other, mx, total_n, offset). total_n - offset)")
    (use pick_piece_len_pos in \<open>auto intro!: diff_less_mono2\<close>)

declare split_loop.simps [simp del]

definition split_rpc_content_for_udp_budget :: "rpc_codec \<Rightarrow> build_args \<Rightarrow> (nat \<times> nat) list" where
  "split_rpc_content_for_udp_budget K args =
     (if ba_content args = [] then [(0, 0)]
      else
        let max_encoded_len = max max_rpc_packet_encoded_len_for_udp 1;
            first_piece_base_len = encoded_len K (build_rpc_piece args (- 1) 0 []);
            other_piece_base_len = encoded_len K (build_rpc_piece args (- 1) (- 1) [])
        in split_loop K first_piece_base_len other_piece_base_len max_encoded_len
             (length (ba_content args)) 0)"

text \<open>The messages of the pieces, and the packets that carry them.\<close>

fun build_pieces :: "build_args \<Rightarrow> u32 \<Rightarrow> nat \<Rightarrow> (nat \<times> nat) list \<Rightarrow> rpc_packet list may_panic" where
  "build_pieces args total_n idx [] = Some []"
| "build_pieces args total_n idx ((offset, len) # rest) = do {
     body \<leftarrow> slice_range offset (offset + len) (ba_content args);
     more \<leftarrow> build_pieces args total_n (idx + 1) rest;
     Some (build_rpc_piece args total_n (word_of_nat idx) body # more)
   }"

definition piece_packet :: "rpc_codec \<Rightarrow> (nat \<Rightarrow> u8) \<Rightarrow> build_args \<Rightarrow> rpc_packet \<Rightarrow> zcpacket may_panic" where
  "piece_packet K uninit args p =
     fill_peer_manager_hdr (ba_from_peer args) (ba_to_peer args)
       (packet_type_code (if ba_is_req args then RpcReq else RpcResp)) (new_with_payload uninit (encode K p))"

definition build_rpc_packet :: "rpc_codec \<Rightarrow> (nat \<Rightarrow> u8) \<Rightarrow> build_args \<Rightarrow> zcpacket list may_panic" where
  "build_rpc_packet K uninit args = do {
     let cuts = split_rpc_content_for_udp_budget K args;
     ps \<leftarrow> build_pieces args (word_of_nat (length cuts)) 0 cuts;
     those (map (piece_packet K uninit args) ps)
   }"

definition rpc_codec_ok :: "rpc_codec \<Rightarrow> bool" where
  "rpc_codec_ok K \<longleftrightarrow>
     (\<forall>p. decode K (encode K p) = Some p) \<and>
     (\<forall>p. length (encode K p) = encoded_len K p) \<and>
     (\<forall>p. encoded_len K p = encoded_len K (p\<lparr>rp_body := []\<rparr>) +
        (if rp_body p = [] then 0 else 1 + length_delimiter_len K (length (rp_body p)) + length (rp_body p))) \<and>
     (\<forall>p n n' i i'. n \<le> n' \<longrightarrow> i \<le> i' \<longrightarrow>
        encoded_len K (p\<lparr>rp_total_pieces := n, rp_piece_idx := i\<rparr>) \<le>
        encoded_len K (p\<lparr>rp_total_pieces := n', rp_piece_idx := i'\<rparr>)) \<and>
     (\<forall>a b. a \<le> b \<longrightarrow> length_delimiter_len K a \<le> length_delimiter_len K b) \<and>
     (\<forall>n<128. length_delimiter_len K n = 1) \<and> (\<forall>n. length_delimiter_len K n \<le> 10)"

lemma rpc_codec_okD:
  assumes "rpc_codec_ok K"
  shows "decode K (encode K p) = Some p" and "length (encode K p) = encoded_len K p"
    and "encoded_len K p = encoded_len K (p\<lparr>rp_body := []\<rparr>) +
        (if rp_body p = [] then 0 else 1 + length_delimiter_len K (length (rp_body p)) + length (rp_body p))"
    and "n \<le> n' \<Longrightarrow> i \<le> i' \<Longrightarrow> encoded_len K (p\<lparr>rp_total_pieces := n, rp_piece_idx := i\<rparr>) \<le>
        encoded_len K (p\<lparr>rp_total_pieces := n', rp_piece_idx := i'\<rparr>)"
    and "a \<le> b \<Longrightarrow> length_delimiter_len K a \<le> length_delimiter_len K b"
    and "length_delimiter_len K 1 = 1"
proof -
  note ok = assms [unfolded rpc_codec_ok_def]
  show "decode K (encode K p) = Some p" using ok by blast
  show "length (encode K p) = encoded_len K p" using ok by blast
  show "encoded_len K p = encoded_len K (p\<lparr>rp_body := []\<rparr>) +
        (if rp_body p = [] then 0 else 1 + length_delimiter_len K (length (rp_body p)) + length (rp_body p))"
    by (rule ok [THEN conjunct2, THEN conjunct2, THEN conjunct1, THEN spec])
  show "n \<le> n' \<Longrightarrow> i \<le> i' \<Longrightarrow> encoded_len K (p\<lparr>rp_total_pieces := n, rp_piece_idx := i\<rparr>) \<le>
        encoded_len K (p\<lparr>rp_total_pieces := n', rp_piece_idx := i'\<rparr>)" using ok by blast
  show "a \<le> b \<Longrightarrow> length_delimiter_len K a \<le> length_delimiter_len K b" using ok by blast
  show "length_delimiter_len K 1 = 1"
    by (rule ok [THEN conjunct2, THEN conjunct2, THEN conjunct2, THEN conjunct2, THEN conjunct2, THEN conjunct1, rule_format]) simp
qed

section \<open>The cuts\<close>

lemma split_loop_covers:
  assumes "offset \<le> total_n"
  shows "list_all (\<lambda>(o', l). o' + l \<le> total_n) (split_loop K base other mx total_n offset) \<and>
    (length content = total_n \<longrightarrow>
       concat (map (\<lambda>(o', l). take l (drop o' content)) (split_loop K base other mx total_n offset)) = drop offset content)"
  using assms
proof (induction K base other mx total_n offset rule: split_loop.induct)
  case (1 K base other mx total_n offset)
  show ?case
  proof (cases "offset < total_n")
    case True
    let ?l = "pick_piece_len_for_budget K base (total_n - offset) mx"
    have l: "offset + ?l \<le> total_n" using pick_piece_len_le [of K base "total_n - offset" mx] True by linarith
    note IH = 1(1) [OF True refl l]
    have "take ?l (drop offset content) @ drop (offset + ?l) content = drop offset content"
      using append_take_drop_id [of ?l "drop offset content"] by (simp add: add.commute)
    moreover have "split_loop K base other mx total_n offset =
        (offset, ?l) # split_loop K other other mx total_n (offset + ?l)"
      using True by (subst split_loop.simps) (simp add: Let_def)
    ultimately show ?thesis using l IH by auto
  next
    case False
    then have "split_loop K base other mx total_n offset = []" by (subst split_loop.simps) simp
    then show ?thesis using False 1(2) by simp
  qed
qed

lemma split_loop_nonempty: "offset < total_n \<Longrightarrow> split_loop K base other mx total_n offset \<noteq> []"
  by (subst split_loop.simps) (simp add: Let_def)

lemma split_covers:
  "list_all (\<lambda>(o', l). o' + l \<le> length (ba_content args)) (split_rpc_content_for_udp_budget K args)"
  "concat (map (\<lambda>(o', l). take l (drop o' (ba_content args))) (split_rpc_content_for_udp_budget K args)) = ba_content args"
  "split_rpc_content_for_udp_budget K args \<noteq> []"
  using split_loop_covers [of 0 "length (ba_content args)" _ _ _ _ "ba_content args"]
  by (auto simp: split_rpc_content_for_udp_budget_def Let_def split_loop_nonempty)

section \<open>The pieces\<close>

definition cut_piece :: "build_args \<Rightarrow> u32 \<Rightarrow> nat \<times> nat \<times> nat \<Rightarrow> rpc_packet" where
  "cut_piece args total_n = (\<lambda>(idx, o', l). build_rpc_piece args total_n (word_of_nat idx) (take l (drop o' (ba_content args))))"

lemma build_pieces_spec:
  assumes "list_all (\<lambda>(o', l). o' + l \<le> length (ba_content args)) cuts"
  shows "build_pieces args total_n idx cuts = Some (map (cut_piece args total_n) (enumerate idx cuts))"
  using assms
proof (induction cuts arbitrary: idx)
  case (Cons c cuts)
  then show ?case by (cases c) (simp add: slice_range_def cut_piece_def)
qed simp

text \<open>The pieces of a message: numbered from zero, all with the same key, the first with a descriptor.\<close>

definition message_pieces :: "u64 \<Rightarrow> u32 \<Rightarrow> rpc_packet list \<Rightarrow> bool" where
  "message_pieces tid peer ps \<longleftrightarrow> ps \<noteq> [] \<and> length ps \<le> 32 * 1024 \<and> rp_descriptor (ps ! 0) \<noteq> None \<and>
     (\<forall>i<length ps. rp_total_pieces (ps ! i) = word_of_nat (length ps) \<and> rp_piece_idx (ps ! i) = word_of_nat i \<and>
        rp_transaction_id (ps ! i) = tid \<and> rp_from_peer (ps ! i) = peer)"

lemma message_piecesD:
  assumes "message_pieces tid peer ps"
  shows "ps \<noteq> []" and "length ps \<le> 32 * 1024" and "rp_descriptor (ps ! 0) \<noteq> None"
    and "i < length ps \<Longrightarrow> rp_total_pieces (ps ! i) = word_of_nat (length ps)"
    and "i < length ps \<Longrightarrow> rp_piece_idx (ps ! i) = word_of_nat i"
    and "i < length ps \<Longrightarrow> rp_transaction_id (ps ! i) = tid"
    and "i < length ps \<Longrightarrow> rp_from_peer (ps ! i) = peer"
  using assms by (simp_all add: message_pieces_def)

definition merged :: "rpc_packet list \<Rightarrow> rpc_packet" where
  "merged ps = (ps ! 0)\<lparr>rp_total_pieces := 1, rp_piece_idx := 0, rp_body := concat (map rp_body ps)\<rparr>"

definition rpc_pieces :: "rpc_codec \<Rightarrow> build_args \<Rightarrow> rpc_packet list" where
  "rpc_pieces K args =
     (let cuts = split_rpc_content_for_udp_budget K args
      in map (cut_piece args (word_of_nat (length cuts))) (enumerate 0 cuts))"

lemma build_rpc_packet_pieces:
  "build_rpc_packet K uninit args = those (map (piece_packet K uninit args) (rpc_pieces K args))"
  by (simp add: build_rpc_packet_def rpc_pieces_def build_pieces_spec [OF split_covers(1)] Let_def)

lemma enumerate_eq_Nil [simp]: "enumerate n xs = [] \<longleftrightarrow> xs = []"
  by (cases xs) simp_all

lemma rpc_pieces_message:
  assumes "length (rpc_pieces K args) \<le> 32 * 1024"
  shows "message_pieces (ba_transaction_id args) (ba_from_peer args) (rpc_pieces K args)"
  using assms split_covers(3) [of K args]
  by (auto simp: message_pieces_def rpc_pieces_def Let_def cut_piece_def build_rpc_piece_def nth_enumerate_eq
      split: prod.split)

lemma bodies_of_cuts:
  "map rp_body (map (cut_piece args n) (enumerate idx cuts)) = map (\<lambda>(o', l). take l (drop o' (ba_content args))) cuts"
  by (induction cuts arbitrary: idx) (auto simp: cut_piece_def build_rpc_piece_def)

lemma merged_rpc_pieces: "merged (rpc_pieces K args) = build_rpc_piece args 1 0 (ba_content args)"
proof -
  let ?cuts = "split_rpc_content_for_udp_budget K args"
  have body: "concat (map rp_body (rpc_pieces K args)) = ba_content args"
    unfolding rpc_pieces_def Let_def bodies_of_cuts by (rule split_covers(2))
  have "rpc_pieces K args ! 0 = cut_piece args (word_of_nat (length ?cuts)) (0, ?cuts ! 0)"
    using split_covers(3) [of K args] by (simp add: rpc_pieces_def Let_def nth_enumerate_eq)
  then show ?thesis using body by (simp add: merged_def cut_piece_def build_rpc_piece_def split: prod.split)
qed

section \<open>The merger\<close>

text \<open>The state of a merger that holds the pieces with the numbers in \<open>S\<close>.\<close>

definition collecting :: "u64 \<Rightarrow> u32 \<Rightarrow> rpc_packet list \<Rightarrow> nat set \<Rightarrow> packet_merger \<Rightarrow> bool" where
  "collecting tid peer ps S m \<longleftrightarrow>
     (\<exists>f. first_piece m = Some f \<and> rp_transaction_id f = tid \<and>
          rp_from_peer f = peer) \<and>
     pieces m = map (\<lambda>i. if i \<in> S then ps ! i else rpc_packet_default) [0..<length ps]"

definition foreign_to :: "u64 \<Rightarrow> u32 \<Rightarrow> packet_merger \<Rightarrow> bool" where
  "foreign_to tid peer m \<longleftrightarrow> (\<forall>f. first_piece m = Some f \<longrightarrow>
     rp_transaction_id f \<noteq> tid \<or> rp_from_peer f \<noteq> peer)"

lemma unat_small: "n \<le> 32 * 1024 \<Longrightarrow> unat (word_of_nat n :: u32) = n"
  by (simp add: unat_of_nat take_bit_eq_mod)

lemma message_total_nonzero: "message_pieces tid peer ps \<Longrightarrow> (word_of_nat (length ps) :: u32) \<noteq> 0"
  using unat_small [of "length ps"] message_piecesD(1,2) by (metis length_0_conv unsigned_0)

lemma try_merge_collecting:
  assumes "message_pieces tid peer ps" and "collecting tid peer ps S m" and "S \<subseteq> {..<length ps}"
  shows "try_merge_pieces m = (if S = {..<length ps} then Some (merged ps) else None)"
proof -
  have tot: "rp_total_pieces (ps ! i) \<noteq> 0" if "i < length ps" for i
    using message_piecesD(4) [OF assms(1) that] message_total_nonzero [OF assms(1)] by simp
  have ps: "pieces m = map (\<lambda>i. if i \<in> S then ps ! i else rpc_packet_default) [0..<length ps]" "first_piece m \<noteq> None"
    "ps \<noteq> []" using message_piecesD(1) [OF assms(1)] assms(2) by (auto simp: collecting_def)
  show ?thesis
  proof (cases "S = {..<length ps}")
    case True
    have "pieces m = ps" unfolding ps(1) by (rule nth_equalityI) (simp_all add: True)
    moreover have "\<not> list_ex (\<lambda>p. rp_total_pieces p = 0) ps" using tot by (auto simp: list_ex_iff in_set_conv_nth)
    ultimately show ?thesis using True ps(2,3) by (simp add: try_merge_pieces_def merged_def)
  next
    case False
    then obtain i where "i < length ps" "i \<notin> S" using assms(3) by auto
    then have "list_ex (\<lambda>p. rp_total_pieces p = 0) (pieces m)"
      unfolding ps(1) list_ex_iff
      by (intro bexI [of _ rpc_packet_default]) (auto simp: rpc_packet_default_def)
    then show ?thesis using False by (simp add: try_merge_pieces_def)
  qed
qed

lemma feed_piece:
  assumes "message_pieces tid peer ps" and "i < length ps" and "S \<subseteq> {..<length ps}"
    and "collecting tid peer ps S m \<or> foreign_to tid peer m \<and> S = {}"
  obtains m' where "feed now (ps ! i) m =
      Some (Inr (if insert i S = {..<length ps} then Some (merged ps) else None), m')"
    and "collecting tid peer ps (insert i S) m'" and "last_updated m' = now"
proof -
  let ?p = "ps ! i" and ?n = "length ps"
  have n: "unat (word_of_nat ?n :: u32) = ?n" "unat (word_of_nat i :: u32) = i" "?n \<le> 32 * 1024"
    using assms(2) unat_small message_piecesD(2) [OF assms(1)] by simp_all
  have p: "rp_total_pieces ?p = word_of_nat ?n" "rp_piece_idx ?p = word_of_nat i"
      "rp_transaction_id ?p = tid" "rp_from_peer ?p = peer"
    using message_piecesD(4-7) [OF assms(1,2)] by simp_all
  have tests: "(word_of_nat ?n :: u32) \<noteq> 0" "\<not> (32 * 1024 :: u32) < word_of_nat ?n"
      "\<not> (word_of_nat ?n :: u32) \<le> word_of_nat i"
    using n assms(2) message_total_nonzero [OF assms(1)] by (simp_all add: word_less_nat_alt word_le_nat_alt)
  have "rp_descriptor ?p \<noteq> None" if "(word_of_nat i :: u32) = 0"
  proof -
    have "i = 0" using n(2) that by simp
    then show ?thesis using message_piecesD(3) [OF assms(1)] by simp
  qed
  then have desc: "\<not> ((word_of_nat i :: u32) = 0 \<and> rp_descriptor ?p = None)" by blast
  define m1 where "m1 = (case first_piece m of
                       None \<Rightarrow> m\<lparr>first_piece := Some ?p, pieces := []\<rparr>
                     | Some f \<Rightarrow>
                         if rp_transaction_id f \<noteq> rp_transaction_id ?p \<or> rp_from_peer f \<noteq> rp_from_peer ?p
                         then m\<lparr>first_piece := Some ?p, pieces := []\<rparr> else m)"
  define m2 where "m2 = m1\<lparr>pieces := (vec_resize ?n rpc_packet_default (pieces m1))[i := ?p], last_updated := now\<rparr>"
  have ps1: "vec_resize ?n rpc_packet_default (pieces m1) =
      map (\<lambda>j. if j \<in> S then ps ! j else rpc_packet_default) [0..<?n]"
    using assms(4)
  proof
    assume c: "collecting tid peer ps S m"
    then have "m1 = m" using p by (auto simp: m1_def collecting_def)
    then show ?thesis using c by (simp add: collecting_def vec_resize_def)
  next
    assume f: "foreign_to tid peer m \<and> S = {}"
    then have "pieces m1 = []" using p by (auto simp: m1_def foreign_to_def split: option.splits)
    then show ?thesis using f by (simp add: vec_resize_def map_replicate_trivial)
  qed
  have key: "\<exists>f. first_piece m1 = Some f \<and> rp_transaction_id f = tid \<and>
      rp_from_peer f = peer"
    using p by (auto simp: m1_def split: option.splits)
  have "pieces m2 = map (\<lambda>j. if j \<in> insert i S then ps ! j else rpc_packet_default) [0..<?n]"
    unfolding m2_def ps1 by (rule nth_equalityI) (use assms(2) in \<open>auto simp: nth_list_update\<close>)
  then have "collecting tid peer ps (insert i S) m2" using key by (simp add: collecting_def m2_def)
  moreover have "feed now ?p m = Some (Inr (try_merge_pieces m2), m2)"
    using tests desc p n assms(2) ps1 by (simp add: feed_def m1_def [symmetric] m2_def Let_def)
  ultimately show thesis
    using that [of m2] try_merge_collecting [OF assms(1)] assms(2,3) by (simp add: m2_def)
qed

text \<open>Feeding a sequence of packets, each with its time of arrival.\<close>

fun feed_all :: "(nat \<times> rpc_packet) list \<Rightarrow> packet_merger \<Rightarrow> ((rpc_error + rpc_packet option) list \<times> packet_merger) may_panic" where
  "feed_all [] m = Some ([], m)"
| "feed_all ((now, p) # ps) m = do {
     (r, m') \<leftarrow> feed now p m;
     (rs, m'') \<leftarrow> feed_all ps m';
     Some (r # rs, m'')
   }"

lemma feed_all_collecting:
  assumes "message_pieces tid peer ps" and "\<forall>(now, i)\<in>set arrivals. i < length ps" and "S \<subseteq> {..<length ps}"
    and "collecting tid peer ps S m \<or> foreign_to tid peer m \<and> S = {}"
  shows "\<exists>m'. feed_all (map (\<lambda>(now, i). (now, ps ! i)) arrivals) m =
    Some (map (\<lambda>k. Inr (if S \<union> snd ` set (take (Suc k) arrivals) = {..<length ps} then Some (merged ps) else None))
            [0..<length arrivals], m')"
  using assms(2-)
proof (induction arrivals arbitrary: S m)
  case (Cons a arrivals)
  obtain now i where a: "a = (now, i)" by (cases a)
  then have i: "i < length ps" using Cons.prems(1) by auto
  obtain m1 where m1: "feed now (ps ! i) m = Some (Inr (if insert i S = {..<length ps} then Some (merged ps) else None), m1)"
      "collecting tid peer ps (insert i S) m1"
    by (rule feed_piece [OF assms(1) i Cons.prems(2,3)])
  obtain m' where m': "feed_all (map (\<lambda>(now, i). (now, ps ! i)) arrivals) m1 =
    Some (map (\<lambda>k. Inr (if insert i S \<union> snd ` set (take (Suc k) arrivals) = {..<length ps} then Some (merged ps) else None))
            [0..<length arrivals], m')"
    using Cons.IH [of "insert i S" m1] Cons.prems(1,2) i m1(2) by auto
  have "[0..<length (a # arrivals)] = 0 # map Suc [0..<length arrivals]"
    by (simp add: upt_conv_Cons map_Suc_upt del: upt_Suc)
  then show ?case using m1(1) m' a by (auto simp: comp_def)
qed simp

lemma those_map_Some: "(\<And>x. x \<in> set xs \<Longrightarrow> f x = Some (g x)) \<Longrightarrow> those (map f xs) = Some (map g xs)"
  by (induction xs) auto

lemma those_Some_iff: "those xs = Some ys \<longleftrightarrow> xs = map Some ys"
proof (induction xs arbitrary: ys)
  case (Cons x xs)
  then show ?case by (cases x; cases ys) auto
qed auto

lemma piece_packet_spec:
  obtains q where "piece_packet K uninit args p = Some q" and "payload q = Some (encode K p)"
    and "length (inner q) = 36 + length (encode K p)" and "zc_type q = NIC"
proof -
  have "payload (new_with_payload uninit (encode K p)) = Some (encode K p)"
    by (simp add: inner_new_with_payload payload_Some_iff payload_offset_def wire_simps)
  then obtain q h where "piece_packet K uninit args p = Some q" "payload q = Some (encode K p)"
      "length (inner q) = length (inner (new_with_payload uninit (encode K p)))"
      "zc_type q = zc_type (new_with_payload uninit (encode K p))"
    unfolding piece_packet_def by (rule fill_peer_manager_hdr_spec)
  then show thesis by (intro that [of q]) (simp_all add: inner_new_with_payload)
qed

lemma build_rpc_packet_spec:
  obtains qs where "build_rpc_packet K uninit args = Some qs"
    and "map payload qs = map (\<lambda>p. Some (encode K p)) (rpc_pieces K args)"
proof -
  define g where "g p = the (piece_packet K uninit args p)" for p
  have g: "piece_packet K uninit args p = Some (g p) \<and> payload (g p) = Some (encode K p)" for p
  proof -
    obtain q where "piece_packet K uninit args p = Some q" "payload q = Some (encode K p)"
      by (rule piece_packet_spec)
    then show ?thesis by (simp add: g_def)
  qed
  then have "build_rpc_packet K uninit args = Some (map g (rpc_pieces K args))"
    unfolding build_rpc_packet_pieces by (intro those_map_Some) simp
  moreover have "map payload (map g (rpc_pieces K args)) = map (\<lambda>p. Some (encode K p)) (rpc_pieces K args)"
    unfolding map_map comp_def using g by metis
  ultimately show thesis by (rule that)
qed

section \<open>Correctness\<close>


section \<open>The size of the pieces\<close>

lemma pick_piece_fits:
  assumes "rpc_codec_ok K" and "base + 3 \<le> mx" and "0 < remaining"
    and "l = pick_piece_len_for_budget K base remaining mx"
  shows "base + (1 + length_delimiter_len K l + l) \<le> mx"
proof -
  let ?b = "mx - base"
  note mono = rpc_codec_okD(5) [OF assms(1)] and one = rpc_codec_okD(6) [OF assms(1)]
  have l: "l = max (min remaining (?b - (1 + length_delimiter_len K ?b))) 1"
    using assms(2-4) by (simp add: pick_piece_len_for_budget_def Let_def)
  show ?thesis
  proof (cases "l = 1")
    case True
    then show ?thesis using one assms(2) by simp
  next
    case False
    then have "l \<le> ?b - (1 + length_delimiter_len K ?b)" "1 \<le> l" using l by (auto simp: max_def split: if_splits)
    then show ?thesis using mono [of l ?b] assms(2) by linarith
  qed
qed

lemma split_loop_fits:
  assumes "rpc_codec_ok K" and "base + 3 \<le> mx" and "other + 3 \<le> mx"
    and "k < length (split_loop K base other mx total_n offset)"
    and "l = snd (split_loop K base other mx total_n offset ! k)"
  shows "(if k = 0 then base else other) + (1 + length_delimiter_len K l + l) \<le> mx"
  using assms
proof (induction K base other mx total_n offset arbitrary: k rule: split_loop.induct)
  case (1 K base other mx total_n offset)
  have lt: "offset < total_n" using 1(5) by (subst (asm) split_loop.simps) (auto split: if_splits)
  let ?l = "pick_piece_len_for_budget K base (total_n - offset) mx"
  have eq: "split_loop K base other mx total_n offset = (offset, ?l) # split_loop K other other mx total_n (offset + ?l)"
    using lt by (subst split_loop.simps) (simp add: Let_def)
  show ?case
  proof (cases k)
    case 0
    then show ?thesis using pick_piece_fits [OF 1(2,3), of "total_n - offset" l] lt 1(6) eq by simp
  next
    case (Suc j)
    then show ?thesis using 1(1) [OF lt refl 1(2) 1(4,4), of j] 1(5,6) eq by auto
  qed
qed

lemma rpc_piece_encoded_len:
  assumes "rpc_codec_ok K" and "length (rpc_pieces K args) \<le> 32 * 1024"
    and "encoded_len K (build_rpc_piece args (- 1) 0 []) + 3 \<le> max_rpc_packet_encoded_len_for_udp"
    and "encoded_len K (build_rpc_piece args (- 1) (- 1) []) + 3 \<le> max_rpc_packet_encoded_len_for_udp"
    and "k < length (rpc_pieces K args)"
  shows "encoded_len K (rpc_pieces K args ! k) \<le> max_rpc_packet_encoded_len_for_udp"
proof -
  let ?cuts = "split_rpc_content_for_udp_budget K args" and ?mx = max_rpc_packet_encoded_len_for_udp
  let ?n = "word_of_nat (length ?cuts) :: u32" and ?i = "word_of_nat k :: u32"
  let ?base = "if k = 0 then encoded_len K (build_rpc_piece args (- 1) 0 []) else encoded_len K (build_rpc_piece args (- 1) (- 1) [])"
  define body where "body = take (snd (?cuts ! k)) (drop (fst (?cuts ! k)) (ba_content args))"
  have k: "k < length ?cuts" "k \<le> 32 * 1024" using assms(2,5) by (simp_all add: rpc_pieces_def Let_def)
  have p: "rpc_pieces K args ! k = build_rpc_piece args ?n ?i body"
    using k by (simp add: rpc_pieces_def Let_def body_def cut_piece_def nth_enumerate_eq split: prod.split)
  have i: "?i = 0 \<longleftrightarrow> k = 0"
  proof
    assume "?i = 0"
    then have "unat ?i = 0" by simp
    then show "k = 0" unfolding unat_small [OF k(2)] .
  qed simp
  note mono = rpc_codec_okD(4) [OF assms(1)]
  have base: "encoded_len K (build_rpc_piece args ?n ?i []) \<le> ?base"
  proof (cases "k = 0")
    case True
    then show ?thesis using mono [of ?n "- 1" 0 0 "build_rpc_piece args 0 0 []"] by (simp add: build_rpc_piece_def)
  next
    case False
    then show ?thesis using mono [of ?n "- 1" ?i "- 1" "build_rpc_piece args 0 ?i []"] i
      by (simp add: build_rpc_piece_def)
  qed
  have body_cost: "encoded_len K (build_rpc_piece args ?n ?i body) = encoded_len K (build_rpc_piece args ?n ?i []) +
      (if body = [] then 0 else 1 + length_delimiter_len K (length body) + length body)"
    using rpc_codec_okD(3) [OF assms(1), of "build_rpc_piece args ?n ?i body"] by (simp add: build_rpc_piece_def)
  show ?thesis
  proof (cases "body = []")
    case True
    then show ?thesis using body_cost base assms(3,4) p by (auto split: if_splits)
  next
    case False
    then have cuts: "?cuts = split_loop K (encoded_len K (build_rpc_piece args (- 1) 0 []))
        (encoded_len K (build_rpc_piece args (- 1) (- 1) [])) ?mx (length (ba_content args)) 0"
      using assms(3) by (auto simp: split_rpc_content_for_udp_budget_def body_def Let_def max_def)
    have "fst (?cuts ! k) + snd (?cuts ! k) \<le> length (ba_content args)"
      using split_covers(1) [of args K] k by (auto simp: list_all_length case_prod_beta)
    then have "length body = snd (?cuts ! k)" by (simp add: body_def)
    then have "?base + (1 + length_delimiter_len K (length body) + length body) \<le> ?mx"
      using split_loop_fits [OF assms(1,3,4), of k "length (ba_content args)" 0 "length body"] k cuts by simp
    then show ?thesis using body_cost base p False by simp
  qed
qed

text \<open>C24. Every packet of a message fits a UDP datagram of 1300 bytes together with the tunnel headers and
  the encryption tail, as long as the descriptor leaves room for a byte of the body.\<close>

theorem pieces_fit_datagram:
  assumes "rpc_codec_ok K" and "build_rpc_packet K uninit args = Some qs" and "length qs \<le> 32 * 1024"
    and "encoded_len K (build_rpc_piece args (- 1) 0 []) + 3 \<le> max_rpc_packet_encoded_len_for_udp"
    and "encoded_len K (build_rpc_piece args (- 1) (- 1) []) + 3 \<le> max_rpc_packet_encoded_len_for_udp"
    and "q \<in> set qs" and "convert_type uninit UDP q = Some u"
  shows "length (inner u) + TAIL_RESERVED_SIZE \<le> RPC_PACKET_UDP_PAYLOAD_BUDGET"
proof -
  let ?ps = "rpc_pieces K args"
  have "those (map (piece_packet K uninit args) ?ps) = Some qs"
    using assms(2) by (simp add: build_rpc_packet_pieces)
  then have qs: "map (piece_packet K uninit args) ?ps = map Some qs" by (simp add: those_Some_iff)
  then have len: "length ?ps = length qs" by (metis length_map)
  obtain k where k: "k < length qs" "q = qs ! k" using assms(6) by (auto simp: in_set_conv_nth)
  have pq: "piece_packet K uninit args (?ps ! k) = Some q" using qs k len by (metis nth_map)
  have "encoded_len K (?ps ! k) \<le> max_rpc_packet_encoded_len_for_udp"
    using rpc_piece_encoded_len [OF assms(1) _ assms(4,5)] assms(3) k len by simp
  then have enc: "length (encode K (?ps ! k)) \<le> max_rpc_packet_encoded_len_for_udp"
    using rpc_codec_okD(2) [OF assms(1)] by simp
  obtain q' where "piece_packet K uninit args (?ps ! k) = Some q'" "length (inner q') = 36 + length (encode K (?ps ! k))"
      "zc_type q' = NIC"
    by (rule piece_packet_spec)
  then have "length (inner q) = 36 + length (encode K (?ps ! k))" "zc_type q = NIC" using pq by simp_all
  then have "length (inner u) = payload_off (get_packet_offsets UDP) + length (encode K (?ps ! k))"
    using assms(7) by (auto simp: convert_type_def wire_simps slice_from_def new_from_buf_def)
  then show ?thesis using enc by (simp add: max_rpc_packet_encoded_len_for_udp_def udp_rpc_tunnel_overhead_def
      RPC_PACKET_UDP_PAYLOAD_BUDGET_def wire_simps)
qed

end
