(* ===== verification/Rpc_Endpoints.thy ===== *)
theory Rpc_Endpoints
  imports Rpc_Packet
begin

text \<open>
  The two ends of an RPC call: \<open>easytier-core/src/rpc/server.rs\<close>, \<open>client.rs\<close>, \<open>dispatch.rs\<close> and
  \<open>service_registry.rs\<close>, with the error conversions of \<open>easytier-proto/src/error.rs\<close>.

  Tables shared between tasks are maps, and a task is the sequence of its turns: \<open>server_on_packet\<close> and
  \<open>client_on_packet\<close> are one turn of the receive loops, \<open>call_begin\<close> and \<open>call_finish\<close> are the two parts of
  \<open>call\<close> around the wait for the answer. A service is application code: a function from method and input to
  the time it takes, its result and the raw output it may set. Encodings of requests and responses are
  generated code and enter as \<open>msg_codec\<close>; \<open>fmt\<close> is the debug text of an error. Metrics are not modelled.
\<close>

section \<open>Requests, responses and errors\<close>

record rpc_request =
  rq_descriptor :: "rpc_descriptor option"
  rq_request :: bytes
  rq_timeout_ms :: u32

datatype error_kind =
    OtherErrorPb string
  | InvalidMethodIndexPb string u32
  | InvalidServicePb string
  | ProstDecodeErrorPb
  | ProstEncodeErrorPb
  | ExecuteErrorPb string
  | MalformatRpcPacketPb string
  | TimeoutPb string

record rpc_response =
  rs_response :: bytes
  rs_error :: "error_kind option option"
  rs_runtime_us :: u64

record msg_codec =
  encode_request :: "rpc_request \<Rightarrow> bytes"
  decode_request :: "bytes \<Rightarrow> rpc_request option"
  encode_response :: "rpc_response \<Rightarrow> bytes"
  decode_response :: "bytes \<Rightarrow> rpc_response option"

definition msg_codec_ok :: "msg_codec \<Rightarrow> bool" where
  "msg_codec_ok M \<longleftrightarrow> (\<forall>r. decode_request M (encode_request M r) = Some r) \<and>
     (\<forall>r. decode_response M (encode_response M r) = Some r)"

definition error_to_pb :: "(rpc_error \<Rightarrow> string) \<Rightarrow> rpc_error \<Rightarrow> error_kind option" where
  "error_to_pb fmt e = Some (case e of
       ExecutionError _ \<Rightarrow> ExecuteErrorPb (fmt e)
     | CompressionError _ \<Rightarrow> ExecuteErrorPb (fmt e)
     | DecodeError \<Rightarrow> ProstDecodeErrorPb
     | EncodeError \<Rightarrow> ProstEncodeErrorPb
     | InvalidMethodIndex m _ \<Rightarrow> InvalidMethodIndexPb (fmt e) (ucast m)
     | InvalidServiceKey _ _ \<Rightarrow> InvalidServicePb (fmt e)
     | MalformatRpcPacket _ \<Rightarrow> MalformatRpcPacketPb (fmt e)
     | RpcTimeout \<Rightarrow> TimeoutPb (fmt e)
     | TunnelError _ \<Rightarrow> OtherErrorPb (fmt e)
     | Shutdown \<Rightarrow> OtherErrorPb (fmt e))"

definition error_from_pb :: "error_kind option \<Rightarrow> rpc_error" where
  "error_from_pb k =
     (case k of
        None \<Rightarrow> ExecutionError ''unknown error''
      | Some (ExecuteErrorPb s) \<Rightarrow> ExecutionError s
      | Some ProstDecodeErrorPb \<Rightarrow> DecodeError
      | Some ProstEncodeErrorPb \<Rightarrow> EncodeError
      | Some (InvalidMethodIndexPb s m) \<Rightarrow> InvalidMethodIndex (ucast m) s
      | Some (InvalidServicePb s) \<Rightarrow> InvalidServiceKey s ''''
      | Some (MalformatRpcPacketPb s) \<Rightarrow> MalformatRpcPacket s
      | Some (TimeoutPb s) \<Rightarrow> ExecutionError s
      | Some (OtherErrorPb s) \<Rightarrow> ExecutionError s)"

section \<open>The service registry\<close>

type_synonym service_key = "string \<times> string \<times> string"

record service =
  call_service :: "u8 \<Rightarrow> bytes \<Rightarrow> nat \<times> (rpc_error + bytes) \<times> bytes option"
  method_name :: "u8 \<Rightarrow> string option"

type_synonym service_registry = "service_key \<Rightarrow> service option"

definition service_key_of :: "rpc_descriptor \<Rightarrow> service_key" where
  "service_key_of d = (domain_name d, service_name d, proto_name d)"

definition registry_register :: "string \<Rightarrow> string \<Rightarrow> string \<Rightarrow> service \<Rightarrow> service_registry \<Rightarrow> service_registry" where
  "registry_register domain name proto svc reg = reg((domain, name, proto) \<mapsto> svc)"

definition registry_unregister :: "string \<Rightarrow> string \<Rightarrow> string \<Rightarrow> service_registry \<Rightarrow> unit option \<times> service_registry" where
  "registry_unregister domain name proto reg =
     (map_option (\<lambda>_. ()) (reg (domain, name, proto)), reg((domain, name, proto) := None))"

definition registry_unregister_by_domain :: "string \<Rightarrow> service_registry \<Rightarrow> service_registry" where
  "registry_unregister_by_domain domain reg = (\<lambda>k. if fst k \<noteq> domain then reg k else None)"

definition registry_unregister_all :: "service_registry \<Rightarrow> service_registry" where
  "registry_unregister_all reg = Map.empty"

definition replace_registry :: "service_registry \<Rightarrow> service_registry \<Rightarrow> service_registry" where
  "replace_registry new reg = Map.empty ++ new"

definition get_method_name :: "service_registry \<Rightarrow> rpc_descriptor \<Rightarrow> string option" where
  "get_method_name reg d = do {
     svc \<leftarrow> reg (service_key_of d);
     method_name svc (ucast (method_index d))
   }"

definition registry_call_method ::
  "service_registry \<Rightarrow> rpc_descriptor \<Rightarrow> bytes \<Rightarrow> nat \<times> (rpc_error + bytes) \<times> bytes option" where
  "registry_call_method reg d input =
     (case reg (service_key_of d) of
        None \<Rightarrow> (0, Inl (InvalidServiceKey (service_name d) (proto_name d)), None)
      | Some svc \<Rightarrow> call_service svc (ucast (method_index d)) input)"

text \<open>The timeout in milliseconds; a negative \<open>i32\<close> becomes a large \<open>u64\<close>.\<close>

definition dispatch_payload ::
  "service_registry \<Rightarrow> rpc_descriptor \<Rightarrow> bytes \<Rightarrow> nat option \<Rightarrow> rpc_error + bytes" where
  "dispatch_payload reg d raw_request timeout_duration =
     (let (took, result, raw_output) = registry_call_method reg d raw_request
      in if (case timeout_duration of Some limit \<Rightarrow> limit < took | None \<Rightarrow> False) then Inl RpcTimeout
         else case result of
                Inl e \<Rightarrow> Inl e
              | Inr response \<Rightarrow> Inr (case raw_output of Some out \<Rightarrow> out | None \<Rightarrow> response))"

definition dispatch_request :: "service_registry \<Rightarrow> rpc_descriptor \<Rightarrow> rpc_request \<Rightarrow> rpc_error + bytes" where
  "dispatch_request reg d request =
     dispatch_payload reg d (rq_request request) (Some (unat (scast (rq_timeout_ms request) :: u64)))"

section \<open>The server\<close>

record rpc_server =
  packet_mergers :: "u32 \<times> u64 \<Rightarrow> packet_merger option"
  srv_stopped :: bool

definition server_new :: rpc_server where
  "server_new = \<lparr>packet_mergers = Map.empty, srv_stopped = False\<rparr>"

text \<open>What a turn of the receive loop does: go on, start a handler, or leave the loop because the server
  was stopped.\<close>

datatype server_turn = TurnContinue | TurnSpawn rpc_packet | TurnReturn

definition server_on_packet ::
  "rpc_codec \<Rightarrow> nat \<Rightarrow> zcpacket \<Rightarrow> rpc_server \<Rightarrow> (server_turn \<times> rpc_server) may_panic" where
  "server_on_packet K now q srv = do {
     pl \<leftarrow> payload q;
     case decode K pl of
       None \<Rightarrow> Some (TurnContinue, srv)
     | Some p \<Rightarrow>
         if \<not> rp_is_request p then Some (TurnContinue, srv)
         else do {
           let key = (rp_from_peer p, rp_transaction_id p);
           let m = (case packet_mergers srv key of Some m \<Rightarrow> m | None \<Rightarrow> merger_new now);
           (ret, m') \<leftarrow> feed now p m;
           let srv1 = srv\<lparr>packet_mergers := (packet_mergers srv)(key \<mapsto> m')\<rparr>;
           case ret of
             Inr (Some whole) \<Rightarrow>
               (let srv2 = srv1\<lparr>packet_mergers := (packet_mergers srv1)(key := None)\<rparr>
                in if srv_stopped srv2 then Some (TurnReturn, srv2) else Some (TurnSpawn whole, srv2))
           | Inr None \<Rightarrow> Some (TurnContinue, srv1)
           | Inl _ \<Rightarrow> Some (TurnContinue, srv1)
         }
   }"

definition server_retain_mergers :: "nat \<Rightarrow> rpc_server \<Rightarrow> rpc_server" where
  "server_retain_mergers now srv = srv\<lparr>packet_mergers := (\<lambda>k. case packet_mergers srv k of
       None \<Rightarrow> None
     | Some m \<Rightarrow> if now - last_updated m < 10 then Some m else None)\<rparr>"

definition handle_rpc_request ::
  "zstd_codec option \<Rightarrow> msg_codec \<Rightarrow> service_registry \<Rightarrow> rpc_packet \<Rightarrow> rpc_descriptor \<Rightarrow> rpc_error + bytes" where
  "handle_rpc_request Z M reg p d =
     (case (case rp_compression_info p of
              Some ci \<Rightarrow> decompress_packet Z (pb_of_code (ci_algo ci)) (rp_body p)
            | None \<Rightarrow> Inr (rp_body p)) of
        Inl e \<Rightarrow> Inl e
      | Inr body \<Rightarrow> (case decode_request M body of
                      None \<Rightarrow> Inl DecodeError
                    | Some request \<Rightarrow> dispatch_request reg d request))"

definition handle_rpc ::
  "zstd_codec option \<Rightarrow> rpc_codec \<Rightarrow> msg_codec \<Rightarrow> (rpc_error \<Rightarrow> string) \<Rightarrow> (nat \<Rightarrow> u8) \<Rightarrow> service_registry \<Rightarrow>
   u64 \<Rightarrow> rpc_packet \<Rightarrow> zcpacket list may_panic" where
  "handle_rpc Z K M fmt uninit reg runtime_us p =
     (case rp_descriptor p of
        None \<Rightarrow> Some []
      | Some desc \<Rightarrow> do {
          let resp_msg = (case handle_rpc_request Z M reg p desc of
                            Inr r \<Rightarrow> \<lparr>rs_response = r, rs_error = None, rs_runtime_us = runtime_us\<rparr>
                          | Inl e \<Rightarrow> \<lparr>rs_response = [], rs_error = Some (error_to_pb fmt e), rs_runtime_us = runtime_us\<rparr>);
          let accepted = (case rp_compression_info p of Some ci \<Rightarrow> pb_of_code (ci_accepted_algo ci) | None \<Rightarrow> PbInvalid);
          r \<leftarrow> compress_packet Z accepted (encode_response M resp_msg);
          (case r of
             Inl _ \<Rightarrow> panic
           | Inr (compressed_resp, algo) \<Rightarrow>
               build_rpc_packet K uninit
                 \<lparr>ba_from_peer = rp_to_peer p, ba_to_peer = rp_from_peer p, ba_rpc_desc = desc,
                  ba_transaction_id = rp_transaction_id p, ba_is_req = False, ba_content = compressed_resp,
                  ba_trace_id = rp_trace_id p,
                  ba_compression_info = \<lparr>ci_algo = pb_code algo,
                     ci_accepted_algo = pb_code (accepted_compression_algo Z)\<rparr>\<rparr>)
        })"

section \<open>The client\<close>

record inflight_request =
  ir_queue :: "rpc_packet list"
  ir_receiver_open :: bool
  ir_merger :: packet_merger

record peer_info =
  pi_peer_id :: u32
  pi_compression_info :: rpc_compression_info
  pi_last_active :: "nat option"

type_synonym inflight_key = "u32 \<times> u32 \<times> u64"

record rpc_client =
  inflight_requests :: "inflight_key \<Rightarrow> inflight_request option"
  peer_infos :: "u32 \<Rightarrow> peer_info option"
  cur_tid :: u64

definition peer_info_default :: peer_info where
  "peer_info_default = \<lparr>pi_peer_id = 0, pi_compression_info = \<lparr>ci_algo = 0, ci_accepted_algo = 0\<rparr>, pi_last_active = None\<rparr>"

definition client_retain_peers :: "nat \<Rightarrow> rpc_client \<Rightarrow> rpc_client" where
  "client_retain_peers now cl = cl\<lparr>peer_infos := (\<lambda>k. case peer_infos cl k of
       None \<Rightarrow> None
     | Some v \<Rightarrow> (case pi_last_active v of
                   Some t \<Rightarrow> if now - t < 120 then Some v else None
                 | None \<Rightarrow> Some v))\<rparr>"

definition client_on_packet :: "rpc_codec \<Rightarrow> nat \<Rightarrow> zcpacket \<Rightarrow> rpc_client \<Rightarrow> rpc_client may_panic" where
  "client_on_packet K now q cl = do {
     pl \<leftarrow> payload q;
     case decode K pl of
       None \<Rightarrow> Some cl
     | Some p \<Rightarrow>
         if rp_is_request p then Some cl
         else
           let key = (rp_to_peer p, rp_from_peer p, rp_transaction_id p)
           in case inflight_requests cl key of
                None \<Rightarrow> Some cl
              | Some req \<Rightarrow> do {
                  (ret, m') \<leftarrow> feed now p (ir_merger req);
                  let req1 = req\<lparr>ir_merger := m'\<rparr>;
                  case ret of
                    Inr (Some whole) \<Rightarrow>
                      if ir_receiver_open req1
                      then Some (cl\<lparr>inflight_requests := (inflight_requests cl)(key \<mapsto> req1\<lparr>ir_queue := ir_queue req1 @ [whole]\<rparr>)\<rparr>)
                      else Some (cl\<lparr>inflight_requests := (inflight_requests cl)(key := None)\<rparr>)
                  | _ \<Rightarrow> Some (cl\<lparr>inflight_requests := (inflight_requests cl)(key \<mapsto> req1)\<rparr>)
                }
   }"

record rpc_controller =
  ctrl_timeout_ms :: u32
  ctrl_trace_id :: u32
  ctrl_raw_input :: "bytes option"

record call_scope =
  sc_from_peer :: u32
  sc_to_peer :: u32
  sc_desc :: rpc_descriptor

definition call_begin ::
  "zstd_codec option \<Rightarrow> rpc_codec \<Rightarrow> msg_codec \<Rightarrow> (nat \<Rightarrow> u8) \<Rightarrow> nat \<Rightarrow> call_scope \<Rightarrow> rpc_controller \<Rightarrow> bytes \<Rightarrow>
   rpc_client \<Rightarrow> (u64 \<times> zcpacket list \<times> rpc_client) may_panic" where
  "call_begin Z K M uninit now sc ctrl input cl = do {
     let tid = cur_tid cl;
     let key = (sc_from_peer sc, sc_to_peer sc, tid);
     let cl1 = cl\<lparr>cur_tid := tid + 1,
                  inflight_requests := (inflight_requests cl)(key \<mapsto>
                    \<lparr>ir_queue = [], ir_receiver_open = True, ir_merger = merger_new now\<rparr>)\<rparr>;
     let rpc_req = \<lparr>rq_descriptor = None,
                    rq_request = (case ctrl_raw_input ctrl of Some raw \<Rightarrow> raw | None \<Rightarrow> input),
                    rq_timeout_ms = ctrl_timeout_ms ctrl\<rparr>;
     let info = (case peer_infos cl1 (sc_to_peer sc) of Some i \<Rightarrow> i | None \<Rightarrow> peer_info_default);
     r \<leftarrow> compress_packet Z (pb_of_code (ci_accepted_algo (pi_compression_info info))) (encode_request M rpc_req);
     (case r of
        Inl _ \<Rightarrow> panic
      | Inr (buf, c_algo) \<Rightarrow> do {
          packets \<leftarrow> build_rpc_packet K uninit
            \<lparr>ba_from_peer = sc_from_peer sc, ba_to_peer = sc_to_peer sc, ba_rpc_desc = sc_desc sc,
             ba_transaction_id = tid, ba_is_req = True, ba_content = buf, ba_trace_id = ctrl_trace_id ctrl,
             ba_compression_info = \<lparr>ci_algo = pb_code c_algo,
                ci_accepted_algo = pb_code (accepted_compression_algo Z)\<rparr>\<rparr>;
          Some (tid, packets, cl1)
        })
   }"

text \<open>The wait ends with an answer, with an error of the tunnel, or with the timeout. Leaving \<open>call\<close> drops
  the guard that removes the table entry.\<close>

datatype wait_outcome = Answer rpc_packet | WaitFailed rpc_error | WaitTimeout

definition call_cleanup :: "call_scope \<Rightarrow> u64 \<Rightarrow> rpc_client \<Rightarrow> rpc_client" where
  "call_cleanup sc tid cl =
     cl\<lparr>inflight_requests := (inflight_requests cl)((sc_from_peer sc, sc_to_peer sc, tid) := None)\<rparr>"

definition call_finish ::
  "zstd_codec option \<Rightarrow> msg_codec \<Rightarrow> nat \<Rightarrow> call_scope \<Rightarrow> u64 \<Rightarrow> wait_outcome \<Rightarrow> rpc_client \<Rightarrow>
   ((rpc_error + bytes) \<times> rpc_client) may_panic" where
  "call_finish Z M now sc tid w cl =
     (case w of
        WaitFailed e \<Rightarrow> Some (Inl e, call_cleanup sc tid cl)
      | WaitTimeout \<Rightarrow> Some (Inl RpcTimeout, call_cleanup sc tid cl)
      | Answer p \<Rightarrow>
          let (cl1, body) =
                (case rp_compression_info p of
                   Some ci \<Rightarrow>
                     (cl\<lparr>peer_infos := (peer_infos cl)(sc_to_peer sc \<mapsto>
                        \<lparr>pi_peer_id = sc_to_peer sc, pi_compression_info = ci, pi_last_active = Some now\<rparr>)\<rparr>,
                      decompress_packet Z (pb_of_code (ci_algo ci)) (rp_body p))
                 | None \<Rightarrow> (cl, Inr (rp_body p)))
          in case body of
               Inl e \<Rightarrow> Some (Inl e, call_cleanup sc tid cl1)
             | Inr bytes \<Rightarrow>
                 if rp_transaction_id p \<noteq> tid then panic
                 else case decode_response M bytes of
                        None \<Rightarrow> Some (Inl DecodeError, call_cleanup sc tid cl1)
                      | Some resp \<Rightarrow>
                          (case rs_error resp of
                             Some k \<Rightarrow> Some (Inl (error_from_pb k), call_cleanup sc tid cl1)
                           | None \<Rightarrow> Some (Inr (rs_response resp), call_cleanup sc tid cl1)))"

end
