(* ===== verification/Rpc_Codec.thy ===== *)
theory Rpc_Codec
  imports Rpc_Endpoints
begin

text \<open>
  Codecs that meet the contracts \<open>rpc_codec_ok\<close> and \<open>msg_codec_ok\<close> of the generated protobuf code: a plain
  self-delimiting encoding in place of the protobuf one. They show that the contracts can be met and give
  the results about RPC messages something to run on.
\<close>

section \<open>Building blocks\<close>

type_synonym 'a reader = "bytes \<Rightarrow> ('a \<times> bytes) option"

definition get_u32 :: "u32 reader" where
  "get_u32 bs = (if length bs < 4 then None else Some (u32_of_le (take 4 bs), drop 4 bs))"

definition get_u64 :: "u64 reader" where
  "get_u64 bs = (if length bs < 8 then None else Some (u64_of_be (take 8 bs), drop 8 bs))"

definition put_bool :: "bool \<Rightarrow> bytes" where "put_bool b = [if b then 1 else 0]"

fun get_bool :: "bool reader" where
  "get_bool [] = None"
| "get_bool (b # bs) = Some (b = 1, bs)"

text \<open>Strings and byte strings: every element behind a one, a zero at the end.\<close>

definition put_bytes :: "bytes \<Rightarrow> bytes" where
  "put_bytes xs = concat (map (\<lambda>x. [1, x]) xs) @ [0]"

fun get_bytes :: "bytes reader" where
  "get_bytes [] = None"
| "get_bytes [b] = (if b = 0 then Some ([], []) else None)"
| "get_bytes (b # x # bs) = (if b = 0 then Some ([], x # bs) else do { (xs, rest) \<leftarrow> get_bytes bs; Some (x # xs, rest) })"

definition put_string :: "string \<Rightarrow> bytes" where
  "put_string s = put_bytes (map (\<lambda>c. word_of_nat (of_char c)) s)"

definition get_string :: "string reader" where
  "get_string bs = do { (xs, rest) \<leftarrow> get_bytes bs; Some (map (\<lambda>x. char_of (unat x)) xs, rest) }"

definition put_option :: "('a \<Rightarrow> bytes) \<Rightarrow> 'a option \<Rightarrow> bytes" where
  "put_option f x = (case x of None \<Rightarrow> [0] | Some a \<Rightarrow> 1 # f a)"

definition get_option :: "'a reader \<Rightarrow> 'a option reader" where
  "get_option f bs = (case bs of [] \<Rightarrow> None | b # r \<Rightarrow> if b = 0 then Some (None, r) else do { (a, rest) \<leftarrow> f r; Some (Some a, rest) })"

lemma get_u32_put [simp]: "get_u32 (u32_le w @ rest) = Some (w, rest)" by (simp add: get_u32_def)
lemma get_u64_put [simp]: "get_u64 (u64_be w @ rest) = Some (w, rest)" by (simp add: get_u64_def)
lemma get_bool_put [simp]: "get_bool (put_bool b @ rest) = Some (b, rest)" by (simp add: put_bool_def)
lemma get_bytes_zero [simp]: "get_bytes (0 # rest) = Some ([], rest)" by (cases rest) simp_all

lemma get_bytes_put [simp]: "get_bytes (put_bytes xs @ rest) = Some (xs, rest)"
  by (induction xs) (simp_all add: put_bytes_def)

lemma char_of_byte: "char_of (unat (word_of_nat (of_char c) :: u8)) = c"
proof -
  have "(of_char c :: nat) < 256" using nat_of_char_less_256 [of c] by simp
  then show ?thesis by (simp add: unat_of_nat take_bit_eq_mod)
qed

lemma get_string_put [simp]: "get_string (put_string s @ rest) = Some (s, rest)"
  by (simp add: get_string_def put_string_def comp_def char_of_byte)

lemma get_option_put:
  assumes "\<And>a rest. f (g a @ rest) = Some (a, rest)"
  shows "get_option f (put_option g x @ rest) = Some (x, rest)"
  using assms by (cases x) (simp_all add: get_option_def put_option_def)

section \<open>Packets\<close>

definition put_desc :: "rpc_descriptor \<Rightarrow> bytes" where
  "put_desc d = put_string (domain_name d) @ put_string (proto_name d) @ put_string (service_name d) @ u32_le (method_index d)"

definition get_desc :: "rpc_descriptor reader" where
  "get_desc bs = do {
     (a, r) \<leftarrow> get_string bs; (b, r) \<leftarrow> get_string r; (c, r) \<leftarrow> get_string r; (m, r) \<leftarrow> get_u32 r;
     Some (\<lparr>domain_name = a, proto_name = b, service_name = c, method_index = m\<rparr>, r)
   }"

definition put_info :: "rpc_compression_info \<Rightarrow> bytes" where
  "put_info c = u32_le (ci_algo c) @ u32_le (ci_accepted_algo c)"

definition get_info :: "rpc_compression_info reader" where
  "get_info bs = do { (a, r) \<leftarrow> get_u32 bs; (b, r) \<leftarrow> get_u32 r; Some (\<lparr>ci_algo = a, ci_accepted_algo = b\<rparr>, r) }"

lemma get_desc_put [simp]: "get_desc (put_desc d @ rest) = Some (d, rest)"
  by (simp add: get_desc_def put_desc_def)

lemma get_info_put [simp]: "get_info (put_info c @ rest) = Some (c, rest)"
  by (simp add: get_info_def put_info_def)

definition plain_delimiter_len :: "nat \<Rightarrow> nat" where
  "plain_delimiter_len n = (if n < 128 then 1 else 2)"

definition put_body :: "bytes \<Rightarrow> bytes" where
  "put_body b = (if b = [] then [] else 0 # replicate (plain_delimiter_len (length b)) 0 @ b)"

definition get_body :: "bytes \<Rightarrow> bytes" where
  "get_body r = drop (if length r < 130 then 2 else 3) r"

definition put_head :: "rpc_packet \<Rightarrow> bytes" where
  "put_head p = u32_le (rp_from_peer p) @ u32_le (rp_to_peer p) @ u64_be (rp_transaction_id p) @
     put_option put_desc (rp_descriptor p) @ put_bool (rp_is_request p) @ u32_le (rp_total_pieces p) @
     u32_le (rp_piece_idx p) @ u32_le (rp_trace_id p) @ put_option put_info (rp_compression_info p)"

definition plain_decode :: "bytes \<Rightarrow> rpc_packet option" where
  "plain_decode bs = do {
     (f, r) \<leftarrow> get_u32 bs; (t, r) \<leftarrow> get_u32 r; (tid, r) \<leftarrow> get_u64 r; (d, r) \<leftarrow> get_option get_desc r;
     (q, r) \<leftarrow> get_bool r; (n, r) \<leftarrow> get_u32 r; (i, r) \<leftarrow> get_u32 r; (tr, r) \<leftarrow> get_u32 r;
     (c, r) \<leftarrow> get_option get_info r;
     Some \<lparr>rp_from_peer = f, rp_to_peer = t, rp_transaction_id = tid, rp_descriptor = d, rp_body = get_body r,
           rp_is_request = q, rp_total_pieces = n, rp_piece_idx = i, rp_trace_id = tr, rp_compression_info = c\<rparr>
   }"

definition plain_codec :: rpc_codec where
  "plain_codec = \<lparr>length_delimiter_len = plain_delimiter_len,
     encoded_len = (\<lambda>p. length (put_head p) + length (put_body (rp_body p))),
     encode = (\<lambda>p. put_head p @ put_body (rp_body p)), decode = plain_decode\<rparr>"

lemma get_body_put: "get_body (put_body b) = b"
  by (auto simp: get_body_def put_body_def plain_delimiter_len_def)

lemma plain_decode_encode: "plain_decode (put_head p @ put_body (rp_body p)) = Some p"
  by (simp add: plain_decode_def put_head_def get_option_put get_body_put)

lemma plain_codec_ok: "rpc_codec_ok plain_codec"
proof -
  have "length (put_head (p\<lparr>rp_body := b\<rparr>)) = length (put_head p)" for p b by (simp add: put_head_def)
  moreover have "length (put_head (p\<lparr>rp_total_pieces := n, rp_piece_idx := i\<rparr>)) = length (put_head p)" for p n i
    by (simp add: put_head_def)
  moreover have "length (put_body b) = (if b = [] then 0 else 1 + plain_delimiter_len (length b) + length b)" for b
    by (simp add: put_body_def)
  ultimately show ?thesis
    by (simp add: rpc_codec_ok_def plain_codec_def plain_decode_encode) (simp add: plain_delimiter_len_def)
qed

section \<open>Requests and responses\<close>

definition put_kind :: "error_kind \<Rightarrow> bytes" where
  "put_kind k = (case k of
       OtherErrorPb s \<Rightarrow> 0 # put_string s
     | InvalidMethodIndexPb s m \<Rightarrow> 1 # put_string s @ u32_le m
     | InvalidServicePb s \<Rightarrow> 2 # put_string s
     | ProstDecodeErrorPb \<Rightarrow> [3]
     | ProstEncodeErrorPb \<Rightarrow> [4]
     | ExecuteErrorPb s \<Rightarrow> 5 # put_string s
     | MalformatRpcPacketPb s \<Rightarrow> 6 # put_string s
     | TimeoutPb s \<Rightarrow> 7 # put_string s)"

definition get_kind :: "error_kind reader" where
  "get_kind bs = (case bs of [] \<Rightarrow> None | b # r \<Rightarrow>
     if b = 3 then Some (ProstDecodeErrorPb, r) else if b = 4 then Some (ProstEncodeErrorPb, r)
     else do {
       (s, r) \<leftarrow> get_string r;
       if b = 1 then do { (m, r) \<leftarrow> get_u32 r; Some (InvalidMethodIndexPb s m, r) }
       else Some (if b = 0 then OtherErrorPb s else if b = 2 then InvalidServicePb s else if b = 5 then ExecuteErrorPb s
                  else if b = 6 then MalformatRpcPacketPb s else TimeoutPb s, r)
     })"

lemma get_kind_put [simp]: "get_kind (put_kind k @ rest) = Some (k, rest)"
  by (cases k) (simp_all add: get_kind_def put_kind_def)

definition plain_messages :: msg_codec where
  "plain_messages = \<lparr>
     encode_request = (\<lambda>r. put_option put_desc (rq_descriptor r) @ put_bytes (rq_request r) @ u32_le (rq_timeout_ms r)),
     decode_request = (\<lambda>bs. do { (d, r) \<leftarrow> get_option get_desc bs; (q, r) \<leftarrow> get_bytes r; (t, r) \<leftarrow> get_u32 r;
       Some \<lparr>rq_descriptor = d, rq_request = q, rq_timeout_ms = t\<rparr> }),
     encode_response = (\<lambda>r. put_bytes (rs_response r) @ put_option (put_option put_kind) (rs_error r) @ u64_be (rs_runtime_us r)),
     decode_response = (\<lambda>bs. do { (q, r) \<leftarrow> get_bytes bs; (e, r) \<leftarrow> get_option (get_option get_kind) r; (t, r) \<leftarrow> get_u64 r;
       Some \<lparr>rs_response = q, rs_error = e, rs_runtime_us = t\<rparr> })\<rparr>"

lemma plain_messages_ok: "msg_codec_ok plain_messages"
  using get_u32_put [of _ "[]"] get_u64_put [of _ "[]"]
  by (simp add: msg_codec_ok_def plain_messages_def get_option_put)

end
