(* ===== verification/Rpc_Delivery.thy ===== *)
theory Rpc_Delivery
  imports Rpc_Codec
begin

text \<open>
  The RPC layer end to end: a call, the server and the answer, over a network that reorders the packets of
  the call and mixes them with any other traffic. The theory also holds a codec that meets the contracts
  of the generated protobuf code, on which the results are instantiated.
\<close>

section \<open>Runs of the two receive loops\<close>

fun server_run :: "rpc_codec \<Rightarrow> (nat \<times> zcpacket) list \<Rightarrow> rpc_server \<Rightarrow> (server_turn list \<times> rpc_server) may_panic" where
  "server_run K [] srv = Some ([], srv)"
| "server_run K ((now, q) # qs) srv = do {
     (t, srv1) \<leftarrow> server_on_packet K now q srv;
     (ts, srv2) \<leftarrow> server_run K qs srv1;
     Some (t # ts, srv2)
   }"

fun client_run :: "rpc_codec \<Rightarrow> (nat \<times> zcpacket) list \<Rightarrow> rpc_client \<Rightarrow> rpc_client may_panic" where
  "client_run K [] cl = Some cl"
| "client_run K ((now, q) # qs) cl = do {
     cl1 \<leftarrow> client_on_packet K now q cl;
     client_run K qs cl1
   }"

text \<open>Traffic: an arrival is a packet of the message, by its number, or some other packet.\<close>

type_synonym arrival = "nat \<times> (nat + zcpacket)"

definition deliver :: "zcpacket list \<Rightarrow> arrival list \<Rightarrow> (nat \<times> zcpacket) list" where
  "deliver qs = map (\<lambda>(now, x). (now, case x of Inl i \<Rightarrow> qs ! i | Inr q \<Rightarrow> q))"

fun own :: "arrival list \<Rightarrow> nat list" where
  "own [] = []"
| "own ((now, Inl i) # as) = i # own as"
| "own ((now, Inr q) # as) = own as"

definition each_once :: "zcpacket list \<Rightarrow> arrival list \<Rightarrow> bool" where
  "each_once qs as \<longleftrightarrow> distinct (own as) \<and> set (own as) = {..<length qs}"

text \<open>Other traffic that does not carry the key of the message; it may be malformed.\<close>

definition other_request :: "rpc_codec \<Rightarrow> u32 \<times> u64 \<Rightarrow> zcpacket \<Rightarrow> bool" where
  "other_request K key q \<longleftrightarrow> (\<exists>pl. payload q = Some pl \<and>
     (\<forall>p. decode K pl = Some p \<and> rp_is_request p \<longrightarrow> (rp_from_peer p, rp_transaction_id p) \<noteq> key))"

definition other_response :: "rpc_codec \<Rightarrow> inflight_key \<Rightarrow> zcpacket \<Rightarrow> bool" where
  "other_response K key q \<longleftrightarrow> (\<exists>pl. payload q = Some pl \<and>
     (\<forall>p. decode K pl = Some p \<and> \<not> rp_is_request p \<longrightarrow> (rp_to_peer p, rp_from_peer p, rp_transaction_id p) \<noteq> key))"

section \<open>Compression\<close>

lemma feed_defined: "\<exists>r m'. feed now p m = Some (r, m')"
proof -
  have "unat (rp_piece_idx p) < length (vec_resize (unat (rp_total_pieces p)) d xs)"
    if "\<not> rp_total_pieces p \<le> rp_piece_idx p" for d :: rpc_packet and xs
    using that by (simp add: vec_resize_def word_le_nat_alt min_def)
  then show ?thesis by (auto simp: feed_def Let_def)
qed

lemma decompress_compressed_packet:
  assumes "\<forall>z. Z = Some z \<longrightarrow> zstd_correct z" and "compress_packet Z accepted content = Some (Inr (buf, pb))"
  shows "decompress_packet Z pb buf =
    (if pb = PbNone \<or> length content \<le> decompress_reach buf then Inr content
     else Inl (CompressionError (DecompressAttempts ZstdDefault)))"
proof (cases "pb = PbNone")
  case True
  then have "buf = content"
    using assms(2) by (cases accepted) (auto simp: compress_packet_def compress_raw_def Let_def split: if_splits sum.splits)
  then show ?thesis using True by (simp add: decompress_packet_def decompress_raw_def)
next
  case False
  then obtain z where z: "Z = Some z" "bulk_compress z content = Some buf" "pb = PbZstd"
    using assms(2)
    by (cases accepted) (auto simp: compress_packet_def compress_raw_def zstd_compress_def algo_is_available_def Let_def
        split: if_splits sum.splits option.splits)
  then show ?thesis using assms(1) zstd_decompress_compressed [of z content buf ZstdDefault]
    by (simp add: decompress_packet_def decompress_raw_def)
qed

section \<open>The server side\<close>

lemma server_other_request:
  assumes "other_request K key q" and "\<not> srv_stopped srv"
  obtains t srv' where "server_on_packet K now q srv = Some (t, srv')"
    and "packet_mergers srv' key = packet_mergers srv key" and "\<not> srv_stopped srv'"
proof -
  obtain pl where pl: "payload q = Some pl"
    "\<And>p. decode K pl = Some p \<Longrightarrow> rp_is_request p \<Longrightarrow> (rp_from_peer p, rp_transaction_id p) \<noteq> key"
    using assms(1) by (auto simp: other_request_def)
  show thesis
  proof (cases "\<exists>p. decode K pl = Some p \<and> rp_is_request p")
    case True
    then obtain p where p: "decode K pl = Some p" "rp_is_request p" by blast
    let ?k = "(rp_from_peer p, rp_transaction_id p)"
    obtain r m' where "feed now p (case packet_mergers srv ?k of Some m \<Rightarrow> m | None \<Rightarrow> merger_new now) = Some (r, m')"
      using feed_defined by blast
    moreover have "key \<noteq> ?k" using pl(2) [OF p] by blast
    ultimately show thesis
      using that pl(1) p assms(2)
      by (cases r; cases "case r of Inr o' \<Rightarrow> o' | Inl _ \<Rightarrow> None")
        (auto simp: server_on_packet_def Let_def split: option.splits)
  next
    case False
    then show thesis using that [of TurnContinue srv] pl(1) assms(2)
      by (cases "decode K pl") (auto simp: server_on_packet_def)
  qed
qed

text \<open>A table entry that holds the pieces with the numbers in \<open>S\<close>; no entry stands for none of them.\<close>

definition pending :: "u64 \<Rightarrow> u32 \<Rightarrow> rpc_packet list \<Rightarrow> nat set \<Rightarrow> packet_merger option \<Rightarrow> bool" where
  "pending tid peer ps S entry = (case entry of None \<Rightarrow> S = {} | Some m \<Rightarrow> collecting tid peer ps S m)"

lemma feed_pending:
  assumes "message_pieces tid peer ps" and "i < length ps" and "S \<subseteq> {..<length ps}" and "pending tid peer ps S entry"
  obtains m' where "feed now (ps ! i) (case entry of Some m \<Rightarrow> m | None \<Rightarrow> merger_new now) =
      Some (Inr (if insert i S = {..<length ps} then Some (merged ps) else None), m')"
    and "collecting tid peer ps (insert i S) m'"
proof -
  have "collecting tid peer ps S (case entry of Some m \<Rightarrow> m | None \<Rightarrow> merger_new now) \<or>
        foreign_to tid peer (case entry of Some m \<Rightarrow> m | None \<Rightarrow> merger_new now) \<and> S = {}"
    using assms(4) by (auto simp: pending_def foreign_to_def merger_new_def split: option.splits)
  then show thesis by (rule feed_piece [OF assms(1-3)]) (rule that)
qed

lemma server_own_piece:
  assumes "rpc_codec_ok K" and "message_pieces tid peer ps" and "\<And>p. p \<in> set ps \<Longrightarrow> rp_is_request p"
    and "i < length ps" and "S \<subseteq> {..<length ps}" and "pending tid peer ps S (packet_mergers srv (peer, tid))"
    and "payload q = Some (encode K (ps ! i))" and "\<not> srv_stopped srv"
  obtains srv' where "server_on_packet K now q srv =
      Some (if insert i S = {..<length ps} then TurnSpawn (merged ps) else TurnContinue, srv')"
    and "insert i S \<noteq> {..<length ps} \<Longrightarrow> pending tid peer ps (insert i S) (packet_mergers srv' (peer, tid))"
    and "\<not> srv_stopped srv'"
proof -
  obtain m' where m': "feed now (ps ! i) (case packet_mergers srv (peer, tid) of Some m \<Rightarrow> m | None \<Rightarrow> merger_new now) =
      Some (Inr (if insert i S = {..<length ps} then Some (merged ps) else None), m')"
      "collecting tid peer ps (insert i S) m'"
    by (rule feed_pending [OF assms(2,4,5,6)])
  have p: "decode K (encode K (ps ! i)) = Some (ps ! i)" "rp_is_request (ps ! i)"
      "rp_from_peer (ps ! i) = peer" "rp_transaction_id (ps ! i) = tid"
    using rpc_codec_okD(1) [OF assms(1)] assms(3,4) message_piecesD(6,7) [OF assms(2,4)] by auto
  show thesis
  proof (cases "insert i S = {..<length ps}")
    case True
    then show thesis using that m'(1) p assms(7,8) by (simp add: server_on_packet_def Let_def)
  next
    case False
    then show thesis using that m' p assms(7,8) by (simp add: server_on_packet_def Let_def pending_def)
  qed
qed

lemma server_run_message:
  assumes "rpc_codec_ok K" and "message_pieces tid peer ps" and "\<And>p. p \<in> set ps \<Longrightarrow> rp_is_request p"
    and "map payload qs = map (\<lambda>p. Some (encode K p)) ps"
    and "\<forall>(now, x)\<in>set as. \<forall>q. x = Inr q \<longrightarrow> other_request K (peer, tid) q"
    and "distinct (own as)" and "S \<inter> set (own as) = {}" and "own as \<noteq> [] \<Longrightarrow> S \<union> set (own as) = {..<length ps}"
    and "own as \<noteq> [] \<Longrightarrow> pending tid peer ps S (packet_mergers srv (peer, tid))" and "\<not> srv_stopped srv"
  shows "\<exists>ts srv'. server_run K (deliver qs as) srv = Some (ts, srv') \<and> length ts = length as \<and>
    (\<forall>k<length as. isl (snd (as ! k)) \<longrightarrow>
       ts ! k = (if own (drop (Suc k) as) = [] then TurnSpawn (merged ps) else TurnContinue))"
  using assms(5-)
proof (induction "as" arbitrary: S srv)
  case Nil
  then show ?case by (simp add: deliver_def)
next
  case (Cons a "as")
  have step: ?case
    if t: "server_on_packet K (fst a) (snd (hd (deliver qs [a]))) srv = Some (t, srv1)"
      and run: "server_run K (deliver qs as) srv1 = Some (ts, srv')" "length ts = length as"
        "\<forall>k<length as. isl (snd (as ! k)) \<longrightarrow>
           ts ! k = (if own (drop (Suc k) as) = [] then TurnSpawn (merged ps) else TurnContinue)"
      and first: "isl (snd a) \<Longrightarrow> t = (if own as = [] then TurnSpawn (merged ps) else TurnContinue)"
    for t srv1 ts srv'
  proof -
    have "server_run K (deliver qs (a # as)) srv = Some (t # ts, srv')"
      using t run(1) by (cases a) (simp add: deliver_def)
    moreover have "\<forall>k<length (a # as). isl (snd ((a # as) ! k)) \<longrightarrow>
        (t # ts) ! k = (if own (drop (Suc k) (a # as)) = [] then TurnSpawn (merged ps) else TurnContinue)"
      using run(3) first by (auto simp: nth_Cons less_Suc_eq_0_disj split: nat.split)
    ultimately show ?thesis using run(2) by auto
  qed
  obtain now x where a: "a = (now, x)" by (cases a)
  show ?case
  proof (cases x)
    case (Inl i)
    have sets: "i \<notin> S" "i \<notin> set (own as)" "insert i S \<union> set (own as) = {..<length ps}" "i < length ps" "S \<subseteq> {..<length ps}"
      using Cons.prems(2-4) a Inl by auto
    have pl: "payload (qs ! i) = Some (encode K (ps ! i))"
      using assms(4) sets(4) by (metis length_map nth_map)
    obtain srv1 where s1: "server_on_packet K now (qs ! i) srv =
        Some (if insert i S = {..<length ps} then TurnSpawn (merged ps) else TurnContinue, srv1)"
        "insert i S \<noteq> {..<length ps} \<Longrightarrow> pending tid peer ps (insert i S) (packet_mergers srv1 (peer, tid))"
        "\<not> srv_stopped srv1"
      using server_own_piece [OF assms(1-3) sets(4,5) _ pl Cons.prems(6)] Cons.prems(5) a Inl by auto
    have full: "insert i S = {..<length ps} \<longleftrightarrow> own as = []"
    proof
      assume eq: "insert i S = {..<length ps}"
      have sub: "set (own as) \<subseteq> insert i S" using sets(3) eq by blast
      have "insert i S \<inter> set (own as) = {}" using sets(2) Cons.prems(3) a Inl by auto
      then have "set (own as) = {}" unfolding Int_absorb1 [OF sub] .
      then show "own as = []" by simp
    qed (use sets(3) in simp)
    obtain ts srv' where run: "server_run K (deliver qs as) srv1 = Some (ts, srv')" "length ts = length as"
        "\<forall>k<length as. isl (snd (as ! k)) \<longrightarrow>
           ts ! k = (if own (drop (Suc k) as) = [] then TurnSpawn (merged ps) else TurnContinue)"
      using Cons.IH [of "insert i S" srv1] Cons.prems sets s1(2,3) full a Inl by auto
    show ?thesis by (rule step [OF _ run]) (use s1(1) full a Inl in \<open>auto simp: deliver_def\<close>)
  next
    case (Inr q)
    have oth: "other_request K (peer, tid) q" using Cons.prems(1) a Inr by auto
    obtain t srv1 where s1: "server_on_packet K now q srv = Some (t, srv1)"
        "packet_mergers srv1 (peer, tid) = packet_mergers srv (peer, tid)" "\<not> srv_stopped srv1"
      by (rule server_other_request [OF oth Cons.prems(6)])
    obtain ts srv' where run: "server_run K (deliver qs as) srv1 = Some (ts, srv')" "length ts = length as"
        "\<forall>k<length as. isl (snd (as ! k)) \<longrightarrow>
           ts ! k = (if own (drop (Suc k) as) = [] then TurnSpawn (merged ps) else TurnContinue)"
      using Cons.IH [of S srv1] Cons.prems s1(2,3) a Inr by auto
    show ?thesis by (rule step [OF _ run]) (use s1(1) a Inr in \<open>auto simp: deliver_def\<close>)
  qed
qed

section \<open>The client side\<close>

lemma client_other_response:
  assumes "other_response K key q"
  obtains cl' where "client_on_packet K now q cl = Some cl'"
    and "inflight_requests cl' key = inflight_requests cl key" and "peer_infos cl' = peer_infos cl"
proof -
  obtain pl where pl: "payload q = Some pl"
    "\<And>p. decode K pl = Some p \<Longrightarrow> \<not> rp_is_request p \<Longrightarrow> (rp_to_peer p, rp_from_peer p, rp_transaction_id p) \<noteq> key"
    using assms by (auto simp: other_response_def)
  show thesis
  proof (cases "\<exists>p req. decode K pl = Some p \<and> \<not> rp_is_request p \<and>
      inflight_requests cl (rp_to_peer p, rp_from_peer p, rp_transaction_id p) = Some req")
    case True
    then obtain p req where p: "decode K pl = Some p" "\<not> rp_is_request p"
      "inflight_requests cl (rp_to_peer p, rp_from_peer p, rp_transaction_id p) = Some req" by blast
    obtain r m' where "feed now p (ir_merger req) = Some (r, m')" using feed_defined by blast
    moreover have "key \<noteq> (rp_to_peer p, rp_from_peer p, rp_transaction_id p)" using pl(2) [OF p(1,2)] by blast
    ultimately show thesis
      using that pl(1) p
      by (cases r; cases "case r of Inr o' \<Rightarrow> o' | Inl _ \<Rightarrow> None"; cases "ir_receiver_open req")
        (auto simp: client_on_packet_def Let_def split: option.splits)
  next
    case False
    then show thesis using that [of cl] pl(1)
      by (cases "decode K pl") (auto simp: client_on_packet_def Let_def split: option.splits)
  qed
qed

definition waiting :: "u64 \<Rightarrow> u32 \<Rightarrow> rpc_packet list \<Rightarrow> nat set \<Rightarrow> inflight_request option \<Rightarrow> bool" where
  "waiting tid peer ps S entry = (\<exists>req. entry = Some req \<and> ir_receiver_open req \<and> ir_queue req = [] \<and>
     (collecting tid peer ps S (ir_merger req) \<or> foreign_to tid peer (ir_merger req) \<and> S = {}))"

lemma client_own_piece:
  assumes "rpc_codec_ok K" and "message_pieces tid peer ps"
    and "\<And>p. p \<in> set ps \<Longrightarrow> \<not> rp_is_request p \<and> rp_to_peer p = me"
    and "i < length ps" and "S \<subseteq> {..<length ps}" and "waiting tid peer ps S (inflight_requests cl (me, peer, tid))"
    and "payload q = Some (encode K (ps ! i))"
  obtains cl' where "client_on_packet K now q cl = Some cl'" and "peer_infos cl' = peer_infos cl"
    and "insert i S \<noteq> {..<length ps} \<longrightarrow> waiting tid peer ps (insert i S) (inflight_requests cl' (me, peer, tid))"
    and "insert i S = {..<length ps} \<longrightarrow> (\<exists>req. inflight_requests cl' (me, peer, tid) = Some req \<and> ir_queue req = [merged ps])"
proof -
  obtain req where req: "inflight_requests cl (me, peer, tid) = Some req" "ir_receiver_open req" "ir_queue req = []"
      "collecting tid peer ps S (ir_merger req) \<or> foreign_to tid peer (ir_merger req) \<and> S = {}"
    using assms(6) by (auto simp: waiting_def)
  obtain m' where m': "feed now (ps ! i) (ir_merger req) =
      Some (Inr (if insert i S = {..<length ps} then Some (merged ps) else None), m')"
      "collecting tid peer ps (insert i S) m'"
    by (rule feed_piece [OF assms(2,4,5) req(4)])
  have p: "decode K (encode K (ps ! i)) = Some (ps ! i)" "\<not> rp_is_request (ps ! i)" "rp_to_peer (ps ! i) = me"
      "rp_from_peer (ps ! i) = peer" "rp_transaction_id (ps ! i) = tid"
    using rpc_codec_okD(1) [OF assms(1)] assms(3) [of "ps ! i"] assms(4) message_piecesD(6,7) [OF assms(2,4)] by auto
  show thesis
  proof (cases "insert i S = {..<length ps}")
    case True
    then show thesis using that m'(1) p assms(7) req by (simp add: client_on_packet_def Let_def)
  next
    case False
    then show thesis using that m' p assms(7) req by (simp add: client_on_packet_def Let_def waiting_def)
  qed
qed

lemma client_run_others:
  assumes "\<forall>(now, x)\<in>set as. \<forall>q. x = Inr q \<longrightarrow> other_response K key q" and "own as = []"
  shows "\<exists>cl'. client_run K (deliver qs as) cl = Some cl' \<and> peer_infos cl' = peer_infos cl \<and>
    inflight_requests cl' key = inflight_requests cl key"
  using assms
proof (induction "as" arbitrary: cl)
  case (Cons a "as")
  obtain now q where a: "a = (now, Inr q)" using Cons.prems(2) by (cases a; cases "snd a") auto
  have "other_response K key q" using Cons.prems(1) a by auto
  then obtain cl1 where "client_on_packet K now q cl = Some cl1" "inflight_requests cl1 key = inflight_requests cl key"
      "peer_infos cl1 = peer_infos cl" by (rule client_other_response)
  then show ?case using Cons.IH [of cl1] Cons.prems a by (auto simp: deliver_def)
qed (simp add: deliver_def)

lemma client_run_message:
  assumes "rpc_codec_ok K" and "message_pieces tid peer ps"
    and "\<And>p. p \<in> set ps \<Longrightarrow> \<not> rp_is_request p \<and> rp_to_peer p = me"
    and "map payload qs = map (\<lambda>p. Some (encode K p)) ps"
    and "\<forall>(now, x)\<in>set as. \<forall>q. x = Inr q \<longrightarrow> other_response K (me, peer, tid) q"
    and "distinct (own as)" and "S \<inter> set (own as) = {}" and "S \<union> set (own as) = {..<length ps}" and "own as \<noteq> []"
    and "waiting tid peer ps S (inflight_requests cl (me, peer, tid))"
  shows "\<exists>cl' req. client_run K (deliver qs as) cl = Some cl' \<and> peer_infos cl' = peer_infos cl \<and>
    inflight_requests cl' (me, peer, tid) = Some req \<and> ir_queue req = [merged ps]"
  using assms(5-)
proof (induction "as" arbitrary: S cl)
  case (Cons a "as")
  obtain now x where a: "a = (now, x)" by (cases a)
  show ?case
  proof (cases x)
    case (Inl i)
    have sets: "i \<notin> S" "i \<notin> set (own as)" "insert i S \<union> set (own as) = {..<length ps}" "i < length ps" "S \<subseteq> {..<length ps}"
      using Cons.prems(2-4) a Inl by auto
    have pl: "payload (qs ! i) = Some (encode K (ps ! i))"
      using assms(4) sets(4) by (metis length_map nth_map)
    obtain cl1 where c1: "client_on_packet K now (qs ! i) cl = Some cl1" "peer_infos cl1 = peer_infos cl"
        "insert i S \<noteq> {..<length ps} \<longrightarrow> waiting tid peer ps (insert i S) (inflight_requests cl1 (me, peer, tid))"
        "insert i S = {..<length ps} \<longrightarrow> (\<exists>req. inflight_requests cl1 (me, peer, tid) = Some req \<and> ir_queue req = [merged ps])"
      by (rule client_own_piece [OF assms(1-3) sets(4,5) Cons.prems(6) pl, of now])
    show ?thesis
    proof (cases "own as = []")
      case True
      then have "insert i S = {..<length ps}" using sets(3) by simp
      moreover have "\<exists>cl'. client_run K (deliver qs as) cl1 = Some cl' \<and> peer_infos cl' = peer_infos cl1 \<and>
          inflight_requests cl' (me, peer, tid) = inflight_requests cl1 (me, peer, tid)"
        by (rule client_run_others) (use Cons.prems(1) True in auto)
      ultimately show ?thesis using c1 a Inl by (auto simp: deliver_def)
    next
      case False
      then have "\<not> set (own as) \<subseteq> insert i S"
        using sets(2) Cons.prems(3) a Inl by (cases "own as") auto
      then have "insert i S \<noteq> {..<length ps}" using sets(3) by blast
      then have "waiting tid peer ps (insert i S) (inflight_requests cl1 (me, peer, tid))" using c1(3) by blast
      then show ?thesis using Cons.IH [of "insert i S" cl1] Cons.prems(1-4) sets False a Inl c1(1,2) by (auto simp: deliver_def)
    qed
  next
    case (Inr q)
    have "other_response K (me, peer, tid) q" using Cons.prems(1) a Inr by auto
    then obtain cl1 where c1: "client_on_packet K now q cl = Some cl1"
        "inflight_requests cl1 (me, peer, tid) = inflight_requests cl (me, peer, tid)"
        "peer_infos cl1 = peer_infos cl" by (rule client_other_response)
    then show ?thesis using Cons.IH [of S cl1] Cons.prems a Inr by (auto simp: deliver_def)
  qed
qed simp

section \<open>Calls\<close>

text \<open>The request and the response message of a call.\<close>

definition request_of :: "rpc_controller \<Rightarrow> bytes \<Rightarrow> rpc_request" where
  "request_of ctrl input = \<lparr>rq_descriptor = None,
     rq_request = (case ctrl_raw_input ctrl of Some raw \<Rightarrow> raw | None \<Rightarrow> input), rq_timeout_ms = ctrl_timeout_ms ctrl\<rparr>"

definition response_of :: "(rpc_error \<Rightarrow> string) \<Rightarrow> u64 \<Rightarrow> rpc_error + bytes \<Rightarrow> rpc_response" where
  "response_of fmt runtime_us result = (case result of
       Inr r \<Rightarrow> \<lparr>rs_response = r, rs_error = None, rs_runtime_us = runtime_us\<rparr>
     | Inl e \<Rightarrow> \<lparr>rs_response = [], rs_error = Some (error_to_pb fmt e), rs_runtime_us = runtime_us\<rparr>)"

text \<open>What the caller sees of a result: errors travel by kind and text.\<close>

definition seen_by_caller :: "(rpc_error \<Rightarrow> string) \<Rightarrow> rpc_error + bytes \<Rightarrow> rpc_error + bytes" where
  "seen_by_caller fmt result = (case result of Inr r \<Rightarrow> Inr r | Inl e \<Rightarrow> Inl (error_from_pb (error_to_pb fmt e)))"

lemma small_message_survives:
  assumes "\<forall>z. Z = Some z \<longrightarrow> zstd_correct z" and "compress_packet Z accepted content = Some (Inr (buf, pb))"
    and "length content \<le> 64 * 1024"
  shows "decompress_packet Z pb buf = Inr content"
  using decompress_compressed_packet [OF assms(1,2)] assms(3) by (auto simp: decompress_reach_def)

lemma call_begin_spec:
  assumes "call_begin Z K M uninit now sc ctrl input cl = Some (tid, qs, cl1)"
  obtains buf pb accepted args where
    "compress_packet Z accepted (encode_request M (request_of ctrl input)) = Some (Inr (buf, pb))"
    and "args = \<lparr>ba_from_peer = sc_from_peer sc, ba_to_peer = sc_to_peer sc, ba_rpc_desc = sc_desc sc,
             ba_transaction_id = tid, ba_is_req = True, ba_content = buf, ba_trace_id = ctrl_trace_id ctrl,
             ba_compression_info = \<lparr>ci_algo = pb_code pb, ci_accepted_algo = pb_code (accepted_compression_algo Z)\<rparr>\<rparr>"
    and "build_rpc_packet K uninit args = Some qs"
    and "inflight_requests cl1 (sc_from_peer sc, sc_to_peer sc, tid) =
           Some \<lparr>ir_queue = [], ir_receiver_open = True, ir_merger = merger_new now\<rparr>"
proof -
  define accepted where "accepted = pb_of_code (ci_accepted_algo (pi_compression_info
    (case peer_infos cl (sc_to_peer sc) of Some i \<Rightarrow> i | None \<Rightarrow> peer_info_default)))"
  obtain y where y: "compress_packet Z accepted (encode_request M (request_of ctrl input)) = Some y"
    using assms by (auto simp: call_begin_def request_of_def [symmetric] accepted_def Let_def bind_eq_Some_conv)
  then obtain buf pb where "y = Inr (buf, pb)"
    using assms by (cases y) (auto simp: call_begin_def request_of_def [symmetric] accepted_def Let_def)
  then show thesis
    by (intro that) (use y assms in \<open>auto simp: call_begin_def request_of_def [symmetric] accepted_def Let_def bind_eq_Some_conv\<close>)
qed

lemma handle_rpc_spec:
  assumes "handle_rpc Z K M fmt uninit reg runtime_us p = Some rs" and "rp_descriptor p = Some desc"
  obtains buf pb accepted args where
    "compress_packet Z accepted (encode_response M (response_of fmt runtime_us (handle_rpc_request Z M reg p desc))) = Some (Inr (buf, pb))"
    and "args = \<lparr>ba_from_peer = rp_to_peer p, ba_to_peer = rp_from_peer p, ba_rpc_desc = desc,
                  ba_transaction_id = rp_transaction_id p, ba_is_req = False, ba_content = buf,
                  ba_trace_id = rp_trace_id p,
                  ba_compression_info = \<lparr>ci_algo = pb_code pb, ci_accepted_algo = pb_code (accepted_compression_algo Z)\<rparr>\<rparr>"
    and "build_rpc_packet K uninit args = Some rs"
proof -
  define accepted where "accepted = (case rp_compression_info p of Some ci \<Rightarrow> pb_of_code (ci_accepted_algo ci) | None \<Rightarrow> PbInvalid)"
  obtain y where y: "compress_packet Z accepted (encode_response M (response_of fmt runtime_us (handle_rpc_request Z M reg p desc))) = Some y"
    using assms by (auto simp: handle_rpc_def response_of_def [symmetric] accepted_def Let_def bind_eq_Some_conv)
  then obtain buf pb where "y = Inr (buf, pb)"
    using assms by (cases y) (auto simp: handle_rpc_def response_of_def [symmetric] accepted_def Let_def)
  then show thesis
    by (intro that) (use y assms in \<open>auto simp: handle_rpc_def response_of_def [symmetric] accepted_def Let_def bind_eq_Some_conv\<close>)
qed

lemma rpc_pieces_uniform:
  assumes "p \<in> set (rpc_pieces K args)"
  shows "rp_is_request p = ba_is_req args" and "rp_to_peer p = ba_to_peer args"
  using assms by (auto simp: rpc_pieces_def Let_def cut_piece_def build_rpc_piece_def split: prod.splits)

lemma built_packets:
  assumes "build_rpc_packet K uninit args = Some qs"
  shows "map payload qs = map (\<lambda>p. Some (encode K p)) (rpc_pieces K args)" and "length qs = length (rpc_pieces K args)"
proof -
  show pl: "map payload qs = map (\<lambda>p. Some (encode K p)) (rpc_pieces K args)"
    by (rule build_rpc_packet_spec [of K uninit args]) (use assms in simp)
  then show "length qs = length (rpc_pieces K args)" by (metis length_map)
qed



section \<open>A call\<close>

lemma length_split_loop: "length (split_loop K base other mx total_n offset) \<le> total_n - offset"
proof (induction K base other mx total_n offset rule: split_loop.induct)
  case (1 K base other mx total_n offset)
  let ?l = "pick_piece_len_for_budget K base (total_n - offset) mx"
  show ?case
  proof (cases "offset < total_n")
    case True
    have "0 < ?l" using pick_piece_len_pos True by simp
    moreover have "length (split_loop K other other mx total_n (offset + ?l)) \<le> total_n - (offset + ?l)"
      by (rule 1 [OF True refl])
    ultimately show ?thesis using True by (subst split_loop.simps) (simp add: Let_def)
  qed (subst split_loop.simps, simp)
qed

lemma length_built_packets:
  assumes "build_rpc_packet K uninit args = Some qs"
  shows "length qs \<le> max 1 (length (ba_content args))"
  using built_packets(2) [OF assms] length_split_loop
  by (simp add: rpc_pieces_def split_rpc_content_for_udp_budget_def Let_def) (metis diff_zero max.coboundedI2)

lemma built_nonempty: "build_rpc_packet K uninit args = Some qs \<Longrightarrow> qs \<noteq> []"
  using built_packets(2) [of K uninit args qs] split_covers(3) [of K args] by (auto simp: rpc_pieces_def Let_def)

lemma compress_packet_without_zstd: "compress_packet None accepted content = Some (Inr (content, PbNone))"
  by (cases accepted) (simp_all add: compress_packet_def algo_is_available_def compress_raw_def)

lemma build_rpc_packet_defined: "\<exists>qs. build_rpc_packet K uninit args = Some qs"
  by (rule build_rpc_packet_spec [of K uninit args]) blast

definition garbage :: zcpacket where
  "garbage = \<lparr>inner = replicate 40 0, zc_type = NIC\<rparr>"

definition in_reverse :: "zcpacket list \<Rightarrow> arrival list" where
  "in_reverse qs = (0, Inr garbage) # map (\<lambda>i. (i, Inl i)) (rev [0..<length qs])"

lemma own_map_Inl: "own (map (\<lambda>i. (f i, Inl i)) xs) = xs"
  by (induction xs) auto

lemma each_once_in_reverse: "each_once qs (in_reverse qs)"
  by (auto simp: each_once_def in_reverse_def own_map_Inl)

definition echo_service :: service where
  "echo_service = \<lparr>call_service = (\<lambda>m input. (1, Inr (rev input), None)), method_name = (\<lambda>_. Some ''echo'')\<rparr>"

definition demo_desc :: rpc_descriptor where
  "demo_desc = \<lparr>domain_name = ''d'', proto_name = ''p'', service_name = ''s'', method_index = 0\<rparr>"

definition demo_scope :: call_scope where
  "demo_scope = \<lparr>sc_from_peer = 1, sc_to_peer = 2, sc_desc = demo_desc\<rparr>"

definition demo_ctrl :: rpc_controller where
  "demo_ctrl = \<lparr>ctrl_timeout_ms = 5000, ctrl_trace_id = 0, ctrl_raw_input = None\<rparr>"

definition demo_client :: rpc_client where
  "demo_client = \<lparr>inflight_requests = Map.empty, peer_infos = Map.empty, cur_tid = 7\<rparr>"

lemma demo_call:
  obtains qs cl where
    "call_begin None plain_codec plain_messages (\<lambda>_. 0) 0 demo_scope demo_ctrl [1, 2, 3] demo_client = Some (7, qs, cl)"
    and "length qs \<le> 32 * 1024"
proof -
  have small: "length (encode_request plain_messages (request_of demo_ctrl [1, 2, 3])) \<le> 32 * 1024"
    by (simp add: plain_messages_def put_option_def put_bytes_def request_of_def demo_ctrl_def)
  let ?args = "\<lparr>ba_from_peer = 1, ba_to_peer = 2, ba_rpc_desc = demo_desc, ba_transaction_id = 7, ba_is_req = True,
     ba_content = encode_request plain_messages (request_of demo_ctrl [1, 2, 3]), ba_trace_id = 0,
     ba_compression_info = \<lparr>ci_algo = pb_code PbNone, ci_accepted_algo = pb_code (accepted_compression_algo None)\<rparr>\<rparr>"
  obtain qs where qs: "build_rpc_packet plain_codec (\<lambda>_. 0) ?args = Some qs" using build_rpc_packet_defined by blast
  moreover have "length qs \<le> 32 * 1024" using length_built_packets [OF qs] small by simp
  ultimately show thesis
    using that by (simp add: call_begin_def request_of_def compress_packet_without_zstd Let_def
        demo_client_def demo_scope_def demo_ctrl_def)
qed

lemma nic_garbage: "payload garbage = Some [0, 0, 0, 0]"
  by (simp add: payload_Some_iff payload_offset_def garbage_def wire_simps numeral_eq_Suc)

lemma garbage_is_other:
  "other_request plain_codec key garbage"
  "other_response plain_codec ikey garbage"
  unfolding other_request_def other_response_def nic_garbage
  by (simp_all add: plain_codec_def plain_decode_def get_u32_def)



definition demo_args :: build_args where
  "demo_args = \<lparr>ba_from_peer = 1, ba_to_peer = 2, ba_rpc_desc = demo_desc, ba_transaction_id = 7, ba_is_req = True,
     ba_content = replicate 3000 5, ba_trace_id = 0, ba_compression_info = \<lparr>ci_algo = 1, ci_accepted_algo = 1\<rparr>\<rparr>"

lemma demo_args_built:
  obtains qs where "build_rpc_packet plain_codec (\<lambda>_. 0) demo_args = Some qs" and "length qs \<le> 32 * 1024" and "qs \<noteq> []"
proof -
  obtain qs where qs: "build_rpc_packet plain_codec (\<lambda>_. 0) demo_args = Some qs" using build_rpc_packet_defined by blast
  have "length qs \<le> max 1 3000" using length_built_packets [OF qs] by (simp add: demo_args_def)
  then show thesis using that [OF qs] built_nonempty [OF qs] by simp
qed


lemma piece_packet_type: "piece_packet K uninit args p = Some q \<Longrightarrow> zc_type q = NIC"
  by (rule piece_packet_spec [of K uninit args p]) simp

lemma demo_head_len:
  "encoded_len plain_codec (build_rpc_piece demo_args (- 1) 0 []) \<le> 100"
  "encoded_len plain_codec (build_rpc_piece demo_args (- 1) (- 1) []) \<le> 100"
  by (simp_all add: plain_codec_def put_head_def put_body_def put_option_def put_desc_def put_info_def put_string_def put_bytes_def
      put_bool_def build_rpc_piece_def demo_args_def demo_desc_def)

theorem pieces_fit_datagram_witness:
  "\<exists>qs u. build_rpc_packet plain_codec (\<lambda>_. 0) demo_args = Some qs \<and> convert_type (\<lambda>_. 0) UDP (hd qs) = Some u \<and>
     length (inner u) + TAIL_RESERVED_SIZE \<le> RPC_PACKET_UDP_PAYLOAD_BUDGET"
proof -
  obtain qs where qs: "build_rpc_packet plain_codec (\<lambda>_. 0) demo_args = Some qs" "length qs \<le> 32 * 1024" "qs \<noteq> []"
    by (rule demo_args_built)
  have mx: "max_rpc_packet_encoded_len_for_udp = 1248"
    by (simp add: max_rpc_packet_encoded_len_for_udp_def udp_rpc_tunnel_overhead_def RPC_PACKET_UDP_PAYLOAD_BUDGET_def wire_simps)
  have "payload (hd qs) \<noteq> None" using built_packets(1) [OF qs(1)] qs(3) by (cases qs) (auto simp: Cons_eq_map_conv)
  moreover have "zc_type (hd qs) = NIC"
    using qs by (auto simp: build_rpc_packet_pieces those_Some_iff neq_Nil_conv Cons_eq_map_conv dest: piece_packet_type)
  ultimately obtain u where "convert_type (\<lambda>_. 0) UDP (hd qs) = Some u"
    by (auto simp: convert_type_def wire_simps payload_def slice_from_def payload_offset_def split: if_splits)
  then show ?thesis
    using pieces_fit_datagram [OF plain_codec_ok qs(1,2), of "hd qs" u] qs mx demo_head_len by simp
qed

section \<open>Messages beyond reach\<close>

text \<open>C27. A request that compresses by more than the factor 32 and is longer than 64 KiB cannot be expanded
  by the server: the handler is not run and the caller gets an execution error.\<close>

theorem highly_compressible_request_fails:
  assumes "zstd_correct z" and "compress_packet (Some z) accepted content = Some (Inr (buf, pb))" and "pb \<noteq> PbNone"
    and "length buf * 32 < length content" and "64 * 1024 < length content"
    and "rp_compression_info p = Some ci" and "ci_algo ci = pb_code pb" and "rp_body p = buf"
  shows "handle_rpc_request (Some z) M reg p desc = Inl (CompressionError (DecompressAttempts ZstdDefault)) \<and>
    seen_by_caller fmt (handle_rpc_request (Some z) M reg p desc) =
      Inl (ExecutionError (fmt (CompressionError (DecompressAttempts ZstdDefault))))"
proof -
  have "decompress_packet (Some z) pb buf = Inl (CompressionError (DecompressAttempts ZstdDefault))"
    using decompress_compressed_packet [of "Some z" accepted content buf pb] assms(1-5) by (simp add: decompress_reach_def)
  then show ?thesis
    using assms(6-8) by (simp add: handle_rpc_request_def seen_by_caller_def error_to_pb_def error_from_pb_def)
qed

theorem highly_compressible_request_fails_witness:
  "\<exists>buf. compress_packet (Some run_zstd) PbZstd (replicate 70000 5) = Some (Inr (buf, PbZstd)) \<and>
     handle_rpc_request (Some run_zstd) plain_messages Map.empty
       (build_rpc_piece (demo_args\<lparr>ba_compression_info := \<lparr>ci_algo = 2, ci_accepted_algo = 2\<rparr>\<rparr>) 1 0 buf) demo_desc =
       Inl (CompressionError (DecompressAttempts ZstdDefault))"
proof -
  let ?buf = "1 # u32_le (word_of_nat 70000) @ [5 :: u8]"
  have "compress_packet (Some run_zstd) PbZstd (replicate 70000 5) = Some (Inr (?buf, PbZstd))"
    using run_encode_replicate [of 70000 5]
    by (simp add: compress_packet_def algo_is_available_def compress_raw_def zstd_compress_def run_zstd_def)
  then show ?thesis
    using highly_compressible_request_fails [OF run_zstd_correct, of PbZstd "replicate 70000 5" ?buf PbZstd
        "build_rpc_piece (demo_args\<lparr>ba_compression_info := \<lparr>ci_algo = 2, ci_accepted_algo = 2\<rparr>\<rparr>) 1 0 ?buf"
        "\<lparr>ci_algo = 2, ci_accepted_algo = 2\<rparr>" plain_messages Map.empty demo_desc "\<lambda>_. []"]
    by (auto simp: build_rpc_piece_def)
qed

end
