(* ===== verification/Ip_Reassembler.thy ===== *)
theory Ip_Reassembler
  imports Prelude
begin

text \<open>
  Fragmentation of IPv4 datagrams in the user-space proxies:
  \<open>easytier-core/src/gateway/proxy/ip_reassembler.rs\<close>.

  The packet accessors belong to the \<open>smoltcp\<close> crate. A received packet is therefore the record
  \<open>ipv4_view\<close> of what its accessors return, and the header writer is a parameter of the composer. The
  \<open>u16\<close> arithmetic of the reassembler can leave its range on hostile input; the argument \<open>checked\<close> says
  whether the build traps that (a panic) or wraps around. Time is in milliseconds.
\<close>

section \<open>Arithmetic\<close>

definition add_u16 :: "bool \<Rightarrow> u16 \<Rightarrow> u16 \<Rightarrow> u16 may_panic" where
  "add_u16 checked a b = (if checked \<and> 2 ^ 16 \<le> unat a + unat b then panic else Some (a + b))"

definition sub_u16 :: "bool \<Rightarrow> u16 \<Rightarrow> u16 \<Rightarrow> u16 may_panic" where
  "sub_u16 checked a b = (if checked \<and> a < b then panic else Some (a - b))"

definition len_u16 :: "bytes \<Rightarrow> u16" where
  "len_u16 bs = word_of_nat (length bs)"

lemma add_u16_commute: "add_u16 checked a b = add_u16 checked b a"
  by (simp add: add_u16_def add.commute)

section \<open>One datagram\<close>

record ip_fragment =
  fr_offset :: u16
  fr_data :: bytes

record ip_packet =
  pk_total_length :: "u16 option"
  pk_fragments :: "ip_fragment list"

definition ip_packet_new :: ip_packet where
  "ip_packet_new = \<lparr>pk_total_length = None, pk_fragments = []\<rparr>"

text \<open>Whether a fragment overlaps one of those already held.\<close>

fun overlaps :: "bool \<Rightarrow> ip_fragment \<Rightarrow> ip_fragment list \<Rightarrow> bool may_panic" where
  "overlaps checked fragment [] = Some False"
| "overlaps checked fragment (existing # rest) = do {
     existing_end \<leftarrow> add_u16 checked (fr_offset existing) (len_u16 (fr_data existing));
     fragment_end \<leftarrow> add_u16 checked (fr_offset fragment) (len_u16 (fr_data fragment));
     if fr_offset existing \<le> fr_offset fragment \<and> fr_offset fragment < existing_end then Some True
     else if fr_offset fragment \<le> fr_offset existing \<and> fr_offset existing < fragment_end then Some True
     else overlaps checked fragment rest
   }"

definition packet_add_fragment :: "bool \<Rightarrow> ip_fragment \<Rightarrow> ip_packet \<Rightarrow> ip_packet may_panic" where
  "packet_add_fragment checked fragment pk = do {
     clash \<leftarrow> overlaps checked fragment (pk_fragments pk);
     Some (if clash then pk else pk\<lparr>pk_fragments := pk_fragments pk @ [fragment]\<rparr>)
   }"

definition set_total_length :: "u16 \<Rightarrow> ip_packet \<Rightarrow> ip_packet" where
  "set_total_length n pk = pk\<lparr>pk_total_length := Some n\<rparr>"

text \<open>The loop of \<open>assemble\<close>: \<open>Some None\<close> at a gap, otherwise the final offset and the bytes.\<close>

fun assemble_loop :: "bool \<Rightarrow> ip_fragment list \<Rightarrow> u16 \<Rightarrow> bytes \<Rightarrow> (u16 \<times> bytes) option may_panic" where
  "assemble_loop checked [] offset ret = Some (Some (offset, ret))"
| "assemble_loop checked (fragment # rest) offset ret =
     (if fr_offset fragment \<noteq> offset then Some None
      else do {
        offset' \<leftarrow> add_u16 checked offset (len_u16 (fr_data fragment));
        assemble_loop checked rest offset' (ret @ fr_data fragment)
      })"

definition assemble :: "bool \<Rightarrow> ip_packet \<Rightarrow> (bytes option \<times> ip_packet) may_panic" where
  "assemble checked pk =
     (case pk_total_length pk of
        None \<Rightarrow> Some (None, pk)
      | Some total_length \<Rightarrow> do {
          let pk1 = pk\<lparr>pk_fragments := sort_key fr_offset (pk_fragments pk)\<rparr>;
          r \<leftarrow> assemble_loop checked (pk_fragments pk1) 0 [];
          Some (case r of
                  None \<Rightarrow> None
                | Some (offset, ret) \<Rightarrow> if offset = total_length then Some ret else None, pk1)
        })"

section \<open>The reassembler\<close>

type_synonym reassembler_key = "u32 \<times> u32 \<times> u16"

record ipv4_view =
  iv_src :: u32
  iv_dst :: u32
  iv_ident :: u16
  iv_total_len :: u16
  iv_header_len :: u8
  iv_frag_offset :: u16
  iv_more_frags :: bool
  iv_payload :: bytes

record ip_reassembler =
  ra_packets :: "reassembler_key \<Rightarrow> (ip_packet \<times> nat) option"
  fragment_timeout :: nat

definition reassembler_new :: "nat \<Rightarrow> ip_reassembler" where
  "reassembler_new timeout = \<lparr>ra_packets = Map.empty, fragment_timeout = timeout\<rparr>"

definition is_packet_fragmented :: "ipv4_view \<Rightarrow> bool" where
  "is_packet_fragmented p \<longleftrightarrow> iv_frag_offset p \<noteq> 0 \<or> iv_more_frags p"

definition is_last_fragment :: "ipv4_view \<Rightarrow> bool" where
  "is_last_fragment p \<longleftrightarrow> \<not> iv_more_frags p"

definition fragment_of :: "ipv4_view \<Rightarrow> ip_fragment" where
  "fragment_of p = \<lparr>fr_offset = iv_frag_offset p, fr_data = iv_payload p\<rparr>"

definition view_key :: "ipv4_view \<Rightarrow> reassembler_key" where
  "view_key p = (iv_src p, iv_dst p, iv_ident p)"

definition add_fragment ::
  "bool \<Rightarrow> nat \<Rightarrow> ipv4_view \<Rightarrow> ip_reassembler \<Rightarrow> (bytes option \<times> ip_reassembler) may_panic" where
  "add_fragment checked now p ra = do {
     total_length \<leftarrow> sub_u16 checked (iv_total_len p) (ucast (iv_header_len p));
     if total_length \<noteq> len_u16 (iv_payload p) then Some (None, ra)
     else do {
       let key = view_key p;
       let fragment = fragment_of p;
       let (pk, stamp) = (case ra_packets ra key of Some v \<Rightarrow> v | None \<Rightarrow> (ip_packet_new, now));
       pk1 \<leftarrow> (if is_last_fragment p
               then do {
                 n \<leftarrow> add_u16 checked total_length (fr_offset fragment);
                 Some (set_total_length n pk)
               }
               else Some pk);
       pk2 \<leftarrow> packet_add_fragment checked fragment pk1;
       (r, pk3) \<leftarrow> assemble checked pk2;
       Some (case r of
               Some data \<Rightarrow> (Some data, ra\<lparr>ra_packets := (ra_packets ra)(key := None)\<rparr>)
             | None \<Rightarrow> (None, ra\<lparr>ra_packets := (ra_packets ra)(key \<mapsto> (pk3, now))\<rparr>))
     }
   }"

definition remove_expired_packets :: "nat \<Rightarrow> ip_reassembler \<Rightarrow> ip_reassembler" where
  "remove_expired_packets now ra = ra\<lparr>ra_packets := (\<lambda>k. case ra_packets ra k of
       None \<Rightarrow> None
     | Some (pk, stamp) \<Rightarrow> if now - stamp \<le> fragment_timeout ra then Some (pk, stamp) else None)\<rparr>"

section \<open>Composing\<close>

record ipv4_fields =
  if_src :: u32
  if_dst :: u32
  if_protocol :: u8
  if_ident :: u16
  if_total_len :: u16
  if_dont_frag :: bool
  if_more_frags :: bool
  if_frag_offset :: u16

record compose_args =
  ca_src :: u32
  ca_dst :: u32
  ca_protocol :: u8
  ca_payload_len :: nat
  ca_payload_mtu :: nat
  ca_ip_id :: u16

definition IPV4_HEADER_LEN :: nat where "IPV4_HEADER_LEN = 20"

definition piece_fields :: "compose_args \<Rightarrow> nat \<Rightarrow> nat \<Rightarrow> nat \<Rightarrow> nat \<Rightarrow> ipv4_fields" where
  "piece_fields args total_pieces cur_piece fragment_offset packet_len =
     \<lparr>if_src = ca_src args, if_dst = ca_dst args, if_protocol = ca_protocol args, if_ident = ca_ip_id args,
      if_total_len = word_of_nat packet_len, if_dont_frag = (total_pieces \<le> 1),
      if_more_frags = (1 < total_pieces \<and> cur_piece \<noteq> total_pieces - 1),
      if_frag_offset = (if 1 < total_pieces then word_of_nat fragment_offset else 0)\<rparr>"

text \<open>The loop works in place: each header is written over the end of the payload that was handed out
  before it. The writer \<open>emit\<close> fills the 20 bytes of a header. The callback may fail, which ends the loop.\<close>

function compose_loop ::
  "(ipv4_fields \<Rightarrow> bytes) \<Rightarrow> (bytes \<Rightarrow> 'e option) \<Rightarrow> compose_args \<Rightarrow> nat \<Rightarrow> bytes \<Rightarrow> nat \<Rightarrow> nat \<Rightarrow> nat \<Rightarrow>
   ('e option \<times> bytes list) may_panic" where
  "compose_loop emit cb args total_pieces buf buf_offset fragment_offset cur_piece =
     (if ca_payload_mtu args = 0 \<or> ca_payload_len args \<le> fragment_offset then Some (None, [])
      else do {
        let next_fragment_offset = min (fragment_offset + ca_payload_mtu args) (ca_payload_len args);
        let fragment_len = next_fragment_offset - fragment_offset;
        let packet_len = fragment_len + IPV4_HEADER_LEN;
        old \<leftarrow> slice_range buf_offset (buf_offset + packet_len) buf;
        let packet = emit (piece_fields args total_pieces cur_piece fragment_offset packet_len) @ drop IPV4_HEADER_LEN old;
        let buf' = overwrite buf_offset packet buf;
        (case cb packet of
           Some e \<Rightarrow> Some (Some e, [packet])
         | None \<Rightarrow> do {
             (r, more) \<leftarrow> compose_loop emit cb args total_pieces buf' (buf_offset + (next_fragment_offset - fragment_offset))
                            next_fragment_offset (cur_piece + 1);
             Some (r, packet # more)
           })
      })"
  by pat_completeness auto
termination
  by (relation "measure (\<lambda>(emit, cb, args, total_pieces, buf, buf_offset, fragment_offset, cur_piece).
        ca_payload_len args - fragment_offset)") auto

declare compose_loop.simps [simp del]

definition compose_ipv4_packet ::
  "(ipv4_fields \<Rightarrow> bytes) \<Rightarrow> (bytes \<Rightarrow> 'e option) \<Rightarrow> compose_args \<Rightarrow> bytes \<Rightarrow> ('e option \<times> bytes list) may_panic" where
  "compose_ipv4_packet emit cb args buf =
     (if ca_payload_mtu args = 0 then panic
      else
        let total_pieces = (ca_payload_len args + ca_payload_mtu args - 1) div ca_payload_mtu args
        in compose_loop emit cb args total_pieces buf 0 0 0)"

section \<open>A datagram in chunks\<close>

definition chunks_ok :: "bytes list \<Rightarrow> bool" where
  "chunks_ok cs \<longleftrightarrow> cs \<noteq> [] \<and> [] \<notin> set cs \<and> length (concat cs) < 2 ^ 16"

definition off :: "bytes list \<Rightarrow> nat \<Rightarrow> nat" where
  "off cs i = length (concat (take i cs))"

definition chunk_fragment :: "bytes list \<Rightarrow> nat \<Rightarrow> ip_fragment" where
  "chunk_fragment cs i = \<lparr>fr_offset = word_of_nat (off cs i), fr_data = cs ! i\<rparr>"

lemma off_0 [simp]: "off cs 0 = 0" by (simp add: off_def)
lemma off_all [simp]: "off cs (length cs) = length (concat cs)" by (simp add: off_def)

lemma off_Suc: "i < length cs \<Longrightarrow> off cs (Suc i) = off cs i + length (cs ! i)"
  by (simp add: off_def take_Suc_conv_app_nth)

lemma off_mono: "i \<le> j \<Longrightarrow> off cs i \<le> off cs j"
proof -
  assume "i \<le> j"
  then have "take j cs = take i cs @ take (j - i) (drop i cs)" by (metis le_add_diff_inverse take_add)
  then show ?thesis by (simp add: off_def)
qed

lemma off_less_iff:
  assumes "chunks_ok cs" and "i \<le> length cs" and "j \<le> length cs"
  shows "off cs i < off cs j \<longleftrightarrow> i < j"
proof
  assume "i < j"
  then have i: "i < length cs" using assms by simp
  then have "cs ! i \<noteq> []" using assms(1) by (metis chunks_ok_def nth_mem)
  then have "off cs i < off cs (Suc i)" using off_Suc [OF i] by simp
  also have "\<dots> \<le> off cs j" using \<open>i < j\<close> by (intro off_mono) simp
  finally show "off cs i < off cs j" .
next
  assume "off cs i < off cs j"
  then show "i < j" using off_mono [of j i cs] by (metis leI leD)
qed

lemma off_word:
  assumes "chunks_ok cs" and "i \<le> length cs"
  shows "unat (word_of_nat (off cs i) :: u16) = off cs i"
proof -
  have "off cs i \<le> length (concat cs)" using off_mono [OF assms(2), of cs] by simp
  then have "off cs i < 2 ^ 16" using assms(1) unfolding chunks_ok_def by linarith
  then show ?thesis by (simp add: unat_of_nat take_bit_eq_mod)
qed

lemma off_word_order:
  assumes "chunks_ok cs" and "i \<le> length cs" and "j \<le> length cs"
  shows "(word_of_nat (off cs i) :: u16) < word_of_nat (off cs j) \<longleftrightarrow> i < j"
    and "(word_of_nat (off cs i) :: u16) \<le> word_of_nat (off cs j) \<longleftrightarrow> i \<le> j"
    and "(word_of_nat (off cs i) :: u16) = word_of_nat (off cs j) \<longleftrightarrow> i = j"
proof -
  have lt: "(word_of_nat (off cs i) :: u16) < word_of_nat (off cs j) \<longleftrightarrow> i < j"
    if "i \<le> length cs" "j \<le> length cs" for i j
    unfolding word_less_nat_alt off_word [OF assms(1) that(1)] off_word [OF assms(1) that(2)]
    by (rule off_less_iff [OF assms(1) that])
  then show "(word_of_nat (off cs i) :: u16) < word_of_nat (off cs j) \<longleftrightarrow> i < j" using assms by blast
  show "(word_of_nat (off cs i) :: u16) \<le> word_of_nat (off cs j) \<longleftrightarrow> i \<le> j"
    using lt [of j i] assms(2,3) by (metis linorder_not_less)
  then show "(word_of_nat (off cs i) :: u16) = word_of_nat (off cs j) \<longleftrightarrow> i = j"
    using lt [of j i] lt [of i j] assms(2,3) by (metis linorder_neq_iff)
qed

lemma add_u16_off:
  assumes "chunks_ok cs" and "i < length cs"
  shows "add_u16 checked (word_of_nat (off cs i)) (len_u16 (cs ! i)) = Some (word_of_nat (off cs (Suc i)))"
proof -
  have lt: "off cs (Suc i) < 2 ^ 16"
    using off_mono [of "Suc i" "length cs" cs] assms unfolding chunks_ok_def by (simp add: Suc_le_eq)
  then have "unat (len_u16 (cs ! i)) = length (cs ! i)"
    using off_Suc [OF assms(2)] by (simp add: len_u16_def unat_of_nat take_bit_eq_mod)
  then show ?thesis
    using lt off_word [OF assms(1), of i] off_Suc [OF assms(2)] assms(2) by (simp add: add_u16_def len_u16_def)
qed

lemma overlaps_chunks:
  assumes "chunks_ok cs" and "i < length cs" and "set js \<subseteq> {..<length cs}"
  shows "overlaps checked (chunk_fragment cs i) (map (chunk_fragment cs) js) = Some (i \<in> set js)"
  using assms(3)
proof (induction js)
  case (Cons j js)
  then have j: "j < length cs" by simp
  have "(word_of_nat (off cs j) :: u16) \<le> word_of_nat (off cs i) \<and> (word_of_nat (off cs i) :: u16) < word_of_nat (off cs (Suc j)) \<longleftrightarrow> i = j"
    "(word_of_nat (off cs i) :: u16) \<le> word_of_nat (off cs j) \<and> (word_of_nat (off cs j) :: u16) < word_of_nat (off cs (Suc i)) \<longleftrightarrow> i = j"
    using off_word_order [OF assms(1)] assms(2) j by auto
  then show ?case
    using Cons add_u16_off [OF assms(1) j, of checked] add_u16_off [OF assms(1,2), of checked]
    by (simp add: chunk_fragment_def)
qed simp

section \<open>Assembling chunks\<close>

lemma assemble_loop_chunks:
  assumes "chunks_ok cs" and "sorted_wrt (<) js" and "\<forall>j\<in>set js. k \<le> j \<and> j < length cs"
  shows "assemble_loop checked (map (chunk_fragment cs) js) (word_of_nat (off cs k)) ret =
    Some (if js = [k..<k + length js]
          then Some (word_of_nat (off cs (k + length js)), ret @ concat (map ((!) cs) js)) else None)"
  using assms(2,3)
proof (induction js arbitrary: k ret)
  case (Cons j js)
  have j: "k \<le> j" "j < length cs" using Cons.prems(2) by auto
  show ?case
  proof (cases "j = k")
    case True
    have "assemble_loop checked (map (chunk_fragment cs) (j # js)) (word_of_nat (off cs k)) ret =
        assemble_loop checked (map (chunk_fragment cs) js) (word_of_nat (off cs (Suc k))) (ret @ cs ! j)"
      using True add_u16_off [OF assms(1) j(2), of checked] by (simp add: chunk_fragment_def)
    also have "\<dots> = Some (if js = [Suc k..<Suc k + length js]
          then Some (word_of_nat (off cs (Suc k + length js)), (ret @ cs ! j) @ concat (map ((!) cs) js)) else None)"
      by (rule Cons.IH) (use Cons.prems True in \<open>auto simp: Suc_le_eq\<close>)
    finally have loop: "assemble_loop checked (map (chunk_fragment cs) (j # js)) (word_of_nat (off cs k)) ret = \<dots>" .
    have "[k..<k + length (j # js)] = k # [Suc k..<Suc k + length js]"
      by (simp add: upt_conv_Cons del: upt_Suc)
    then have "j # js = [k..<k + length (j # js)] \<longleftrightarrow> js = [Suc k..<Suc k + length js]" using True by simp
    then show ?thesis unfolding loop by (simp del: upt_Suc)
  next
    case False
    then have "(word_of_nat (off cs j) :: u16) \<noteq> word_of_nat (off cs k)"
      using off_word_order(3) [OF assms(1), of j k] j by auto
    moreover have "j # js \<noteq> [k..<k + length (j # js)]" using False by (simp add: upt_conv_Cons del: upt_Suc)
    ultimately show ?thesis by (simp add: chunk_fragment_def del: upt_Suc)
  qed
qed simp

lemma insort_key_map:
  "(\<And>y. y \<in> set ys \<Longrightarrow> f (g x) \<le> f (g y) \<longleftrightarrow> x \<le> (y :: nat)) \<Longrightarrow> insort_key f (g x) (map g ys) = map g (insort x ys)"
  by (induction ys) auto

lemma sort_key_map:
  assumes "\<And>x y. x \<in> set xs \<Longrightarrow> y \<in> set xs \<Longrightarrow> f (g x) \<le> f (g y) \<longleftrightarrow> x \<le> (y :: nat)"
  shows "sort_key f (map g xs) = map g (sort xs)"
  using assms
proof (induction xs)
  case (Cons a xs)
  then have "insort_key f (g a) (map g (sort xs)) = map g (insort a (sort xs))" by (intro insort_key_map) simp
  then show ?case using Cons by simp
qed simp

definition holds :: "bytes list \<Rightarrow> nat set \<Rightarrow> ip_packet \<Rightarrow> bool" where
  "holds cs S pk \<longleftrightarrow> (\<exists>js. pk_fragments pk = map (chunk_fragment cs) js \<and> distinct js \<and> set js = S) \<and>
     pk_total_length pk = (if length cs - 1 \<in> S then Some (word_of_nat (length (concat cs))) else None)"

lemma full_range: "js = [0..<length js] \<and> length js = n \<longleftrightarrow> set js = {..<n}" if "sorted_wrt (<) js" for js :: "nat list"
proof
  assume "set js = {..<n}"
  then have "js = [0..<n]" using that by (metis atLeast0LessThan distinct_upt set_upt sorted_distinct_set_unique sorted_upt strict_sorted_iff)
  then show "js = [0..<length js] \<and> length js = n" by simp
next
  assume "js = [0..<length js] \<and> length js = n"
  then have "js = [0..<n]" by metis
  then show "set js = {..<n}" by auto
qed

lemma assemble_holds:
  assumes "chunks_ok cs" and "holds cs S pk" and "S \<subseteq> {..<length cs}"
  obtains pk' where "assemble checked pk = Some (if S = {..<length cs} then Some (concat cs) else None, pk')"
    and "holds cs S pk'"
proof -
  obtain js where js: "pk_fragments pk = map (chunk_fragment cs) js" "distinct js" "set js = S"
    using assms(2) by (auto simp: holds_def)
  have tot: "pk_total_length pk = (if length cs - 1 \<in> S then Some (word_of_nat (length (concat cs))) else None)"
    using assms(2) by (simp add: holds_def)
  have n: "length cs - 1 < length cs" using assms(1) by (simp add: chunks_ok_def)
  show thesis
  proof (cases "length cs - 1 \<in> S")
    case False
    then have "S \<noteq> {..<length cs}" using n by auto
    then show thesis using that [of pk] False tot assms(2) by (simp add: assemble_def)
  next
    case True
    let ?pk' = "pk\<lparr>pk_fragments := map (chunk_fragment cs) (sort js)\<rparr>"
    have sorted: "sort_key fr_offset (pk_fragments pk) = map (chunk_fragment cs) (sort js)"
      unfolding js(1)
    proof (rule sort_key_map)
      fix x y assume "x \<in> set js" "y \<in> set js"
      then have "x \<le> length cs" "y \<le> length cs" using assms(3) js(3) by auto
      then show "fr_offset (chunk_fragment cs x) \<le> fr_offset (chunk_fragment cs y) \<longleftrightarrow> x \<le> y"
        using off_word_order(2) [OF assms(1)] by (simp add: chunk_fragment_def)
    qed
    have loop: "assemble_loop checked (map (chunk_fragment cs) (sort js)) 0 [] =
        Some (if sort js = [0..<0 + length js]
          then Some (word_of_nat (off cs (0 + length js)), [] @ concat (map ((!) cs) (sort js))) else None)"
    proof -
      have "\<forall>j\<in>set (sort js). 0 \<le> j \<and> j < length cs" "sorted_wrt (<) (sort js)"
        using js(2,3) assms(3) by (auto simp: strict_sorted_iff)
      then show ?thesis using assemble_loop_chunks [OF assms(1), of "sort js" 0 checked "[]"] by simp
    qed
    have full: "sort js = [0..<length js] \<and> length js = length cs \<longleftrightarrow> S = {..<length cs}"
      using full_range [of "sort js" "length cs"] js(2,3) by (simp add: strict_sorted_iff)
    have "assemble checked pk = Some (if S = {..<length cs} then Some (concat cs) else None, ?pk')"
    proof (cases "sort js = [0..<length js]")
      case eq: True
      have le: "length js \<le> length cs" using js(2,3) assms(3) card_mono [of "{..<length cs}" S] distinct_card [of js] by simp
      show ?thesis
      proof (cases "length js = length cs")
        case True
        then show ?thesis using eq full loop sorted tot \<open>length cs - 1 \<in> S\<close> by (simp add: assemble_def map_nth)
      next
        case False
        then have "(word_of_nat (off cs (length js)) :: u16) \<noteq> word_of_nat (length (concat cs))"
          using off_word_order(3) [OF assms(1), of "length js" "length cs"] le by simp
        then show ?thesis using eq False full loop sorted tot \<open>length cs - 1 \<in> S\<close> by (auto simp: assemble_def)
      qed
    next
      case False
      then show ?thesis using full loop sorted tot \<open>length cs - 1 \<in> S\<close> by (auto simp: assemble_def)
    qed
    moreover have "holds cs S ?pk'" using js tot True by (auto simp: holds_def intro!: exI [of _ "sort js"])
    ultimately show thesis by (rule that)
  qed
qed

section \<open>The reassembler on chunks\<close>

definition chunk_view :: "reassembler_key \<Rightarrow> bytes list \<Rightarrow> nat \<Rightarrow> ipv4_view \<Rightarrow> bool" where
  "chunk_view key cs i p \<longleftrightarrow> view_key p = key \<and> fragment_of p = chunk_fragment cs i \<and>
     iv_more_frags p = (i \<noteq> length cs - 1) \<and> unat (iv_total_len p) = unat (iv_header_len p) + length (cs ! i)"

definition entry_holds :: "bytes list \<Rightarrow> nat set \<Rightarrow> (ip_packet \<times> nat) option \<Rightarrow> bool" where
  "entry_holds cs S entry = (case entry of None \<Rightarrow> S = {} | Some (pk, t) \<Rightarrow> holds cs S pk)"

lemma packet_add_fragment_holds:
  assumes "chunks_ok cs" and "i < length cs" and "S \<subseteq> {..<length cs}"
    and "\<exists>js. pk_fragments pk = map (chunk_fragment cs) js \<and> distinct js \<and> set js = S"
    and "pk_total_length pk = (if length cs - 1 \<in> insert i S then Some (word_of_nat (length (concat cs))) else None)"
  obtains pk' where "packet_add_fragment checked (chunk_fragment cs i) pk = Some pk'" and "holds cs (insert i S) pk'"
proof -
  obtain js where js: "pk_fragments pk = map (chunk_fragment cs) js" "distinct js" "set js = S" using assms(4) by blast
  have ov: "overlaps checked (chunk_fragment cs i) (pk_fragments pk) = Some (i \<in> S)"
    using overlaps_chunks [OF assms(1,2), of js checked] js assms(3) by simp
  let ?pk' = "if i \<in> S then pk else pk\<lparr>pk_fragments := pk_fragments pk @ [chunk_fragment cs i]\<rparr>"
  have "holds cs (insert i S) ?pk'"
  proof (cases "i \<in> S")
    case True
    then show ?thesis using js assms(5) by (auto simp: holds_def insert_absorb)
  next
    case False
    then show ?thesis using js assms(5) by (auto simp: holds_def intro!: exI [of _ "js @ [i]"])
  qed
  then show thesis using that [of ?pk'] ov by (simp add: packet_add_fragment_def)
qed

lemma add_fragment_chunk:
  assumes "chunks_ok cs" and "i < length cs" and "S \<subseteq> {..<length cs}"
    and "chunk_view key cs i p" and "entry_holds cs S (ra_packets ra key)"
  obtains ra' where "add_fragment checked now p ra =
      Some (if insert i S = {..<length cs} then Some (concat cs) else None, ra')"
    and "entry_holds cs (if insert i S = {..<length cs} then {} else insert i S) (ra_packets ra' key)"
proof -
  have p: "view_key p = key" "fragment_of p = chunk_fragment cs i" "is_last_fragment p = (i = length cs - 1)"
    and tl: "unat (iv_total_len p) = unat (iv_header_len p) + length (cs ! i)"
    using assms(4) by (simp_all add: chunk_view_def is_last_fragment_def)
  have data: "iv_payload p = cs ! i" using p(2) by (simp add: fragment_of_def chunk_fragment_def)
  have hl: "unat (ucast (iv_header_len p) :: u16) = unat (iv_header_len p)"
    using unat_byte_lt [of "iv_header_len p"] by (simp add: unsigned_ucast_eq take_bit_nat_eq_self_iff)
  have le: "(ucast (iv_header_len p) :: u16) \<le> iv_total_len p" using tl hl by (simp add: word_le_nat_alt)
  have len: "unat (iv_total_len p - ucast (iv_header_len p)) = length (cs ! i)"
    using unat_sub [OF le] tl hl by simp
  have "iv_total_len p - ucast (iv_header_len p) = word_of_nat (unat (iv_total_len p - ucast (iv_header_len p)))"
    by simp
  then have tot: "iv_total_len p - ucast (iv_header_len p) = len_u16 (cs ! i)"
    unfolding len len_u16_def .
  have sub: "sub_u16 checked (iv_total_len p) (ucast (iv_header_len p)) = Some (len_u16 (cs ! i))"
    using leD [OF le] tot by (simp add: sub_u16_def)
  define pk where "pk = (case ra_packets ra key of Some v \<Rightarrow> fst v | None \<Rightarrow> ip_packet_new)"
  have pk: "\<exists>js. pk_fragments pk = map (chunk_fragment cs) js \<and> distinct js \<and> set js = S"
    "pk_total_length pk = (if length cs - 1 \<in> S then Some (word_of_nat (length (concat cs))) else None)"
    using assms(5) by (auto simp: entry_holds_def pk_def holds_def ip_packet_new_def split: option.splits)
  define pk1 where "pk1 = (if i = length cs - 1 then set_total_length (word_of_nat (length (concat cs))) pk else pk)"
  have last: "add_u16 checked (len_u16 (cs ! i)) (word_of_nat (off cs i)) = Some (word_of_nat (length (concat cs)))"
    if "i = length cs - 1"
  proof -
    have "Suc i = length cs" using that assms(2) by simp
    then have "off cs (Suc i) = length (concat cs)" by (simp only: off_all)
    then show ?thesis using add_u16_off [OF assms(1,2), of checked] by (simp add: add_u16_commute)
  qed
  have pk1: "\<exists>js. pk_fragments pk1 = map (chunk_fragment cs) js \<and> distinct js \<and> set js = S"
    "pk_total_length pk1 = (if length cs - 1 \<in> insert i S then Some (word_of_nat (length (concat cs))) else None)"
    using pk by (auto simp: pk1_def set_total_length_def)
  obtain pk2 where pk2: "packet_add_fragment checked (chunk_fragment cs i) pk1 = Some pk2" "holds cs (insert i S) pk2"
    by (rule packet_add_fragment_holds [OF assms(1-3) pk1])
  obtain pk3 where pk3: "assemble checked pk2 = Some (if insert i S = {..<length cs} then Some (concat cs) else None, pk3)"
      "holds cs (insert i S) pk3"
    by (rule assemble_holds [OF assms(1) pk2(2)]) (use assms(2,3) in auto)
  let ?ra' = "if insert i S = {..<length cs} then ra\<lparr>ra_packets := (ra_packets ra)(key := None)\<rparr>
     else ra\<lparr>ra_packets := (ra_packets ra)(key \<mapsto> (pk3, now))\<rparr>"
  have entry: "(case ra_packets ra key of None \<Rightarrow> (ip_packet_new, now) | Some v \<Rightarrow> v) =
      (pk, case ra_packets ra key of None \<Rightarrow> now | Some v \<Rightarrow> snd v)"
    by (simp add: pk_def split: option.split)
  have "add_fragment checked now p ra = Some (if insert i S = {..<length cs} then Some (concat cs) else None, ?ra')"
  proof (cases "i = length cs - 1")
    case True
    then show ?thesis using sub data p last pk2(1) pk3(1) entry
      by (auto simp: add_fragment_def Let_def pk1_def chunk_fragment_def)
  next
    case False
    then show ?thesis using sub data p pk2(1) pk3(1) entry
      by (auto simp: add_fragment_def Let_def pk1_def)
  qed
  moreover have "entry_holds cs (if insert i S = {..<length cs} then {} else insert i S) (ra_packets ?ra' key)"
    using pk3(2) by (simp add: entry_holds_def)
  ultimately show thesis by (rule that)
qed

lemma packet_add_fragment_unchecked: "\<exists>pk'. packet_add_fragment False f pk = Some pk'"
proof -
  have "\<exists>b. overlaps False f fs = Some b" for fs by (induction fs) (auto simp: add_u16_def)
  then obtain b where "overlaps False f (pk_fragments pk) = Some b" by blast
  then show ?thesis by (simp add: packet_add_fragment_def)
qed

lemma assemble_unchecked: "\<exists>r pk'. assemble False pk = Some (r, pk')"
proof (cases "pk_total_length pk")
  case (Some n)
  have "\<exists>r. assemble_loop False fs n ret = Some r" for fs n ret
    by (induction fs arbitrary: n ret) (auto simp: add_u16_def)
  then obtain r where "assemble_loop False (sort_key fr_offset (pk_fragments pk)) 0 [] = Some r" by blast
  then show ?thesis using Some by (simp add: assemble_def)
qed (simp add: assemble_def)

lemma add_fragment_other:
  assumes "view_key p \<noteq> key"
  obtains r ra' where "add_fragment False now p ra = Some (r, ra')" and "ra_packets ra' key = ra_packets ra key"
proof (cases "iv_total_len p - ucast (iv_header_len p) = len_u16 (iv_payload p)")
  case False
  then show thesis using that [of None ra] by (simp add: add_fragment_def sub_u16_def)
next
  case True
  obtain pk stamp where e: "(case ra_packets ra (view_key p) of Some v \<Rightarrow> v | None \<Rightarrow> (ip_packet_new, now)) = (pk, stamp)"
    by (metis surj_pair)
  define pk1 where "pk1 = (if is_last_fragment p
      then set_total_length (len_u16 (iv_payload p) + fr_offset (fragment_of p)) pk else pk)"
  obtain pk2 where pk2: "packet_add_fragment False (fragment_of p) pk1 = Some pk2" using packet_add_fragment_unchecked by blast
  obtain r pk3 where pk3: "assemble False pk2 = Some (r, pk3)" using assemble_unchecked by blast
  have "add_fragment False now p ra = Some (case r of
       Some data \<Rightarrow> (Some data, ra\<lparr>ra_packets := (ra_packets ra)(view_key p := None)\<rparr>)
     | None \<Rightarrow> (None, ra\<lparr>ra_packets := (ra_packets ra)(view_key p \<mapsto> (pk3, now))\<rparr>))"
    using True pk2 pk3 e
    by (cases "is_last_fragment p") (simp_all add: add_fragment_def sub_u16_def add_u16_def Let_def pk1_def)
  then show thesis using that assms by (cases r) auto
qed

section \<open>Reassembly\<close>

text \<open>Arrivals: fragments of the datagram, by their number, and other fragments.\<close>

fun reassemble_run ::
  "bool \<Rightarrow> (nat \<Rightarrow> ipv4_view) \<Rightarrow> (nat \<times> (nat + ipv4_view)) list \<Rightarrow> ip_reassembler \<Rightarrow>
   (bytes option list \<times> ip_reassembler) may_panic" where
  "reassemble_run checked vs [] ra = Some ([], ra)"
| "reassemble_run checked vs ((now, x) # as) ra = do {
     (r, ra1) \<leftarrow> add_fragment checked now (case x of Inl i \<Rightarrow> vs i | Inr p \<Rightarrow> p) ra;
     (rs, ra2) \<leftarrow> reassemble_run checked vs as ra1;
     Some (r # rs, ra2)
   }"

fun numbers :: "(nat \<times> (nat + ipv4_view)) list \<Rightarrow> nat set" where
  "numbers [] = {}"
| "numbers ((now, Inl i) # as) = insert i (numbers as)"
| "numbers ((now, Inr p) # as) = numbers as"

lemma numbers_subset: "(\<And>now i. (now, Inl i) \<in> set as \<Longrightarrow> i < n) \<Longrightarrow> numbers as \<subseteq> {..<n}"
  by (induction "as" rule: numbers.induct) auto

lemma reassemble_run_chunks:
  assumes "chunks_ok cs" and "\<And>i. i < length cs \<Longrightarrow> chunk_view key cs i (vs i)"
    and "\<forall>(now, x)\<in>set as. case x of Inl i \<Rightarrow> i < length cs | Inr p \<Rightarrow> \<not> checked \<and> view_key p \<noteq> key"
    and "S \<subseteq> {..<length cs}" and "entry_holds cs S (ra_packets ra key)"
    and "as \<noteq> [] \<Longrightarrow> S \<union> numbers (butlast as) \<noteq> {..<length cs}"
  shows "\<exists>rs ra'. reassemble_run checked vs as ra = Some (rs, ra') \<and> length rs = length as \<and>
    (\<forall>k<length as. isl (snd (as ! k)) \<longrightarrow>
       rs ! k = (if S \<union> numbers (take (Suc k) as) = {..<length cs} then Some (concat cs) else None))"
  using assms(3-)
proof (induction "as" arbitrary: S ra)
  case (Cons a "as")
  have step: ?case
    if r: "add_fragment checked (fst a) (case snd a of Inl i \<Rightarrow> vs i | Inr p \<Rightarrow> p) ra = Some (r, ra1)"
      and run: "reassemble_run checked vs as ra1 = Some (rs, ra')" "length rs = length as"
        "\<forall>k<length as. isl (snd (as ! k)) \<longrightarrow>
          rs ! k = (if (S \<union> numbers [a]) \<union> numbers (take (Suc k) as) = {..<length cs} then Some (concat cs) else None)"
      and first: "isl (snd a) \<Longrightarrow> r = (if S \<union> numbers [a] = {..<length cs} then Some (concat cs) else None)"
    for r ra1 rs ra'
  proof -
    have num: "numbers (a # xs) = numbers [a] \<union> numbers xs" for xs by (cases a; cases "snd a") auto
    have "reassemble_run checked vs (a # as) ra = Some (r # rs, ra')" using r run(1) by (cases a) simp
    moreover have "\<forall>k<length (a # as). isl (snd ((a # as) ! k)) \<longrightarrow> (r # rs) ! k =
        (if S \<union> numbers (take (Suc k) (a # as)) = {..<length cs} then Some (concat cs) else None)"
    proof (intro allI impI)
      fix k assume k: "k < length (a # as)" "isl (snd ((a # as) ! k))"
      show "(r # rs) ! k = (if S \<union> numbers (take (Suc k) (a # as)) = {..<length cs} then Some (concat cs) else None)"
      proof (cases k)
        case (Suc j)
        then show ?thesis using run(3) k num [of "take (Suc j) as"] by (simp add: Un_assoc)
      qed (use first k in simp)
    qed
    ultimately show ?thesis using run(2) by auto
  qed
  obtain now x where a: "a = (now, x)" by (cases a)
  show ?case
  proof (cases x)
    case (Inl i)
    have i: "i < length cs" using Cons.prems(1) a Inl by auto
    obtain ra1 where r1: "add_fragment checked now (vs i) ra =
        Some (if insert i S = {..<length cs} then Some (concat cs) else None, ra1)"
        "entry_holds cs (if insert i S = {..<length cs} then {} else insert i S) (ra_packets ra1 key)"
      by (rule add_fragment_chunk [OF assms(1) i Cons.prems(2) assms(2) [OF i] Cons.prems(3)])
    show ?thesis
    proof (cases "as = []")
      case True
      then show ?thesis using r1(1) a Inl by simp
    next
      case False
      then have more: "insert i S \<union> numbers (butlast as) \<noteq> {..<length cs}" using Cons.prems(4) a Inl by simp
      have sub: "numbers (butlast as) \<subseteq> {..<length cs}"
        using Cons.prems(1) by (intro numbers_subset) (fastforce dest: in_set_butlastD)
      then have ne: "insert i S \<noteq> {..<length cs}" using more by blast
      obtain rs ra' where run: "reassemble_run checked vs as ra1 = Some (rs, ra')" "length rs = length as"
        "\<forall>k<length as. isl (snd (as ! k)) \<longrightarrow>
          rs ! k = (if insert i S \<union> numbers (take (Suc k) as) = {..<length cs} then Some (concat cs) else None)"
        using Cons.IH [of "insert i S" ra1] Cons.prems(1,2) i r1(2) ne more by auto
      show ?thesis by (rule step [OF _ run(1,2)]) (use r1(1) run(3) a Inl in auto)
    qed
  next
    case (Inr p)
    have oth: "\<not> checked" "view_key p \<noteq> key" using Cons.prems(1) a Inr by auto
    obtain r ra1 where r1: "add_fragment False now p ra = Some (r, ra1)" "ra_packets ra1 key = ra_packets ra key"
      by (rule add_fragment_other [OF oth(2)])
    obtain rs ra' where run: "reassemble_run checked vs as ra1 = Some (rs, ra')" "length rs = length as"
        "\<forall>k<length as. isl (snd (as ! k)) \<longrightarrow>
          rs ! k = (if S \<union> numbers (take (Suc k) as) = {..<length cs} then Some (concat cs) else None)"
      using Cons.IH [of S ra1] Cons.prems r1(2) a Inr by (cases "as = []") auto
    show ?thesis by (rule step [OF _ run(1,2)]) (use r1(1) oth(1) run(3) a Inr in auto)
  qed
qed simp

section \<open>Composed fragments\<close>

definition payload_chunk :: "nat \<Rightarrow> bytes \<Rightarrow> nat \<Rightarrow> bytes" where
  "payload_chunk mtu payload i = take mtu (drop (i * mtu) payload)"

definition piece_count :: "nat \<Rightarrow> nat \<Rightarrow> nat" where
  "piece_count mtu n = (n + mtu - 1) div mtu"

definition composed_packet :: "(ipv4_fields \<Rightarrow> bytes) \<Rightarrow> compose_args \<Rightarrow> bytes \<Rightarrow> nat \<Rightarrow> bytes" where
  "composed_packet emit args payload i =
     (let chunk = payload_chunk (ca_payload_mtu args) payload i
      in emit (piece_fields args (piece_count (ca_payload_mtu args) (length payload)) i
                 (i * ca_payload_mtu args) (length chunk + IPV4_HEADER_LEN)) @ chunk)"

lemma piece_count_less_iff:
  assumes "0 < mtu" shows "k < piece_count mtu n \<longleftrightarrow> k * mtu < n"
proof -
  have "k < piece_count mtu n \<longleftrightarrow> Suc k * mtu \<le> n + mtu - 1"
    unfolding piece_count_def using less_eq_div_iff_mult_less_eq [OF assms, of "Suc k" "n + mtu - 1"] by auto
  also have "\<dots> \<longleftrightarrow> k * mtu < n" using assms by auto
  finally show ?thesis .
qed

lemma overwrite_front:
  assumes "length h \<le> l" and "n + l \<le> length xs"
  shows "overwrite n (h @ drop (length h) (take l (drop n xs))) xs = overwrite n h xs"
proof -
  have "drop (length h) (take l (drop n xs)) @ drop (n + l) xs = drop (n + length h) xs"
    using assms append_take_drop_id [of "l - length h" "drop (n + length h) xs"]
    by (simp add: drop_take add.commute)
  then show ?thesis using assms by (simp add: overwrite_def)
qed

lemma compose_loop_step:
  assumes "0 < ca_payload_mtu args" and "fo < ca_payload_len args" and "cb packet = None"
    and "fo' = min (fo + ca_payload_mtu args) (ca_payload_len args)" and "l = fo' - fo + IPV4_HEADER_LEN"
    and "fo + l \<le> length buf"
    and "packet = emit (piece_fields args pieces k fo l) @ drop IPV4_HEADER_LEN (take l (drop fo buf))"
  shows "compose_loop emit cb args pieces buf fo fo k = do {
      (r, more) \<leftarrow> compose_loop emit cb args pieces (overwrite fo packet buf) fo' fo' (Suc k);
      Some (r, packet # more) }"
proof -
  have fo': "fo + (fo' - fo) = fo'" using assms(1,2,4) by simp
  have "slice_range fo (fo + l) buf = Some (take l (drop fo buf))" using assms(6) by (simp add: slice_range_def)
  then show ?thesis
    using assms(1-3)
    by (subst compose_loop.simps)
       (simp add: Let_def assms(4,5) [symmetric] assms(7) [symmetric] fo')
qed

lemma compose_loop_packets:
  assumes mtu: "0 < ca_payload_mtu args" and emit: "\<And>h. length (emit h) = IPV4_HEADER_LEN" and cb: "\<And>p. cb p = None"
    and payload: "payload = take (ca_payload_len args) (drop IPV4_HEADER_LEN buf0)"
    and len: "IPV4_HEADER_LEN + ca_payload_len args \<le> length buf0"
  defines "pieces \<equiv> piece_count (ca_payload_mtu args) (ca_payload_len args)"
  assumes "k \<le> pieces" and "fo = min (k * ca_payload_mtu args) (ca_payload_len args)"
    and "length buf = length buf0" and "drop (fo + IPV4_HEADER_LEN) buf = drop (fo + IPV4_HEADER_LEN) buf0"
  shows "compose_loop emit cb args pieces buf fo fo k = Some (None, map (composed_packet emit args payload) [k..<pieces])"
  using assms(7-)
proof (induction "pieces - k" arbitrary: k fo buf)
  case 0
  then have "ca_payload_len args \<le> k * ca_payload_mtu args"
    using piece_count_less_iff [OF mtu, of k "ca_payload_len args"] by (simp add: pieces_def not_less)
  then show ?case using 0 by (subst compose_loop.simps) simp
next
  case (Suc d)
  let ?mtu = "ca_payload_mtu args" and ?n = "ca_payload_len args"
  have k: "k < pieces" using Suc.hyps(2) by simp
  then have fo: "k * ?mtu < ?n" "fo = k * ?mtu"
    using piece_count_less_iff [OF mtu] Suc.prems(2) by (simp_all add: pieces_def)
  define fo' where "fo' = min (fo + ?mtu) ?n"
  have fo': "fo < fo'" "fo' \<le> ?n" "fo' = min (Suc k * ?mtu) ?n" using fo mtu by (auto simp: fo'_def)
  let ?l = "fo' - fo + IPV4_HEADER_LEN"
  have payload_len: "length payload = ?n" using len by (simp add: payload)
  have chunk: "payload_chunk ?mtu payload k = take (fo' - fo) (drop (fo + IPV4_HEADER_LEN) buf)"
    using fo Suc.prems(4) by (auto simp: payload_chunk_def payload drop_take fo'_def min_def add.commute)
  have chunk_len: "length (payload_chunk ?mtu payload k) = fo' - fo"
    using fo payload_len by (auto simp: payload_chunk_def fo'_def)
  define h where "h = emit (piece_fields args pieces k fo ?l)"
  have packet: "h @ drop IPV4_HEADER_LEN (take ?l (drop fo buf)) = composed_packet emit args payload k"
    using chunk chunk_len fo payload_len
    by (simp add: composed_packet_def Let_def h_def pieces_def drop_take add.commute)
  have room: "fo + ?l \<le> length buf" using fo'(1,2) len Suc.prems(3) by linarith
  have h: "length h = IPV4_HEADER_LEN" by (simp add: h_def emit)
  let ?buf = "overwrite fo h buf"
  have over: "overwrite fo (composed_packet emit args payload k) buf = ?buf"
    using overwrite_front [of h ?l fo buf] room h packet by simp
  have "drop (fo' + IPV4_HEADER_LEN) ?buf = drop (fo' + IPV4_HEADER_LEN) buf"
    using fo' h room by (intro drop_overwrite_after) auto
  also have "\<dots> = drop (fo' - fo) (drop (fo + IPV4_HEADER_LEN) buf)" using fo' by (simp add: add.commute)
  also have "\<dots> = drop (fo' + IPV4_HEADER_LEN) buf0" using fo' Suc.prems(4) by (simp add: add.commute)
  finally have rest: "drop (fo' + IPV4_HEADER_LEN) ?buf = drop (fo' + IPV4_HEADER_LEN) buf0" .
  have "compose_loop emit cb args pieces ?buf fo' fo' (Suc k) =
      Some (None, map (composed_packet emit args payload) [Suc k..<pieces])"
    using Suc.hyps(2) k fo'(3) rest room h Suc.prems(3) by (intro Suc.hyps(1)) (auto simp: length_overwrite)
  moreover have "compose_loop emit cb args pieces buf fo fo k = do {
      (r, more) \<leftarrow> compose_loop emit cb args pieces ?buf fo' fo' (Suc k);
      Some (r, composed_packet emit args payload k # more) }"
    using fo packet [symmetric] cb
    by (subst over [symmetric], intro compose_loop_step [OF mtu _ _ fo'_def refl room]) (simp_all add: h_def)
  ultimately show ?case using k by (simp add: upt_conv_Cons)
qed

text \<open>What the composer and the reassembler rely on in the header accessors: a written header takes 20 bytes
  and reads back, the offset being kept in units of eight bytes.\<close>

definition ipv4_wire :: "(ipv4_fields \<Rightarrow> bytes) \<Rightarrow> (bytes \<Rightarrow> ipv4_view) \<Rightarrow> bool" where
  "ipv4_wire emit parse \<longleftrightarrow> (\<forall>h body. length (emit h) = IPV4_HEADER_LEN \<and>
     (unat (if_total_len h) = IPV4_HEADER_LEN + length body \<and> 8 dvd unat (if_frag_offset h) \<longrightarrow>
      parse (emit h @ body) =
        \<lparr>iv_src = if_src h, iv_dst = if_dst h, iv_ident = if_ident h, iv_total_len = if_total_len h,
         iv_header_len = 20, iv_frag_offset = if_frag_offset h, iv_more_frags = if_more_frags h, iv_payload = body\<rparr>))"

lemma ipv4_wireD:
  assumes "ipv4_wire emit parse"
  shows "length (emit h) = IPV4_HEADER_LEN"
    and "unat (if_total_len h) = IPV4_HEADER_LEN + length body \<Longrightarrow> 8 dvd unat (if_frag_offset h) \<Longrightarrow>
      parse (emit h @ body) =
        \<lparr>iv_src = if_src h, iv_dst = if_dst h, iv_ident = if_ident h, iv_total_len = if_total_len h,
         iv_header_len = 20, iv_frag_offset = if_frag_offset h, iv_more_frags = if_more_frags h, iv_payload = body\<rparr>"
  using assms unfolding ipv4_wire_def by blast+

lemma concat_payload_chunks:
  "concat (map (payload_chunk mtu payload) [0..<k]) = take (k * mtu) payload"
proof (induction k)
  case (Suc k)
  have "Suc k * mtu = k * mtu + mtu" by simp
  then show ?case using Suc by (simp only: take_add payload_chunk_def) (simp add: payload_chunk_def)
qed simp

lemma payload_chunks_ok:
  assumes "0 < mtu" and "0 < length payload" and "length payload < 2 ^ 16"
  defines "cs \<equiv> map (payload_chunk mtu payload) [0..<piece_count mtu (length payload)]"
  shows "chunks_ok cs" and "concat cs = payload"
    and "\<And>i. i < length cs \<Longrightarrow> off cs i = i * mtu"
proof -
  have all: "length payload \<le> piece_count mtu (length payload) * mtu"
    using piece_count_less_iff [OF assms(1), of "piece_count mtu (length payload)" "length payload"] by simp
  then show cat: "concat cs = payload" by (simp add: cs_def concat_payload_chunks)
  have "payload_chunk mtu payload i \<noteq> []" if "i < piece_count mtu (length payload)" for i
    using that assms(1) piece_count_less_iff [OF assms(1)] by (simp add: payload_chunk_def)
  then have "[] \<notin> set cs" by (force simp: cs_def)
  then show "chunks_ok cs" using cat assms(2,3) unfolding chunks_ok_def by auto
  fix i assume "i < length cs"
  then have i: "i < piece_count mtu (length payload)" by (simp add: cs_def)
  then have "take i cs = map (payload_chunk mtu payload) [0..<i]" by (simp add: cs_def take_map)
  moreover have "i * mtu < length payload" using i piece_count_less_iff [OF assms(1)] by simp
  ultimately show "off cs i = i * mtu" by (simp add: off_def concat_payload_chunks)
qed

lemma unat_u16_of_nat: "n < 2 ^ 16 \<Longrightarrow> unat (word_of_nat n :: u16) = n"
  by (simp add: unat_of_nat take_bit_eq_mod)

lemma composed_chunk_view:
  assumes wire: "ipv4_wire emit parse" and mtu: "0 < ca_payload_mtu args" "8 dvd ca_payload_mtu args"
    and len: "0 < length payload" "length payload + IPV4_HEADER_LEN < 2 ^ 16"
  defines "cs \<equiv> map (payload_chunk (ca_payload_mtu args) payload) [0..<piece_count (ca_payload_mtu args) (length payload)]"
  assumes i: "i < length cs"
  shows "chunk_view (ca_src args, ca_dst args, ca_ip_id args) cs i (parse (composed_packet emit args payload i))"
proof -
  let ?mtu = "ca_payload_mtu args"
  have cs: "chunks_ok cs" "concat cs = payload" "\<And>i. i < length cs \<Longrightarrow> off cs i = i * ?mtu"
    using payload_chunks_ok [OF mtu(1) len(1)] len(2) unfolding cs_def by auto
  define h where "h = piece_fields args (piece_count ?mtu (length payload)) i (i * ?mtu)
      (length (payload_chunk ?mtu payload i) + IPV4_HEADER_LEN)"
  have pieces: "length cs = piece_count ?mtu (length payload)" and nth: "cs ! i = payload_chunk ?mtu payload i"
    using i by (simp_all add: cs_def)
  have "length (payload_chunk ?mtu payload i) \<le> length payload" by (simp add: payload_chunk_def)
  then have total: "unat (if_total_len h) = IPV4_HEADER_LEN + length (payload_chunk ?mtu payload i)"
    using len(2) by (simp add: h_def piece_fields_def unat_u16_of_nat del: of_nat_add)
  have offset: "if_frag_offset h = word_of_nat (i * ?mtu)"
    using i pieces by (cases i) (auto simp: h_def piece_fields_def)
  have "unat (if_frag_offset h) = i * ?mtu" using off_word [OF cs(1), of i] cs(3) [OF i] i offset by simp
  then have "8 dvd unat (if_frag_offset h)" using mtu(2) by simp
  note parsed = ipv4_wireD(2) [OF wire total this]
  have last: "if_more_frags h \<longleftrightarrow> i \<noteq> length cs - 1" using i pieces by (auto simp: h_def piece_fields_def)
  have "composed_packet emit args payload i = emit h @ payload_chunk ?mtu payload i"
    by (simp add: composed_packet_def Let_def h_def)
  then show ?thesis
    using parsed total last offset cs(3) [OF i] nth
    by (simp add: chunk_view_def view_key_def fragment_of_def chunk_fragment_def IPV4_HEADER_LEN_def)
       (simp add: h_def piece_fields_def)
qed

lemma numbers_butlast_other: "as \<noteq> [] \<Longrightarrow> \<not> isl (snd (last as)) \<Longrightarrow> numbers (butlast as) = numbers as"
proof (induction "as" rule: numbers.induct)
  case (2 now i "as")
  then show ?case by (cases "as = []") auto
next
  case (3 now p "as")
  then show ?case by (cases "as = []") auto
qed simp

lemma numbers_eq: "numbers as = {i. \<exists>t. (t, Inl i) \<in> set as}"
  by (induction "as" rule: numbers.induct) auto

lemma numbers_mono: "set xs \<subseteq> set ys \<Longrightarrow> numbers xs \<subseteq> numbers ys"
  unfolding numbers_eq by blast

lemma reassemble_any_order:
  assumes "chunks_ok cs" and "\<forall>i<length cs. chunk_view key cs i (vs i)" and "ra_packets ra key = None"
    and "\<forall>(now, x)\<in>set as. case x of Inl i \<Rightarrow> i < length cs | Inr p \<Rightarrow> \<not> checked \<and> view_key p \<noteq> key"
    and "numbers as = {..<length cs}" and "numbers (butlast as) \<noteq> {..<length cs}"
  shows "\<exists>rs ra'. reassemble_run checked vs as ra = Some (rs, ra') \<and> length rs = length as \<and>
    last rs = Some (concat cs) \<and> (\<forall>k<length as - 1. isl (snd (as ! k)) \<longrightarrow> rs ! k = None)"
proof -
  have ne: "as \<noteq> []" using assms(5,6) by (metis butlast.simps(1))
  have lastl: "isl (snd (as ! (length as - 1)))"
    using numbers_butlast_other [OF ne] assms(5,6) ne by (auto simp: last_conv_nth)
  obtain rs ra' where run: "reassemble_run checked vs as ra = Some (rs, ra')" "length rs = length as"
    "\<forall>k<length as. isl (snd (as ! k)) \<longrightarrow>
       rs ! k = (if {} \<union> numbers (take (Suc k) as) = {..<length cs} then Some (concat cs) else None)"
    using reassemble_run_chunks [OF assms(1) _ assms(4), of vs "{}" ra] assms(2,3,6)
    by (auto simp: entry_holds_def)
  have "last rs = rs ! (length as - 1)" using run(2) ne by (metis last_conv_nth length_0_conv)
  also have "\<dots> = Some (concat cs)" using run(3) lastl ne assms(5) by simp
  finally have "last rs = Some (concat cs)" .
  moreover have "rs ! k = None" if k: "k < length as - 1" "isl (snd (as ! k))" for k
  proof -
    have "set (take (Suc k) as) \<subseteq> set (butlast as)"
      unfolding butlast_conv_take using k(1) by (intro set_take_subset_set_take) simp
    then have "numbers (take (Suc k) as) \<subseteq> numbers (butlast as)" by (rule numbers_mono)
    moreover have "numbers (butlast as) \<subseteq> {..<length cs}"
      unfolding assms(5) [symmetric] by (rule numbers_mono) (auto dest: in_set_butlastD)
    ultimately have "numbers (take (Suc k) as) \<noteq> {..<length cs}" using assms(6) by blast
    then show ?thesis using run(3) k by simp
  qed
  ultimately show ?thesis using run(1,2) by blast
qed

text \<open>C28. A fragmented datagram is delivered exactly when its last missing fragment arrives. The fragments
  of the datagram may come in any order, with repetitions, and mixed with fragments of other datagrams;
  each arrival before the completing one yields nothing and the completing one yields the whole payload.
  In a build that traps arithmetic overflow the claim is made without foreign fragments, which could
  panic there.\<close>

theorem fragments_reassemble_in_any_order:
  assumes "chunks_ok cs" and "\<forall>i<length cs. chunk_view key cs i (vs i)" and "ra_packets ra key = None"
    and "\<forall>(now, x)\<in>set as. case x of Inl i \<Rightarrow> i < length cs | Inr p \<Rightarrow> \<not> checked \<and> view_key p \<noteq> key"
    and "numbers as = {..<length cs}" and "numbers (butlast as) \<noteq> {..<length cs}"
  shows "\<exists>rs ra'. reassemble_run checked vs as ra = Some (rs, ra') \<and> length rs = length as \<and>
    last rs = Some (concat cs) \<and> (\<forall>k<length as - 1. isl (snd (as ! k)) \<longrightarrow> rs ! k = None)"
  using assms by (rule reassemble_any_order)

theorem fragments_reassemble_in_any_order_witness:
  defines "cs \<equiv> [[1, 2, 3, 4, 5, 6, 7, 8], [9, 10]] :: bytes list"
  defines "vs \<equiv> \<lambda>i. \<lparr>iv_src = 1, iv_dst = 2, iv_ident = 7, iv_total_len = (if i = 0 then 28 else 22), iv_header_len = 20,
      iv_frag_offset = (if i = 0 then 0 else 8), iv_more_frags = (i = 0), iv_payload = cs ! i\<rparr>"
  defines "other \<equiv> \<lparr>iv_src = 3, iv_dst = 2, iv_ident = 7, iv_total_len = 21, iv_header_len = 20,
      iv_frag_offset = 65535, iv_more_frags = False, iv_payload = [5]\<rparr>"
  shows "\<exists>rs ra'. reassemble_run False vs [(0, Inl 1), (1, Inr other), (2, Inl 1), (3, Inl 0)] (reassembler_new 1000) =
      Some (rs, ra') \<and> length rs = 4 \<and> last rs = Some [1, 2, 3, 4, 5, 6, 7, 8, 9, 10] \<and> rs ! 0 = None \<and> rs ! 2 = None"
proof -
  let ?as = "[(0, Inl 1), (1, Inr other), (2, Inl 1), (3, Inl 0)] :: (nat \<times> (nat + ipv4_view)) list"
  have "chunks_ok cs" by (simp add: chunks_ok_def cs_def)
  moreover have "\<forall>i<length cs. chunk_view (1, 2, 7) cs i (vs i)"
    by (auto simp: chunk_view_def view_key_def fragment_of_def chunk_fragment_def off_def vs_def cs_def less_Suc_eq)
  moreover have "ra_packets (reassembler_new 1000) (1, 2, 7) = None" by (simp add: reassembler_new_def)
  moreover have "\<forall>(now, x)\<in>set ?as. case x of Inl i \<Rightarrow> i < length cs | Inr p \<Rightarrow> \<not> False \<and> view_key p \<noteq> (1, 2, 7)"
    by (simp add: cs_def other_def view_key_def)
  moreover have "numbers ?as = {..<length cs}" by (auto simp: cs_def)
  moreover have "numbers (butlast ?as) \<noteq> {..<length cs}" by (auto simp: cs_def)
  ultimately obtain rs ra' where "reassemble_run False vs ?as (reassembler_new 1000) = Some (rs, ra')" "length rs = length ?as"
      "last rs = Some (concat cs)" "\<forall>k<length ?as - 1. isl (snd (?as ! k)) \<longrightarrow> rs ! k = None"
    using fragments_reassemble_in_any_order [of cs "(1, 2, 7)" vs "reassembler_new 1000" ?as False] by blast
  then show ?thesis by (auto simp: cs_def)
qed

text \<open>C29. The two ends of the proxy agree. The fragments that \<open>compose_ipv4_packet\<close> hands to its callback,
  read back with the header accessors and fed to the reassembler in any order and with repetitions, give
  the payload that was in the buffer, at the arrival that completes it and not before. It needs a payload
  MTU that is a multiple of eight and a datagram that fits the 16-bit length field. The buffer is reused in
  place, each header being written over the end of the previous fragment.\<close>

theorem composed_datagram_reassembles:
  assumes "ipv4_wire emit parse" and "0 < ca_payload_mtu args" and "8 dvd ca_payload_mtu args"
    and "0 < ca_payload_len args" and "ca_payload_len args + IPV4_HEADER_LEN < 2 ^ 16"
    and "IPV4_HEADER_LEN + ca_payload_len args \<le> length buf" and "\<forall>p. cb p = None"
    and "ra_packets ra (ca_src args, ca_dst args, ca_ip_id args) = None"
  shows "\<exists>ps. compose_ipv4_packet emit cb args buf = Some (None, ps) \<and>
    (\<forall>as. snd ` set as = {..<length ps} \<and> snd ` set (butlast as) \<noteq> {..<length ps} \<longrightarrow>
      (\<exists>rs ra'. reassemble_run checked (\<lambda>i. parse (ps ! i)) (map (\<lambda>(now, i). (now, Inl i)) as) ra = Some (rs, ra') \<and>
        length rs = length as \<and> (\<forall>k<length as - 1. rs ! k = None) \<and>
        last rs = Some (take (ca_payload_len args) (drop IPV4_HEADER_LEN buf))))"
proof -
  let ?mtu = "ca_payload_mtu args"
  define payload where "payload = take (ca_payload_len args) (drop IPV4_HEADER_LEN buf)"
  have len: "length payload = ca_payload_len args" using assms(6) by (simp add: payload_def)
  define cs where "cs = map (payload_chunk ?mtu payload) [0..<piece_count ?mtu (length payload)]"
  define ps where "ps = map (composed_packet emit args payload) [0..<piece_count ?mtu (length payload)]"
  have same: "length ps = length cs" by (simp add: ps_def cs_def)
  have cs: "chunks_ok cs" "concat cs = payload"
    using payload_chunks_ok [OF assms(2), of payload] assms(4,5) len unfolding cs_def by auto
  have views: "\<forall>i<length cs. chunk_view (ca_src args, ca_dst args, ca_ip_id args) cs i (parse (ps ! i))"
    using composed_chunk_view [OF assms(1-3), of payload] assms(4,5) len by (auto simp: cs_def ps_def)
  have composed: "compose_ipv4_packet emit cb args buf = Some (None, ps)"
    using compose_loop_packets [OF assms(2) ipv4_wireD(1) [OF assms(1)] _ payload_def assms(6), of cb 0 0 buf] assms(2,7) len
    by (simp add: compose_ipv4_packet_def ps_def piece_count_def)
  have "\<exists>rs ra'. reassemble_run checked (\<lambda>i. parse (ps ! i)) (map (\<lambda>(now, i). (now, Inl i)) as) ra = Some (rs, ra') \<and>
        length rs = length as \<and> (\<forall>k<length as - 1. rs ! k = None) \<and> last rs = Some payload"
    if arr: "snd ` set as = {..<length ps}" "snd ` set (butlast as) \<noteq> {..<length ps}" for "as"
  proof -
    let ?as = "map (\<lambda>(now, i). (now, Inl i)) as :: (nat \<times> (nat + ipv4_view)) list"
    have num: "numbers (map (\<lambda>(now, i). (now, Inl i)) xs) = snd ` set xs" for xs :: "(nat \<times> nat) list"
      unfolding numbers_eq by force
    have "\<forall>(now, x)\<in>set ?as. case x of Inl i \<Rightarrow> i < length cs | Inr p \<Rightarrow> \<not> checked \<and> view_key p \<noteq> (ca_src args, ca_dst args, ca_ip_id args)"
      using arr(1) same by force
    moreover have "numbers ?as = {..<length cs}" "numbers (butlast ?as) \<noteq> {..<length cs}"
      using arr same num by (simp_all add: map_butlast [symmetric])
    moreover have "isl (snd (?as ! k))" if "k < length as - 1" for k using that by (simp add: case_prod_beta)
    ultimately show ?thesis
      using reassemble_any_order [OF cs(1) views assms(8), of ?as checked]
      by (auto simp: cs(2))
  qed
  then show ?thesis using composed unfolding payload_def by blast
qed

text \<open>A header layout with the promised properties.\<close>

definition demo_emit :: "ipv4_fields \<Rightarrow> bytes" where
  "demo_emit h = u32_le (if_src h) @ u32_le (if_dst h) @ u16_le (if_ident h) @ u16_le (if_total_len h) @
     u16_le (if_frag_offset h) @ [if if_more_frags h then 1 else 0, if if_dont_frag h then 1 else 0, if_protocol h, 0, 0, 0]"

definition demo_parse :: "bytes \<Rightarrow> ipv4_view" where
  "demo_parse p = \<lparr>iv_src = u32_of_le (take 4 p), iv_dst = u32_of_le (take 4 (drop 4 p)),
     iv_ident = u16_of_le (take 2 (drop 8 p)), iv_total_len = u16_of_le (take 2 (drop 10 p)), iv_header_len = 20,
     iv_frag_offset = u16_of_le (take 2 (drop 12 p)), iv_more_frags = (p ! 14 = 1), iv_payload = drop 20 p\<rparr>"

lemma demo_wire: "ipv4_wire demo_emit demo_parse"
  by (simp add: ipv4_wire_def demo_emit_def demo_parse_def IPV4_HEADER_LEN_def nth_append)

theorem composed_datagram_reassembles_witness:
  defines "args \<equiv> \<lparr>ca_src = 1, ca_dst = 2, ca_protocol = 17, ca_payload_len = 10, ca_payload_mtu = 8, ca_ip_id = 42\<rparr>"
  defines "buf \<equiv> replicate 20 (0 :: u8) @ [1, 2, 3, 4, 5, 6, 7, 8, 9, 10]"
  shows "\<exists>ps. compose_ipv4_packet demo_emit (\<lambda>p. None :: unit option) args buf = Some (None, ps) \<and>
    length ps = 2 \<and>
      (\<exists>rs ra'. reassemble_run True (\<lambda>i. demo_parse (ps ! i)) [(0, Inl 1), (5, Inl 1), (9, Inl 0)] (reassembler_new 1000) = Some (rs, ra') \<and>
        rs ! 0 = None \<and> rs ! 1 = None \<and> last rs = Some [1, 2, 3, 4, 5, 6, 7, 8, 9, 10])"
proof -
  let ?as = "[(0, 1), (5, 1), (9, 0)] :: (nat \<times> nat) list"
  have "0 < ca_payload_mtu args" "8 dvd ca_payload_mtu args" "0 < ca_payload_len args"
    "ca_payload_len args + IPV4_HEADER_LEN < 2 ^ 16" "IPV4_HEADER_LEN + ca_payload_len args \<le> length buf"
    by (simp_all add: args_def buf_def IPV4_HEADER_LEN_def)
  moreover have "ra_packets (reassembler_new 1000) (ca_src args, ca_dst args, ca_ip_id args) = None"
    by (simp add: reassembler_new_def)
  ultimately obtain ps where ps: "compose_ipv4_packet demo_emit (\<lambda>p. None :: unit option) args buf = Some (None, ps)"
    and all: "\<forall>as. snd ` set as = {..<length ps} \<and> snd ` set (butlast as) \<noteq> {..<length ps} \<longrightarrow>
      (\<exists>rs ra'. reassemble_run True (\<lambda>i. demo_parse (ps ! i)) (map (\<lambda>(now, i). (now, Inl i)) as) (reassembler_new 1000) = Some (rs, ra') \<and>
        length rs = length as \<and> (\<forall>k<length as - 1. rs ! k = None) \<and>
        last rs = Some (take (ca_payload_len args) (drop IPV4_HEADER_LEN buf)))"
    using composed_datagram_reassembles [OF demo_wire, of args buf "\<lambda>p. None :: unit option" "reassembler_new 1000" True]
    by auto
  have "map_option (\<lambda>r. length (snd r)) (compose_ipv4_packet demo_emit (\<lambda>p. None :: unit option) args buf) = Some 2"
    unfolding args_def buf_def by code_simp
  then have two: "length ps = 2" using ps by simp
  have "{..<2 :: nat} = {0, 1}" by (simp add: lessThan_Suc numeral_2_eq_2 insert_commute)
  then have "snd ` set ?as = {..<length ps}" "snd ` set (butlast ?as) \<noteq> {..<length ps}"
    unfolding two by (simp_all add: insert_commute)
  from all [rule_format, OF conjI [OF this]] obtain rs ra' where run:
      "reassemble_run True (\<lambda>i. demo_parse (ps ! i)) (map (\<lambda>(now, i). (now, Inl i)) ?as) (reassembler_new 1000) = Some (rs, ra')"
      "\<forall>k<length ?as - 1. rs ! k = None" "last rs = Some (take (ca_payload_len args) (drop IPV4_HEADER_LEN buf))"
    by blast
  have "take (ca_payload_len args) (drop IPV4_HEADER_LEN buf) = [1, 2, 3, 4, 5, 6, 7, 8, 9, 10]"
    by (simp add: args_def buf_def IPV4_HEADER_LEN_def)
  then show ?thesis using run ps two by (intro exI [of _ ps] conjI exI [of _ rs] exI [of _ ra']) simp_all
qed

end
