(* ===== verification/Ip_Cidr.thy ===== *)
theory Ip_Cidr
  imports Prelude
begin

unbundle bit_operations_syntax

text \<open>
  Addresses and network prefixes, as the proxies and the access control lists use them. The prefix types and
  their operations belong to the \<open>cidr\<close> crate: a prefix is the data its constructor takes, and the operations
  are the parameter \<open>cidr_lib\<close> with the contract \<open>cidr_lib_ok\<close>.
\<close>

datatype ip_addr = V4 u32 | V6 "128 word"

record ipv4_cidr =
  cidr_first :: u32
  cidr_length :: u8

record ipv6_cidr =
  cidr6_first :: "128 word"
  cidr6_length :: u8

datatype ip_cidr = CidrV4 ipv4_cidr | CidrV6 ipv6_cidr

record cidr_lib =
  v4_new :: "u32 \<Rightarrow> u8 \<Rightarrow> ipv4_cidr option"
  v4_contains :: "ipv4_cidr \<Rightarrow> u32 \<Rightarrow> bool"
  v4_mask :: "ipv4_cidr \<Rightarrow> u32"
  v6_contains :: "ipv6_cidr \<Rightarrow> 128 word \<Rightarrow> bool"
  parse_cidr :: "string \<Rightarrow> ip_cidr option"

definition prefix_mask :: "nat \<Rightarrow> u32" where
  "prefix_mask l = push_bit (32 - l) (mask l)"

text \<open>Values of the prefix type: at most 32 network bits and no host bit set.\<close>

definition cidr_wf :: "ipv4_cidr \<Rightarrow> bool" where
  "cidr_wf c \<longleftrightarrow> unat (cidr_length c) \<le> 32 \<and> cidr_first c AND NOT (prefix_mask (unat (cidr_length c))) = 0"

definition cidr_lib_ok :: "cidr_lib \<Rightarrow> bool" where
  "cidr_lib_ok L \<longleftrightarrow>
     (\<forall>a l. v4_new L a l =
        (let c = \<lparr>cidr_first = a, cidr_length = l\<rparr> in if cidr_wf c then Some c else None)) \<and>
     (\<forall>c. cidr_wf c \<longrightarrow> v4_mask L c = prefix_mask (unat (cidr_length c))) \<and>
     (\<forall>c a. cidr_wf c \<longrightarrow> v4_contains L c a = (a AND prefix_mask (unat (cidr_length c)) = cidr_first c))"

lemma cidr_lib_okD:
  assumes "cidr_lib_ok L"
  shows "v4_new L a l = Some c \<longleftrightarrow> c = \<lparr>cidr_first = a, cidr_length = l\<rparr> \<and> cidr_wf c"
    and "cidr_wf c \<Longrightarrow> v4_mask L c = prefix_mask (unat (cidr_length c))"
    and "cidr_wf c \<Longrightarrow> v4_contains L c a \<longleftrightarrow> a AND prefix_mask (unat (cidr_length c)) = cidr_first c"
  using assms by (auto simp: cidr_lib_ok_def Let_def)

lemma rehost_bits:
  fixes a f m :: "'a::len word"
  assumes "f AND NOT m = 0"
  shows "((a AND NOT m) OR f) AND m = f" and "((a AND NOT m) OR f) AND NOT m = a AND NOT m"
proof -
  have f: "bit f n \<Longrightarrow> bit m n" for n
  proof -
    assume "bit f n"
    moreover have "n < LENGTH('a)" using \<open>bit f n\<close> by (rule bit_imp_le_length)
    moreover have "\<not> bit (f AND NOT m) n" using assms by simp
    ultimately show "bit m n" by (simp add: bit_simps)
  qed
  show "((a AND NOT m) OR f) AND m = f" by (rule bit_word_eqI) (use f in \<open>auto simp: bit_simps\<close>)
  show "((a AND NOT m) OR f) AND NOT m = a AND NOT m" by (rule bit_word_eqI) (use f in \<open>auto simp: bit_simps\<close>)
qed

text \<open>The operations as the crate documents them, for evaluating the model.\<close>

definition prefix_lib :: cidr_lib where
  "prefix_lib = \<lparr>v4_new = (\<lambda>a l. let c = \<lparr>cidr_first = a, cidr_length = l\<rparr> in if cidr_wf c then Some c else None),
     v4_contains = (\<lambda>c a. a AND prefix_mask (unat (cidr_length c)) = cidr_first c),
     v4_mask = (\<lambda>c. prefix_mask (unat (cidr_length c))),
     v6_contains = (\<lambda>c a. take_bit (unat (cidr6_length c)) (drop_bit (128 - unat (cidr6_length c)) a) =
                          take_bit (unat (cidr6_length c)) (drop_bit (128 - unat (cidr6_length c)) (cidr6_first c))),
     parse_cidr = (\<lambda>s. None)\<rparr>"

lemma prefix_lib_ok: "cidr_lib_ok prefix_lib"
  by (simp add: cidr_lib_ok_def prefix_lib_def)

end
