(* ===== verification/Cidr_Table.thy ===== *)
theory Cidr_Table
  imports Ip_Cidr
begin

unbundle bit_operations_syntax

text \<open>
  Networks that a node offers to its peers, from the configuration to the address translation: the list in
  the configuration (\<open>config/toml.rs\<close>) and its patches (\<open>management/full/config_patch.rs\<close>), the runtime view
  (\<open>instance/config.rs\<close>), its validation (\<open>peers/peer_manager.rs\<close>) and the table of the proxies
  (\<open>gateway/proxy/cidr_table.rs\<close>). A network may be offered under another prefix, its mapped prefix; the table
  translates a mapped address to the real one.
\<close>

section \<open>Configuration\<close>

record proxy_network =
  pn_cidr :: ipv4_cidr
  pn_mapped_cidr :: "ipv4_cidr option"
  pn_allow :: "string list option"

text \<open>The field \<open>proxy_network\<close> of the configuration.\<close>

type_synonym proxy_config = "proxy_network list option"

datatype proxy_config_error = NetworkLengthMismatch u8 u8

definition add_proxy_cidr ::
  "ipv4_cidr \<Rightarrow> ipv4_cidr option \<Rightarrow> proxy_config \<Rightarrow> (proxy_config_error + unit) \<times> proxy_config" where
  "add_proxy_cidr cidr mapped_cidr cfg =
     (let networks = (case cfg of None \<Rightarrow> [] | Some ns \<Rightarrow> ns)
      in case mapped_cidr of
           Some mapped \<Rightarrow>
             if cidr_length cidr \<noteq> cidr_length mapped
             then (Inl (NetworkLengthMismatch (cidr_length cidr) (cidr_length mapped)), Some networks)
             else if \<exists>n\<in>set networks. pn_cidr n = cidr \<and> pn_mapped_cidr n = mapped_cidr then (Inr (), Some networks)
             else (Inr (), Some (networks @ [\<lparr>pn_cidr = cidr, pn_mapped_cidr = mapped_cidr, pn_allow = None\<rparr>]))
         | None \<Rightarrow>
             if \<exists>n\<in>set networks. pn_cidr n = cidr \<and> pn_mapped_cidr n = mapped_cidr then (Inr (), Some networks)
             else (Inr (), Some (networks @ [\<lparr>pn_cidr = cidr, pn_mapped_cidr = mapped_cidr, pn_allow = None\<rparr>])))"

definition remove_proxy_cidr :: "ipv4_cidr \<Rightarrow> proxy_config \<Rightarrow> proxy_config" where
  "remove_proxy_cidr cidr cfg = map_option (filter (\<lambda>n. pn_cidr n \<noteq> cidr)) cfg"

definition clear_proxy_cidrs :: "proxy_config \<Rightarrow> proxy_config" where
  "clear_proxy_cidrs cfg = None"

definition get_proxy_cidrs :: "proxy_config \<Rightarrow> proxy_network list" where
  "get_proxy_cidrs cfg = (case cfg of None \<Rightarrow> [] | Some ns \<Rightarrow> ns)"

datatype patch_action = AddPatch | RemovePatch | ClearPatch | InvalidPatch

record proxy_network_patch =
  pp_action :: patch_action
  pp_cidr :: "ipv4_cidr option"
  pp_mapped_cidr :: "ipv4_cidr option"

fun patch_proxy_networks ::
  "proxy_network_patch list \<Rightarrow> proxy_config \<Rightarrow> (proxy_config_error + unit) \<times> proxy_config" where
  "patch_proxy_networks [] cfg = (Inr (), cfg)"
| "patch_proxy_networks (p # ps) cfg =
     (case pp_action p of
        AddPatch \<Rightarrow>
          (case pp_cidr p of
             None \<Rightarrow> patch_proxy_networks ps cfg
           | Some cidr \<Rightarrow>
               (case add_proxy_cidr cidr (pp_mapped_cidr p) cfg of
                  (Inl e, cfg') \<Rightarrow> (Inl e, cfg')
                | (Inr _, cfg') \<Rightarrow> patch_proxy_networks ps cfg'))
      | RemovePatch \<Rightarrow>
          (case pp_cidr p of
             None \<Rightarrow> patch_proxy_networks ps cfg
           | Some cidr \<Rightarrow> patch_proxy_networks ps (remove_proxy_cidr cidr cfg))
      | ClearPatch \<Rightarrow> patch_proxy_networks ps (clear_proxy_cidrs cfg)
      | InvalidPatch \<Rightarrow> patch_proxy_networks ps cfg)"

section \<open>Runtime configuration\<close>

record ip_prefix =
  px_address :: ip_addr
  px_len :: u8

record proxy_network_config =
  pc_real :: ip_prefix
  pc_mapped :: "ip_prefix option"

definition prefix_of :: "ipv4_cidr \<Rightarrow> ip_prefix" where
  "prefix_of c = \<lparr>px_address = V4 (cidr_first c), px_len = cidr_length c\<rparr>"

definition runtime_proxy_networks :: "bool \<Rightarrow> bool \<Rightarrow> proxy_config \<Rightarrow> proxy_network_config list" where
  "runtime_proxy_networks ignore_unsupported_config proxy_enabled cfg =
     map (\<lambda>n. \<lparr>pc_real = prefix_of (pn_cidr n), pc_mapped = map_option prefix_of (pn_mapped_cidr n)\<rparr>)
       (if ignore_unsupported_config \<and> \<not> proxy_enabled then [] else get_proxy_cidrs cfg)"

definition valid_network_prefix :: "cidr_lib \<Rightarrow> ip_prefix \<Rightarrow> bool" where
  "valid_network_prefix L p =
     (case px_address p of V4 a \<Rightarrow> v4_new L a (px_len p) \<noteq> None | V6 _ \<Rightarrow> False)"

record route_config =
  rc_ipv4 :: "ip_prefix option"
  rc_ipv6 :: "ip_prefix option"
  rc_proxy_networks :: "proxy_network_config list"

text \<open>Whether the configuration is accepted; the texts of the errors are left out.\<close>

definition validate_portable_routes :: "cidr_lib \<Rightarrow> route_config \<Rightarrow> bool" where
  "validate_portable_routes L routes \<longleftrightarrow>
     (case rc_ipv4 routes of
        Some p \<Rightarrow> (case px_address p of V4 _ \<Rightarrow> px_len p \<le> 32 | V6 _ \<Rightarrow> False)
      | None \<Rightarrow> True) \<and>
     (case rc_ipv6 routes of
        Some p \<Rightarrow> (case px_address p of V6 _ \<Rightarrow> px_len p \<le> 128 | V4 _ \<Rightarrow> False)
      | None \<Rightarrow> True) \<and>
     list_all (\<lambda>n. valid_network_prefix L (pc_real n) \<and>
                   (case pc_mapped n of None \<Rightarrow> True | Some p \<Rightarrow> valid_network_prefix L p)) (rc_proxy_networks routes)"

section \<open>The table\<close>

record proxy_cidr_rule =
  pr_cidr :: ipv4_cidr
  pr_mapped_cidr :: "ipv4_cidr option"

record proxy_cidr_entry =
  real_cidr :: ipv4_cidr
  mapped_cidr :: ipv4_cidr

definition ipv4_cidr_of :: "cidr_lib \<Rightarrow> ip_prefix \<Rightarrow> ipv4_cidr option" where
  "ipv4_cidr_of L p = (case px_address p of V4 a \<Rightarrow> v4_new L a (px_len p) | V6 _ \<Rightarrow> None)"

definition proxy_cidr_rule_of :: "cidr_lib \<Rightarrow> proxy_network_config \<Rightarrow> proxy_cidr_rule option" where
  "proxy_cidr_rule_of L cfg = do {
     real \<leftarrow> ipv4_cidr_of L (pc_real cfg);
     Some \<lparr>pr_cidr = real, pr_mapped_cidr = Option.bind (pc_mapped cfg) (ipv4_cidr_of L)\<rparr>
   }"

definition from_proxy_networks :: "cidr_lib \<Rightarrow> proxy_network_config list \<Rightarrow> proxy_cidr_rule list" where
  "from_proxy_networks L networks = List.map_filter (proxy_cidr_rule_of L) networks"

text \<open>\<open>update_snapshot\<close> replaces the whole table.\<close>

definition update_snapshot :: "proxy_cidr_rule list \<Rightarrow> proxy_cidr_entry list \<Rightarrow> proxy_cidr_entry list" where
  "update_snapshot rules old =
     map (\<lambda>r. \<lparr>real_cidr = pr_cidr r,
               mapped_cidr = (case pr_mapped_cidr r of Some m \<Rightarrow> m | None \<Rightarrow> pr_cidr r)\<rparr>) rules"

definition from_snapshot :: "proxy_cidr_rule list \<Rightarrow> proxy_cidr_entry list" where
  "from_snapshot rules = update_snapshot rules []"

definition entry_lookup_v4 :: "cidr_lib \<Rightarrow> u32 \<Rightarrow> proxy_cidr_entry \<Rightarrow> u32 option" where
  "entry_lookup_v4 L ipv4 e =
     (if \<not> v4_contains L (mapped_cidr e) ipv4 then None
      else if mapped_cidr e = real_cidr e then Some ipv4
      else Some ((ipv4 AND NOT (v4_mask L (mapped_cidr e))) OR cidr_first (real_cidr e)))"

fun find_map :: "('a \<Rightarrow> 'b option) \<Rightarrow> 'a list \<Rightarrow> 'b option" where
  "find_map f [] = None"
| "find_map f (x # xs) = (case f x of Some y \<Rightarrow> Some y | None \<Rightarrow> find_map f xs)"

definition lookup_v4 :: "cidr_lib \<Rightarrow> u32 \<Rightarrow> proxy_cidr_entry list \<Rightarrow> u32 option" where
  "lookup_v4 L ipv4 table = find_map (entry_lookup_v4 L ipv4) table"

section \<open>Invariant of the configuration\<close>

definition network_ok :: "proxy_network \<Rightarrow> bool" where
  "network_ok n \<longleftrightarrow> cidr_wf (pn_cidr n) \<and>
     (case pn_mapped_cidr n of None \<Rightarrow> True | Some m \<Rightarrow> cidr_wf m \<and> cidr_length m = cidr_length (pn_cidr n))"

definition config_ok :: "proxy_config \<Rightarrow> bool" where
  "config_ok cfg \<longleftrightarrow> list_all network_ok (get_proxy_cidrs cfg)"

text \<open>Patches carry values of the prefix type.\<close>

definition patch_wf :: "proxy_network_patch \<Rightarrow> bool" where
  "patch_wf p \<longleftrightarrow> pred_option cidr_wf (pp_cidr p) \<and> pred_option cidr_wf (pp_mapped_cidr p)"

lemma add_proxy_cidr_ok:
  assumes "config_ok cfg" and "cidr_wf cidr" and "pred_option cidr_wf mapped"
  shows "config_ok (snd (add_proxy_cidr cidr mapped cfg))"
  using assms
  by (auto simp: add_proxy_cidr_def config_ok_def get_proxy_cidrs_def network_ok_def Let_def split: option.splits)

lemma remove_proxy_cidr_ok: "config_ok cfg \<Longrightarrow> config_ok (remove_proxy_cidr cidr cfg)"
  by (auto simp: remove_proxy_cidr_def config_ok_def get_proxy_cidrs_def list_all_iff split: option.splits)

lemma patch_proxy_networks_ok:
  "config_ok cfg \<Longrightarrow> list_all patch_wf ps \<Longrightarrow> config_ok (snd (patch_proxy_networks ps cfg))"
proof (induction ps cfg rule: patch_proxy_networks.induct)
  case (2 p ps cfg)
  have add: "config_ok cfg'" if "pp_cidr p = Some c" "add_proxy_cidr c (pp_mapped_cidr p) cfg = (r, cfg')" for c r cfg'
    using add_proxy_cidr_ok [of cfg c "pp_mapped_cidr p"] 2 that by (simp add: patch_wf_def)
  show ?case
  proof (cases "pp_action p")
    case AddPatch
    then show ?thesis using 2 add by (auto split: option.split prod.split sum.split)
  next
    case RemovePatch
    then show ?thesis using 2 remove_proxy_cidr_ok by (auto split: option.split)
  next
    case ClearPatch
    then show ?thesis using 2 by (auto simp: clear_proxy_cidrs_def config_ok_def get_proxy_cidrs_def)
  next
    case InvalidPatch
    then show ?thesis using 2 by simp
  qed
qed simp

lemma add_proxy_cidr_distinct:
  "distinct (map (\<lambda>n. (pn_cidr n, pn_mapped_cidr n)) (get_proxy_cidrs cfg)) \<Longrightarrow>
    distinct (map (\<lambda>n. (pn_cidr n, pn_mapped_cidr n)) (get_proxy_cidrs (snd (add_proxy_cidr cidr mapped cfg))))"
  by (force simp: add_proxy_cidr_def get_proxy_cidrs_def Let_def split: option.splits)

lemma patch_proxy_networks_distinct:
  "distinct (map (\<lambda>n. (pn_cidr n, pn_mapped_cidr n)) (get_proxy_cidrs cfg)) \<Longrightarrow>
    distinct (map (\<lambda>n. (pn_cidr n, pn_mapped_cidr n)) (get_proxy_cidrs (snd (patch_proxy_networks ps cfg))))"
proof (induction ps cfg rule: patch_proxy_networks.induct)
  case (2 p ps cfg)
  have add: "distinct (map (\<lambda>n. (pn_cidr n, pn_mapped_cidr n)) (get_proxy_cidrs cfg'))"
    if "add_proxy_cidr c (pp_mapped_cidr p) cfg = (r, cfg')" for c r cfg'
    using add_proxy_cidr_distinct [OF "2.prems", of c "pp_mapped_cidr p"] that by simp
  have rem: "distinct (map (\<lambda>n. (pn_cidr n, pn_mapped_cidr n)) (get_proxy_cidrs (remove_proxy_cidr c cfg)))" for c
    using "2.prems" by (cases cfg) (simp_all add: remove_proxy_cidr_def get_proxy_cidrs_def distinct_map_filter)
  show ?case using 2 add rem
    by (cases "pp_action p")
       (auto simp: clear_proxy_cidrs_def get_proxy_cidrs_def [of None] split: option.split prod.split sum.split)
qed simp

section \<open>Translation\<close>

lemma ipv4_cidr_of_prefix_of: "cidr_lib_ok L \<Longrightarrow> cidr_wf c \<Longrightarrow> ipv4_cidr_of L (prefix_of c) = Some c"
  by (simp add: ipv4_cidr_of_def prefix_of_def cidr_lib_okD(1))

text \<open>The configuration reaches the table without loss.\<close>

lemma table_of_config:
  assumes "cidr_lib_ok L" and "list_all network_ok ns"
  shows "from_snapshot (from_proxy_networks L (runtime_proxy_networks False en (Some ns))) =
    map (\<lambda>n. \<lparr>real_cidr = pn_cidr n, mapped_cidr = (case pn_mapped_cidr n of Some m \<Rightarrow> m | None \<Rightarrow> pn_cidr n)\<rparr>) ns"
  using assms(2)
proof (induction ns)
  case (Cons n ns)
  have "proxy_cidr_rule_of L \<lparr>pc_real = prefix_of (pn_cidr n), pc_mapped = map_option prefix_of (pn_mapped_cidr n)\<rparr> =
      Some \<lparr>pr_cidr = pn_cidr n, pr_mapped_cidr = pn_mapped_cidr n\<rparr>"
    using Cons.prems assms(1)
    by (auto simp: proxy_cidr_rule_of_def ipv4_cidr_of_prefix_of network_ok_def split: option.splits)
  then show ?case using Cons
    by (simp add: from_snapshot_def update_snapshot_def from_proxy_networks_def runtime_proxy_networks_def
        get_proxy_cidrs_def map_filter_simps split: option.split)
qed (simp add: from_snapshot_def update_snapshot_def from_proxy_networks_def runtime_proxy_networks_def
        get_proxy_cidrs_def map_filter_simps)

lemma find_map_None: "find_map f xs = None \<longleftrightarrow> (\<forall>x\<in>set xs. f x = None)"
  by (induction xs) (auto split: option.splits)

lemma find_map_Some: "find_map f xs = Some y \<Longrightarrow> \<exists>pre x post. xs = pre @ x # post \<and> f x = Some y \<and> (\<forall>z\<in>set pre. f z = None)"
proof (induction xs)
  case (Cons x xs)
  show ?case
  proof (cases "f x")
    case None
    then obtain pre z post where "xs = pre @ z # post \<and> f z = Some y \<and> (\<forall>w\<in>set pre. f w = None)"
      using Cons by auto
    then show ?thesis using None by (intro exI [of _ "x # pre"] exI [of _ z] exI [of _ post]) simp
  next
    case (Some u)
    then show ?thesis using Cons.prems by (intro exI [of _ "[]"] exI [of _ x] exI [of _ xs]) simp
  qed
qed simp

lemma entry_lookup_translates:
  assumes "cidr_lib_ok L" and "cidr_wf (real_cidr e)" and "cidr_wf (mapped_cidr e)"
    and "cidr_length (mapped_cidr e) = cidr_length (real_cidr e)" and "entry_lookup_v4 L a e = Some b"
  shows "v4_contains L (mapped_cidr e) a" and "v4_contains L (real_cidr e) b"
    and "b AND NOT (prefix_mask (unat (cidr_length (real_cidr e)))) = a AND NOT (prefix_mask (unat (cidr_length (real_cidr e))))"
proof -
  let ?m = "prefix_mask (unat (cidr_length (real_cidr e)))"
  have bits: "cidr_first (real_cidr e) AND NOT ?m = 0" using assms(2) by (simp add: cidr_wf_def)
  have inm: "v4_contains L (mapped_cidr e) a" using assms(5) by (simp add: entry_lookup_v4_def split: if_splits)
  then show "v4_contains L (mapped_cidr e) a" .
  have "v4_contains L (real_cidr e) b \<and> b AND NOT ?m = a AND NOT ?m"
  proof (cases "mapped_cidr e = real_cidr e")
    case True
    then show ?thesis using assms(5) inm by (simp add: entry_lookup_v4_def split: if_splits)
  next
    case False
    then have "b = (a AND NOT ?m) OR cidr_first (real_cidr e)"
      using assms(4,5) inm cidr_lib_okD(2) [OF assms(1,3)] by (simp add: entry_lookup_v4_def)
    then show ?thesis using rehost_bits [OF bits, of a] cidr_lib_okD(3) [OF assms(1,2)] by simp
  qed
  then show "v4_contains L (real_cidr e) b" "b AND NOT ?m = a AND NOT ?m" by blast+
qed

lemma valid_prefix_of: "cidr_lib_ok L \<Longrightarrow> cidr_wf c \<Longrightarrow> valid_network_prefix L (prefix_of c)"
  using cidr_lib_okD(1) [of L "cidr_first c" "cidr_length c" c] by (simp add: valid_network_prefix_def prefix_of_def)

lemma runtime_networks_valid:
  assumes "cidr_lib_ok L" and "config_ok cfg"
  shows "list_all (\<lambda>n. valid_network_prefix L (pc_real n) \<and>
                   (case pc_mapped n of None \<Rightarrow> True | Some p \<Rightarrow> valid_network_prefix L p)) (runtime_proxy_networks ig en cfg)"
  using assms
  by (auto simp: runtime_proxy_networks_def list_all_iff config_ok_def network_ok_def valid_prefix_of split: option.splits)





end
