(* ===== verification/Acl_Rules.thy ===== *)
theory Acl_Rules
  imports Ip_Cidr "HOL-Library.Sublist"
begin

text \<open>
  Rules of the access control lists: the configuration messages of \<open>acl.proto\<close>, their conversion to lookup rules
  and the match of a rule against a packet, from \<open>easytier-core/src/peers/acl/processor.rs\<close>.

  A string is its UTF-8 bytes. Enumerations of messages are integers, read by generated accessors that map an
  unknown number to the default. Counters of a rule are shared between the rule and the cached
  results: they live in a heap of \<open>rule_stats\<close>, and a rule holds its address.
\<close>

section \<open>Configuration messages\<close>

datatype protocol = Unspecified | Tcp | Udp | Icmp | IcmPv6 | AnyProtocol

datatype acl_action = Noop | Allow | Drop

datatype chain_type = UnspecifiedChain | Inbound | Outbound | Forward

definition protocol_of_i32 :: "int \<Rightarrow> protocol" where
  "protocol_of_i32 n = (if n = 1 then Tcp else if n = 2 then Udp else if n = 3 then Icmp
     else if n = 4 then IcmPv6 else if n = 5 then AnyProtocol else Unspecified)"

definition action_of_i32 :: "int \<Rightarrow> acl_action" where
  "action_of_i32 n = (if n = 1 then Allow else if n = 2 then Drop else Noop)"

definition chain_type_of_i32 :: "int \<Rightarrow> chain_type" where
  "chain_type_of_i32 n = (if n = 1 then Inbound else if n = 2 then Outbound else if n = 3 then Forward
     else UnspecifiedChain)"

primrec chain_type_as_i32 :: "chain_type \<Rightarrow> int" where
  "chain_type_as_i32 UnspecifiedChain = 0"
| "chain_type_as_i32 Inbound = 1"
| "chain_type_as_i32 Outbound = 2"
| "chain_type_as_i32 Forward = 3"

record acl_rule =
  ru_name :: string
  ru_description :: string
  ru_priority :: u32
  ru_enabled :: bool
  ru_protocol :: int
  ru_ports :: "string list"
  ru_source_ips :: "string list"
  ru_destination_ips :: "string list"
  ru_source_ports :: "string list"
  ru_action :: int
  ru_rate_limit :: u32
  ru_burst_limit :: u32
  ru_stateful :: bool
  ru_source_groups :: "string list"
  ru_destination_groups :: "string list"

record acl_chain =
  ch_name :: string
  ch_chain_type :: int
  ch_enabled :: bool
  ch_rules :: "acl_rule list"
  ch_default_action :: int

text \<open>The message \<open>Acl\<close>: the chains of \<open>acl_v1\<close>, when it is present.\<close>

record acl_config =
  acl_v1 :: "acl_chain list option"

definition acl_default :: acl_config where
  "acl_default = \<lparr>acl_v1 = None\<rparr>"

section \<open>Port ranges\<close>

text \<open>The UTF-8 encodings of the characters with the Unicode property \<open>White_Space\<close>.\<close>

definition white_space :: "string list" where
  "white_space = map (map char_of) (map (\<lambda>n. [n]) [9, 10, 11, 12, 13, 32 :: nat] @
     [[0xC2, 0x85], [0xC2, 0xA0], [0xE1, 0x9A, 0x80]] @ map (\<lambda>n. [0xE2, 0x80, n]) [0x80..<0x8B] @
     [[0xE2, 0x80, 0xA8], [0xE2, 0x80, 0xA9], [0xE2, 0x80, 0xAF], [0xE2, 0x81, 0x9F], [0xE3, 0x80, 0x80]])"

function strip_front :: "string list \<Rightarrow> string \<Rightarrow> string" where
  "strip_front ws s = (case find (\<lambda>w. w \<noteq> [] \<and> prefix w s) ws of
       None \<Rightarrow> s
     | Some w \<Rightarrow> strip_front ws (drop (length w) s))"
  by pat_completeness auto
termination
proof (relation "measure (\<lambda>(ws, s). length s)")
  fix ws s w assume "find (\<lambda>w. w \<noteq> [] \<and> prefix w s) ws = Some w"
  then have "w \<noteq> []" "prefix w s" by (auto simp: find_Some_iff)
  then have "0 < length w" "0 < length s" by (auto simp: prefix_def)
  then show "((ws, drop (length w) s), ws, s) \<in> measure (\<lambda>(ws, s). length s)" by simp
qed simp

declare strip_front.simps [simp del]

definition trim :: "string \<Rightarrow> string" where
  "trim s = rev (strip_front (map rev white_space) (rev (strip_front white_space s)))"

fun parse_digits :: "nat \<Rightarrow> string \<Rightarrow> nat option" where
  "parse_digits acc [] = Some acc"
| "parse_digits acc (c # cs) =
     (if 48 \<le> (of_char c :: nat) \<and> (of_char c :: nat) \<le> 57
      then let acc' = 10 * acc + (of_char c - 48) in if acc' < 2 ^ 16 then parse_digits acc' cs else None
      else None)"

text \<open>\<open>u16::from_str\<close>: an optional plus sign and at least one digit.\<close>

definition parse_u16 :: "string \<Rightarrow> u16 option" where
  "parse_u16 s =
     (let digits = (case s of [] \<Rightarrow> [] | c # cs \<Rightarrow> if c = CHR ''+'' \<and> cs \<noteq> [] then cs else s)
      in if digits = [] then None else map_option word_of_nat (parse_digits 0 digits))"

definition split_once :: "char \<Rightarrow> string \<Rightarrow> (string \<times> string) option" where
  "split_once c s = (if c \<in> set s
     then Some (takeWhile (\<lambda>x. x \<noteq> c) s, drop 1 (dropWhile (\<lambda>x. x \<noteq> c) s)) else None)"

definition parse_port_range :: "string \<Rightarrow> (u16 \<times> u16) option" where
  "parse_port_range s =
     (case split_once CHR ''-'' s of
        Some (start, stop) \<Rightarrow> do {
          a \<leftarrow> parse_u16 (trim start);
          b \<leftarrow> parse_u16 (trim stop);
          Some (a, b)
        }
      | None \<Rightarrow> do {
          port \<leftarrow> parse_u16 (trim s);
          Some (port, port)
        })"

section \<open>Lookup rules\<close>

record stat_item =
  packet_count :: u64
  byte_count :: u64

record rule_stats =
  rs_rule :: "acl_rule option"
  rs_stat :: stat_item

definition stat_zero :: stat_item where
  "stat_zero = \<lparr>packet_count = 0, byte_count = 0\<rparr>"

record fast_lookup_rule =
  fl_priority :: u32
  fl_protocol :: protocol
  src_ip_ranges :: "ip_cidr list"
  dst_ip_ranges :: "ip_cidr list"
  src_port_ranges :: "(u16 \<times> u16) list"
  dst_port_ranges :: "(u16 \<times> u16) list"
  source_groups :: "string set"
  destination_groups :: "string set"
  fl_action :: acl_action
  fl_enabled :: bool
  fl_stateful :: bool
  rate_limit :: u32
  burst_limit :: u32
  fl_rule_stats :: nat

record packet_info =
  src_ip :: ip_addr
  dst_ip :: ip_addr
  src_port :: "u16 option"
  dst_port :: "u16 option"
  pi_protocol :: protocol
  packet_size :: nat
  src_groups :: "string list"
  dst_groups :: "string list"

definition convert_to_fast_lookup_rule :: "cidr_lib \<Rightarrow> nat \<Rightarrow> acl_rule \<Rightarrow> fast_lookup_rule" where
  "convert_to_fast_lookup_rule L addr rule =
     \<lparr>fl_priority = ru_priority rule, fl_protocol = protocol_of_i32 (ru_protocol rule),
      src_ip_ranges = List.map_filter (parse_cidr L) (ru_source_ips rule),
      dst_ip_ranges = List.map_filter (parse_cidr L) (ru_destination_ips rule),
      src_port_ranges = List.map_filter parse_port_range (ru_source_ports rule),
      dst_port_ranges = List.map_filter parse_port_range (ru_ports rule),
      source_groups = set (ru_source_groups rule), destination_groups = set (ru_destination_groups rule),
      fl_action = action_of_i32 (ru_action rule), fl_enabled = ru_enabled rule, fl_stateful = ru_stateful rule,
      rate_limit = ru_rate_limit rule, burst_limit = ru_burst_limit rule, fl_rule_stats = addr\<rparr>"

text \<open>Conversion of the enabled rules of a chain, with their counters allocated one after the other.\<close>

definition convert_rules ::
  "cidr_lib \<Rightarrow> acl_rule list \<Rightarrow> rule_stats list \<Rightarrow> fast_lookup_rule list \<times> rule_stats list" where
  "convert_rules L rules heap =
     (map2 (convert_to_fast_lookup_rule L) [length heap..<length heap + length rules] rules,
      heap @ map (\<lambda>r. \<lparr>rs_rule = Some r, rs_stat = stat_zero\<rparr>) rules)"

record rule_sets =
  inbound_rules :: "fast_lookup_rule list"
  outbound_rules :: "fast_lookup_rule list"
  forward_rules :: "fast_lookup_rule list"

definition add_chain :: "cidr_lib \<Rightarrow> acl_chain \<Rightarrow> rule_sets \<times> rule_stats list \<Rightarrow> rule_sets \<times> rule_stats list" where
  "add_chain L chain acc =
     (if \<not> ch_enabled chain then acc
      else
        let (sets, heap) = acc;
            (converted, heap') = convert_rules L (filter ru_enabled (ch_rules chain)) heap;
            rules = sort_key (\<lambda>r. - int (unat (fl_priority r))) converted
        in (case chain_type_of_i32 (ch_chain_type chain) of
              Inbound \<Rightarrow> sets\<lparr>inbound_rules := inbound_rules sets @ rules\<rparr>
            | Outbound \<Rightarrow> sets\<lparr>outbound_rules := outbound_rules sets @ rules\<rparr>
            | Forward \<Rightarrow> sets\<lparr>forward_rules := forward_rules sets @ rules\<rparr>
            | UnspecifiedChain \<Rightarrow> sets, heap'))"

definition build_rules :: "cidr_lib \<Rightarrow> acl_config \<Rightarrow> rule_sets \<times> rule_stats list" where
  "build_rules L cfg =
     (case acl_v1 cfg of
        None \<Rightarrow> (\<lparr>inbound_rules = [], outbound_rules = [], forward_rules = []\<rparr>, [])
      | Some cs \<Rightarrow> fold (add_chain L) cs (\<lparr>inbound_rules = [], outbound_rules = [], forward_rules = []\<rparr>, []))"

definition default_action_for :: "chain_type \<Rightarrow> acl_config \<Rightarrow> acl_action" where
  "default_action_for ct cfg =
     (case Option.bind (acl_v1 cfg) (find (\<lambda>c. ch_chain_type c = chain_type_as_i32 ct)) of
        Some c \<Rightarrow> action_of_i32 (ch_default_action c)
      | None \<Rightarrow> Allow)"

definition build_default_actions :: "acl_config \<Rightarrow> acl_action \<times> acl_action \<times> acl_action" where
  "build_default_actions cfg =
     (default_action_for Inbound cfg, default_action_for Outbound cfg, default_action_for Forward cfg)"

section \<open>Matching\<close>

definition cidr_matches :: "cidr_lib \<Rightarrow> ip_addr \<Rightarrow> ip_cidr \<Rightarrow> bool" where
  "cidr_matches L ip cidr =
     (case (cidr, ip) of
        (CidrV4 c, V4 a) \<Rightarrow> v4_contains L c a
      | (CidrV6 c, V6 a) \<Rightarrow> v6_contains L c a
      | _ \<Rightarrow> False)"

definition port_matches :: "(u16 \<times> u16) list \<Rightarrow> u16 option \<Rightarrow> bool" where
  "port_matches ranges port =
     (case port of
        Some p \<Rightarrow> ranges = [] \<or> (\<exists>(start, stop)\<in>set ranges. start \<le> p \<and> p \<le> stop)
      | None \<Rightarrow> True)"

definition group_matches :: "string set \<Rightarrow> string list \<Rightarrow> bool" where
  "group_matches wanted groups \<longleftrightarrow> wanted = {} \<or> (\<exists>g\<in>set groups. g \<in> wanted)"

definition rule_matches :: "cidr_lib \<Rightarrow> fast_lookup_rule \<Rightarrow> packet_info \<Rightarrow> bool" where
  "rule_matches L rule info =
     (if fl_protocol rule \<noteq> AnyProtocol \<and> fl_protocol rule \<noteq> pi_protocol info then False
      else if src_ip_ranges rule \<noteq> [] \<and> \<not> list_ex (cidr_matches L (src_ip info)) (src_ip_ranges rule) then False
      else if dst_ip_ranges rule \<noteq> [] \<and> \<not> list_ex (cidr_matches L (dst_ip info)) (dst_ip_ranges rule) then False
      else if \<not> port_matches (src_port_ranges rule) (src_port info) then False
      else if \<not> port_matches (dst_port_ranges rule) (dst_port info) then False
      else if \<not> group_matches (source_groups rule) (src_groups info) then False
      else if \<not> group_matches (destination_groups rule) (dst_groups info) then False
      else True)"

section \<open>The policy of a configuration\<close>

text \<open>What a configuration means: among the rules that are enabled, in enabled chains of the given type,
  the chains in order and in each chain the higher priority first, the first rule that matches decides.\<close>

definition policy_rules :: "chain_type \<Rightarrow> acl_config \<Rightarrow> acl_rule list" where
  "policy_rules ct cfg =
     concat (map (\<lambda>c. sort_key (\<lambda>r. - int (unat (ru_priority r))) (filter ru_enabled (ch_rules c)))
       (filter (\<lambda>c. ch_enabled c \<and> chain_type_of_i32 (ch_chain_type c) = ct)
         (case acl_v1 cfg of None \<Rightarrow> [] | Some cs \<Rightarrow> cs)))"

definition rule_applies :: "cidr_lib \<Rightarrow> packet_info \<Rightarrow> acl_rule \<Rightarrow> bool" where
  "rule_applies L info r = rule_matches L (convert_to_fast_lookup_rule L 0 r) info"

definition policy_rule :: "cidr_lib \<Rightarrow> acl_config \<Rightarrow> chain_type \<Rightarrow> packet_info \<Rightarrow> acl_rule option" where
  "policy_rule L cfg ct info = find (rule_applies L info) (policy_rules ct cfg)"

definition policy_action :: "cidr_lib \<Rightarrow> acl_config \<Rightarrow> chain_type \<Rightarrow> packet_info \<Rightarrow> acl_action" where
  "policy_action L cfg ct info =
     (case policy_rule L cfg ct info of
        Some r \<Rightarrow> action_of_i32 (ru_action r)
      | None \<Rightarrow> default_action_for ct cfg)"

primrec rules_for :: "chain_type \<Rightarrow> rule_sets \<Rightarrow> fast_lookup_rule list" where
  "rules_for UnspecifiedChain sets = []"
| "rules_for Inbound sets = inbound_rules sets"
| "rules_for Outbound sets = outbound_rules sets"
| "rules_for Forward sets = forward_rules sets"

text \<open>Forgetting the address of the counters.\<close>

definition erase :: "fast_lookup_rule \<Rightarrow> fast_lookup_rule" where
  "erase r = r\<lparr>fl_rule_stats := 0\<rparr>"

lemma erase_convert [simp]: "erase (convert_to_fast_lookup_rule L a r) = convert_to_fast_lookup_rule L 0 r"
  by (simp add: erase_def convert_to_fast_lookup_rule_def)

lemma erase_fields [simp]:
  "fl_priority (erase r) = fl_priority r" "fl_action (erase r) = fl_action r" "fl_enabled (erase r) = fl_enabled r"
  "rate_limit (erase r) = rate_limit r" "fl_stateful (erase r) = fl_stateful r"
  "rule_matches L (erase r) info = rule_matches L r info"
  by (simp_all add: erase_def rule_matches_def)

lemma convert_fields [simp]:
  "fl_priority (convert_to_fast_lookup_rule L a r) = ru_priority r"
  "fl_action (convert_to_fast_lookup_rule L a r) = action_of_i32 (ru_action r)"
  "fl_enabled (convert_to_fast_lookup_rule L a r) = ru_enabled r"
  "rate_limit (convert_to_fast_lookup_rule L a r) = ru_rate_limit r"
  "fl_stateful (convert_to_fast_lookup_rule L a r) = ru_stateful r"
  "fl_rule_stats (convert_to_fast_lookup_rule L a r) = a"
  by (simp_all add: convert_to_fast_lookup_rule_def)

lemma map_insort_key: "(\<And>x. g (f x) = h x) \<Longrightarrow> map f (insort_key h x xs) = insort_key g (f x) (map f xs)"
  by (induction xs) auto

lemma map_sort_key: "(\<And>x. g (f x) = h x) \<Longrightarrow> map f (sort_key h xs) = sort_key g (map f xs)"
proof (induction xs)
  case (Cons a xs)
  then show ?case using map_insort_key [of g f h a "sort_key h xs"] by simp
qed simp

lemma map2_erase: "length as = length rs \<Longrightarrow>
    map erase (map2 (convert_to_fast_lookup_rule L) as rs) = map (convert_to_fast_lookup_rule L 0) rs"
  by (induction "as" rs rule: list_induct2) simp_all

lemma convert_rules_erase: "map erase (fst (convert_rules L rules heap)) = map (convert_to_fast_lookup_rule L 0) rules"
  unfolding convert_rules_def fst_conv by (rule map2_erase) simp

definition chain_policy :: "chain_type \<Rightarrow> acl_chain \<Rightarrow> acl_rule list" where
  "chain_policy ct c = (if ch_enabled c \<and> chain_type_of_i32 (ch_chain_type c) = ct
     then sort_key (\<lambda>r. - int (unat (ru_priority r))) (filter ru_enabled (ch_rules c)) else [])"

lemma add_chain_erase:
  assumes "ct \<noteq> UnspecifiedChain"
  shows "map erase (rules_for ct (fst (add_chain L c acc))) =
    map erase (rules_for ct (fst acc)) @ map (convert_to_fast_lookup_rule L 0) (chain_policy ct c)"
proof (cases "ch_enabled c")
  case True
  obtain sets heap where acc: "acc = (sets, heap)" by (cases acc)
  obtain conv heap' where conv: "convert_rules L (filter ru_enabled (ch_rules c)) heap = (conv, heap')"
    by (metis surj_pair)
  let ?sorted = "sort_key (\<lambda>r. - int (unat (fl_priority r))) conv"
  have "map erase ?sorted = sort_key (\<lambda>r. - int (unat (fl_priority r))) (map erase conv)"
    by (rule map_sort_key) simp
  also have "map erase conv = map (convert_to_fast_lookup_rule L 0) (filter ru_enabled (ch_rules c))"
    using convert_rules_erase [of L "filter ru_enabled (ch_rules c)" heap] conv by simp
  also have "sort_key (\<lambda>r. - int (unat (fl_priority r))) \<dots> =
      map (convert_to_fast_lookup_rule L 0) (sort_key (\<lambda>r. - int (unat (ru_priority r))) (filter ru_enabled (ch_rules c)))"
    by (rule map_sort_key [symmetric]) simp
  finally have sorted: "map erase ?sorted = \<dots>" .
  show ?thesis
    using True assms sorted acc conv
    by (cases ct; cases "chain_type_of_i32 (ch_chain_type c)") (simp_all add: add_chain_def Let_def chain_policy_def)
qed (simp add: add_chain_def chain_policy_def)

lemma fold_add_chain_erase:
  "ct \<noteq> UnspecifiedChain \<Longrightarrow> map erase (rules_for ct (fst (fold (add_chain L) cs acc))) =
    map erase (rules_for ct (fst acc)) @ map (convert_to_fast_lookup_rule L 0) (concat (map (chain_policy ct) cs))"
  by (induction cs arbitrary: acc) (simp_all add: add_chain_erase)

lemma policy_rules_chains:
  "policy_rules ct cfg = concat (map (chain_policy ct) (case acl_v1 cfg of None \<Rightarrow> [] | Some cs \<Rightarrow> cs))"
proof -
  have "concat (map (\<lambda>c. sort_key (\<lambda>r. - int (unat (ru_priority r))) (filter ru_enabled (ch_rules c)))
        (filter (\<lambda>c. ch_enabled c \<and> chain_type_of_i32 (ch_chain_type c) = ct) cs)) = concat (map (chain_policy ct) cs)" for cs
    by (induction cs) (simp_all add: chain_policy_def)
  then show ?thesis by (simp add: policy_rules_def)
qed

text \<open>The rule sets of the processor are the rules of the policy.\<close>

lemma build_rules_policy:
  assumes "ct \<noteq> UnspecifiedChain"
  shows "map erase (rules_for ct (fst (build_rules L cfg))) = map (convert_to_fast_lookup_rule L 0) (policy_rules ct cfg)"
proof (cases "acl_v1 cfg")
  case None
  then show ?thesis using assms by (cases ct) (simp_all add: build_rules_def policy_rules_chains)
next
  case (Some cs)
  then show ?thesis using assms fold_add_chain_erase [OF assms, of L cs]
    by (cases ct) (simp_all add: build_rules_def policy_rules_chains)
qed

end
