(* ===== verification/Acl_Processor.thy ===== *)
theory Acl_Processor
  imports Acl_Rules Token_Bucket "HOL-Library.AList"
begin

text \<open>
  The processor of access control lists, \<open>easytier-core/src/peers/acl/processor.rs\<close>: rule lookup with a result
  cache, rate limits, connection tracking, counters, the periodic clean-up and the reload that keeps shared
  state.

  \<open>now\<close> is the monotonic clock in nanoseconds, \<open>wall\<close> the wall clock in seconds. The cache is an association
  list, whose order stands for the iteration order of the concurrent map. A connection is keyed by the four
  values that the code formats into its key string. Counters of 64 bits wrap around.
\<close>

section \<open>State\<close>

type_synonym rate_limit_key = "chain_type \<times> u32"

record rate_limit_value =
  rl_token_bucket :: token_bucket
  rl_last_update :: nat

datatype rule_id = Priority u32 | Stateful u32 | DefaultRule

record acl_cache_key =
  ck_chain_type :: chain_type
  ck_protocol :: protocol
  ck_src_ip :: ip_addr
  ck_dst_ip :: ip_addr
  ck_src_port :: u16
  ck_dst_port :: u16
  ck_src_groups :: "string list"
  ck_dst_groups :: "string list"

definition from_packet_info :: "packet_info \<Rightarrow> chain_type \<Rightarrow> acl_cache_key" where
  "from_packet_info info ct =
     \<lparr>ck_chain_type = ct, ck_protocol = pi_protocol info, ck_src_ip = src_ip info, ck_dst_ip = dst_ip info,
      ck_src_port = (case src_port info of Some p \<Rightarrow> p | None \<Rightarrow> 0),
      ck_dst_port = (case dst_port info of Some p \<Rightarrow> p | None \<Rightarrow> 0),
      ck_src_groups = src_groups info, ck_dst_groups = dst_groups info\<rparr>"

datatype acl_log_context =
    StatefulMatch ip_addr ip_addr
  | RuleMatch ip_addr ip_addr acl_action
  | DefaultDrop
  | DefaultAllow
  | UnsupportedChainType
  | RateLimitDrop

record acl_result =
  ar_action :: acl_action
  ar_matched_rule :: "rule_id option"
  ar_should_log :: bool
  ar_log_context :: "acl_log_context option"

type_synonym conn_key = "ip_addr \<times> u16 \<times> ip_addr \<times> u16"

record acl_cache_entry =
  ce_matched_rule :: rule_id
  ce_last_access :: nat
  ce_conn_track_key :: "conn_key option"
  ce_rate_limit_keys :: "rate_limit_key list"
  ce_acl_result :: "acl_result option"
  ce_rule_stats :: "nat list"

datatype conn_state = NewConn | Established

record conn_track_entry =
  ct_src_addr :: "ip_addr \<times> u16"
  ct_dst_addr :: "ip_addr \<times> u16"
  ct_protocol :: protocol
  ct_state :: conn_state
  ct_created_at :: nat
  ct_last_seen :: nat
  ct_packet_count :: u64
  ct_byte_count :: u64

datatype acl_stat_type = Total | Allowed | Dropped | NoopStat

datatype acl_stat_key =
    CacheHits | CacheSize | CacheMaxSize | RuleMatches | DefaultAllows | DefaultDrops
  | PacketsTotal | PacketsAllowed | PacketsDropped | PacketsNoop
  | InboundPacketsTotal | InboundPacketsAllowed | InboundPacketsDropped | InboundPacketsNoop
  | OutboundPacketsTotal | OutboundPacketsAllowed | OutboundPacketsDropped | OutboundPacketsNoop
  | ForwardPacketsTotal | ForwardPacketsAllowed | ForwardPacketsDropped | ForwardPacketsNoop
  | UnknownPacketsTotal | UnknownPacketsAllowed | UnknownPacketsDropped | UnknownPacketsNoop

fun from_chain_and_action :: "chain_type \<Rightarrow> acl_stat_type \<Rightarrow> acl_stat_key" where
  "from_chain_and_action Inbound Total = InboundPacketsTotal"
| "from_chain_and_action Inbound Allowed = InboundPacketsAllowed"
| "from_chain_and_action Inbound Dropped = InboundPacketsDropped"
| "from_chain_and_action Inbound NoopStat = InboundPacketsNoop"
| "from_chain_and_action Outbound Total = OutboundPacketsTotal"
| "from_chain_and_action Outbound Allowed = OutboundPacketsAllowed"
| "from_chain_and_action Outbound Dropped = OutboundPacketsDropped"
| "from_chain_and_action Outbound NoopStat = OutboundPacketsNoop"
| "from_chain_and_action Forward Total = ForwardPacketsTotal"
| "from_chain_and_action Forward Allowed = ForwardPacketsAllowed"
| "from_chain_and_action Forward Dropped = ForwardPacketsDropped"
| "from_chain_and_action Forward NoopStat = ForwardPacketsNoop"
| "from_chain_and_action UnspecifiedChain Total = UnknownPacketsTotal"
| "from_chain_and_action UnspecifiedChain Allowed = UnknownPacketsAllowed"
| "from_chain_and_action UnspecifiedChain Dropped = UnknownPacketsDropped"
| "from_chain_and_action UnspecifiedChain NoopStat = UnknownPacketsNoop"

record acl_processor =
  ap_rules :: rule_sets
  default_inbound_action :: acl_action
  default_outbound_action :: acl_action
  default_forward_action :: acl_action
  default_rule_stats :: nat
  ap_heap :: "rule_stats list"
  conn_track :: "conn_key \<Rightarrow> conn_track_entry option"
  rate_limiters :: "rate_limit_key \<Rightarrow> rate_limit_value option"
  rule_cache :: "(acl_cache_key \<times> acl_cache_entry) list"
  cache_max_size :: nat
  cache_cleanup_interval :: nat
  ap_stats :: "acl_stat_key \<Rightarrow> u64 option"

definition new_with_shared_state ::
  "cidr_lib \<Rightarrow> acl_config \<Rightarrow> (conn_key \<Rightarrow> conn_track_entry option) option \<Rightarrow>
   (rate_limit_key \<Rightarrow> rate_limit_value option) option \<Rightarrow> (acl_stat_key \<Rightarrow> u64 option) option \<Rightarrow> acl_processor" where
  "new_with_shared_state L cfg conn limiters st =
     (let (sets, heap) = build_rules L cfg;
          (din, dout, dfwd) = build_default_actions cfg
      in \<lparr>ap_rules = sets, default_inbound_action = din, default_outbound_action = dout, default_forward_action = dfwd,
          default_rule_stats = length heap, ap_heap = heap @ [\<lparr>rs_rule = None, rs_stat = stat_zero\<rparr>],
          conn_track = (case conn of Some m \<Rightarrow> m | None \<Rightarrow> Map.empty),
          rate_limiters = (case limiters of Some m \<Rightarrow> m | None \<Rightarrow> Map.empty),
          rule_cache = [], cache_max_size = 1024, cache_cleanup_interval = 20 * NANOS_PER_SECOND,
          ap_stats = (case st of Some m \<Rightarrow> m | None \<Rightarrow> Map.empty)\<rparr>)"

definition processor_new :: "cidr_lib \<Rightarrow> acl_config \<Rightarrow> acl_processor" where
  "processor_new L cfg = new_with_shared_state L cfg None None None"

definition get_shared_state ::
  "acl_processor \<Rightarrow> (conn_key \<Rightarrow> conn_track_entry option) \<times> (rate_limit_key \<Rightarrow> rate_limit_value option) \<times>
     (acl_stat_key \<Rightarrow> u64 option)" where
  "get_shared_state p = (conn_track p, rate_limiters p, ap_stats p)"

section \<open>Clean-up\<close>

definition cleanup_cache ::
  "nat \<Rightarrow> nat \<Rightarrow> (acl_cache_key \<times> acl_cache_entry) list \<Rightarrow> (acl_cache_key \<times> acl_cache_entry) list" where
  "cleanup_cache now max_size cache =
     (let age = 15 * NANOS_PER_SECOND;
          expired_timepoint = (if age \<le> now then now - age else now);
          kept = filter (\<lambda>(k, e). expired_timepoint < ce_last_access e) cache;
          current_size = length kept
      in if current_size \<le> max_size then kept
         else
           let entries = sort_key snd (map (\<lambda>(k, e). (k, ce_last_access e)) kept);
               to_remove = current_size - max_size + max_size div 5
           in fold (\<lambda>(k, t). AList.delete k) (take to_remove entries) kept)"

text \<open>One tick of the two tasks started by \<open>start_cache_cleanup_task\<close>.\<close>

definition cache_cleanup_tick :: "nat \<Rightarrow> acl_processor \<Rightarrow> acl_processor" where
  "cache_cleanup_tick now p =
     p\<lparr>rule_cache := cleanup_cache now (cache_max_size p) (rule_cache p),
       rate_limiters := (\<lambda>k. case rate_limiters p k of
           None \<Rightarrow> None
         | Some v \<Rightarrow> if now - rl_last_update v < cache_cleanup_interval p then Some v else None)\<rparr>"

text \<open>The subtraction of times panics in a build with overflow checks when the wall clock was set back.\<close>

definition cleanup_expired_connections ::
  "bool \<Rightarrow> nat \<Rightarrow> nat \<Rightarrow> (conn_key \<Rightarrow> conn_track_entry option) \<Rightarrow> (conn_key \<Rightarrow> conn_track_entry option) may_panic" where
  "cleanup_expired_connections checked wall timeout_secs conn =
     (if checked \<and> (\<exists>e\<in>ran conn. wall < ct_last_seen e) then panic
      else Some (\<lambda>k. case conn k of
          None \<Rightarrow> None
        | Some e \<Rightarrow> if wall < ct_last_seen e \<or> timeout_secs < wall - ct_last_seen e then None else Some e))"

definition conn_cleanup_tick :: "bool \<Rightarrow> nat \<Rightarrow> acl_processor \<Rightarrow> acl_processor may_panic" where
  "conn_cleanup_tick checked wall p = do {
     c \<leftarrow> cleanup_expired_connections checked wall 60 (conn_track p);
     Some (p\<lparr>conn_track := c\<rparr>)
   }"

section \<open>Counters, limits and connections\<close>

definition increment_stat :: "acl_stat_key \<Rightarrow> acl_processor \<Rightarrow> acl_processor" where
  "increment_stat key p =
     p\<lparr>ap_stats := (ap_stats p)(key \<mapsto> (case ap_stats p key of Some n \<Rightarrow> n + 1 | None \<Rightarrow> 1))\<rparr>"

text \<open>\<open>get_stats\<close> keys its table by the names of the keys, which are distinct.\<close>

definition get_stats :: "acl_processor \<Rightarrow> acl_stat_key \<Rightarrow> u64 option" where
  "get_stats p = (ap_stats p)(CacheSize \<mapsto> word_of_nat (length (rule_cache p)),
                              CacheMaxSize \<mapsto> word_of_nat (cache_max_size p))"

definition count_packet :: "packet_info \<Rightarrow> rule_stats \<Rightarrow> rule_stats" where
  "count_packet info rs =
     rs\<lparr>rs_stat := \<lparr>packet_count = packet_count (rs_stat rs) + 1,
                    byte_count = byte_count (rs_stat rs) + word_of_nat (packet_size info)\<rparr>\<rparr>"

definition inc_cache_entry_stats :: "acl_cache_entry \<Rightarrow> packet_info \<Rightarrow> acl_processor \<Rightarrow> acl_processor" where
  "inc_cache_entry_stats entry info p =
     p\<lparr>ap_heap := fold (\<lambda>a heap. heap[a := count_packet info (heap ! a)]) (ce_rule_stats entry) (ap_heap p)\<rparr>"

definition get_rules_stats :: "acl_processor \<Rightarrow> rule_stats list" where
  "get_rules_stats p =
     map (\<lambda>r. ap_heap p ! fl_rule_stats r)
       (inbound_rules (ap_rules p) @ outbound_rules (ap_rules p) @ forward_rules (ap_rules p))"

definition cache_result :: "nat \<Rightarrow> acl_cache_key \<Rightarrow> acl_cache_entry \<Rightarrow> acl_processor \<Rightarrow> acl_processor" where
  "cache_result now key entry p =
     (let cache = AList.update key entry (rule_cache p)
      in p\<lparr>rule_cache := (if cache_max_size p * 2 < length cache
                          then cleanup_cache now (cache_max_size p) cache else cache)\<rparr>)"

definition conn_track_key :: "packet_info \<Rightarrow> conn_key" where
  "conn_track_key info =
     (src_ip info, (case src_port info of Some p \<Rightarrow> p | None \<Rightarrow> 0),
      dst_ip info, (case dst_port info of Some p \<Rightarrow> p | None \<Rightarrow> 0))"

definition check_connection_state :: "nat \<Rightarrow> conn_key \<Rightarrow> packet_info \<Rightarrow> acl_processor \<Rightarrow> acl_processor" where
  "check_connection_state wall key info p =
     p\<lparr>conn_track := (conn_track p)(key \<mapsto>
       (case conn_track p key of
          Some e \<Rightarrow> e\<lparr>ct_last_seen := wall, ct_packet_count := ct_packet_count e + 1,
                      ct_byte_count := ct_byte_count e + word_of_nat (packet_size info), ct_state := Established\<rparr>
        | None \<Rightarrow>
            \<lparr>ct_src_addr = (src_ip info, (case src_port info of Some p \<Rightarrow> p | None \<Rightarrow> 0)),
             ct_dst_addr = (dst_ip info, (case dst_port info of Some p \<Rightarrow> p | None \<Rightarrow> 0)),
             ct_protocol = pi_protocol info, ct_state = NewConn, ct_created_at = wall, ct_last_seen = wall,
             ct_packet_count = 1, ct_byte_count = word_of_nat (packet_size info)\<rparr>))\<rparr>"

definition check_rate_limit ::
  "nat \<Rightarrow> rate_limit_key \<Rightarrow> u32 \<Rightarrow> u32 \<Rightarrow> bool \<Rightarrow> acl_processor \<Rightarrow> (bool \<times> acl_processor) may_panic" where
  "check_rate_limit now key rate burst allow_create p =
     (if rate = 0 then Some (True, p)
      else do {
        v \<leftarrow> (case rate_limiters p key of
                Some v \<Rightarrow> Some v
              | None \<Rightarrow>
                  if \<not> allow_create then panic
                  else Some \<lparr>rl_token_bucket = new_from_cfg now (bucket_config_new (unat burst) (unat rate)),
                             rl_last_update = now\<rparr>);
        (ok, tb) \<leftarrow> try_consume now 1 (rl_token_bucket v);
        Some (ok, p\<lparr>rate_limiters := (rate_limiters p)(key \<mapsto> \<lparr>rl_token_bucket = tb, rl_last_update = now\<rparr>)\<rparr>)
      })"

section \<open>Packets\<close>

fun check_cached_limits :: "nat \<Rightarrow> rate_limit_key list \<Rightarrow> acl_processor \<Rightarrow> (bool \<times> acl_processor) may_panic" where
  "check_cached_limits now [] p = Some (True, p)"
| "check_cached_limits now (k # ks) p = do {
     (ok, p1) \<leftarrow> check_rate_limit now k 1 1 False p;
     if ok then check_cached_limits now ks p1 else Some (False, p1)
   }"

definition process_packet_with_cache_entry ::
  "nat \<Rightarrow> nat \<Rightarrow> packet_info \<Rightarrow> acl_cache_entry \<Rightarrow> acl_processor \<Rightarrow> (acl_result \<times> acl_processor) may_panic" where
  "process_packet_with_cache_entry now wall info entry p = do {
     (ok, p1) \<leftarrow> check_cached_limits now (ce_rate_limit_keys entry) p;
     if \<not> ok
     then Some (\<lparr>ar_action = Drop, ar_matched_rule = Some (ce_matched_rule entry), ar_should_log = False,
                 ar_log_context = Some RateLimitDrop\<rparr>, p1)
     else do {
       let p2 = (case ce_conn_track_key entry of
                   Some k \<Rightarrow> check_connection_state wall k info p1
                 | None \<Rightarrow> p1);
       let p3 = inc_cache_entry_stats entry info p2;
       r \<leftarrow> ce_acl_result entry;
       Some (r, p3)
     }
   }"

text \<open>The body of the loop for the first rule that matches.\<close>

definition apply_rule ::
  "nat \<Rightarrow> nat \<Rightarrow> packet_info \<Rightarrow> chain_type \<Rightarrow> acl_cache_key \<Rightarrow> fast_lookup_rule \<Rightarrow> acl_processor \<Rightarrow>
   (acl_result \<times> acl_processor) may_panic" where
  "apply_rule now wall info ct key rule p = do {
     let entry0 = \<lparr>ce_matched_rule = DefaultRule, ce_last_access = now, ce_conn_track_key = None,
                   ce_rate_limit_keys = [], ce_acl_result = None, ce_rule_stats = []\<rparr>;
     let rule_key = (ct, fl_priority rule);
     let entry1 = (if 0 < rate_limit rule
                   then entry0\<lparr>ce_rate_limit_keys := [rule_key], ce_rule_stats := [fl_rule_stats rule]\<rparr> else entry0);
     (ok, p1) \<leftarrow> (if 0 < rate_limit rule then check_rate_limit now rule_key (rate_limit rule) (burst_limit rule) True p
                  else Some (True, p));
     if \<not> ok
     then Some (\<lparr>ar_action = Drop, ar_matched_rule = Some (Priority (fl_priority rule)), ar_should_log = False,
                 ar_log_context = Some RateLimitDrop\<rparr>, p1)
     else
       let (result, entry2, p2) =
         (if fl_stateful rule \<and> fl_action rule = Allow
          then let k = conn_track_key info;
                   r = \<lparr>ar_action = Allow, ar_matched_rule = Some (Stateful (fl_priority rule)), ar_should_log = False,
                        ar_log_context = Some (StatefulMatch (src_ip info) (dst_ip info))\<rparr>
               in (r, entry1\<lparr>ce_rule_stats := ce_rule_stats entry1 @ [fl_rule_stats rule],
                             ce_matched_rule := Stateful (fl_priority rule), ce_conn_track_key := Some k,
                             ce_acl_result := Some r\<rparr>,
                   check_connection_state wall k info p1)
          else let r = \<lparr>ar_action = fl_action rule, ar_matched_rule = Some (Priority (fl_priority rule)), ar_should_log = False,
                        ar_log_context = Some (RuleMatch (src_ip info) (dst_ip info) (fl_action rule))\<rparr>
               in (r, entry1\<lparr>ce_rule_stats := ce_rule_stats entry1 @ [fl_rule_stats rule],
                             ce_matched_rule := Priority (fl_priority rule), ce_acl_result := Some r\<rparr>, p1))
       in Some (result, cache_result now key entry2 (inc_cache_entry_stats entry2 info (increment_stat RuleMatches p2)))
   }"

primrec default_action :: "chain_type \<Rightarrow> acl_processor \<Rightarrow> acl_action" where
  "default_action UnspecifiedChain p = Allow"
| "default_action Inbound p = default_inbound_action p"
| "default_action Outbound p = default_outbound_action p"
| "default_action Forward p = default_forward_action p"

definition apply_default ::
  "nat \<Rightarrow> packet_info \<Rightarrow> chain_type \<Rightarrow> acl_cache_key \<Rightarrow> acl_processor \<Rightarrow> acl_result \<times> acl_processor" where
  "apply_default now info ct key p =
     (let act = default_action ct p;
          p1 = increment_stat (if act = Drop then DefaultDrops else DefaultAllows) p;
          result = \<lparr>ar_action = act, ar_matched_rule = Some DefaultRule, ar_should_log = False,
                    ar_log_context = Some (if act = Drop then DefaultDrop else DefaultAllow)\<rparr>;
          entry = \<lparr>ce_matched_rule = DefaultRule, ce_last_access = now, ce_conn_track_key = None,
                   ce_rate_limit_keys = [], ce_acl_result = Some result, ce_rule_stats = [default_rule_stats p]\<rparr>
      in (result, cache_result now key entry (inc_cache_entry_stats entry info p1)))"

definition process_packet ::
  "cidr_lib \<Rightarrow> nat \<Rightarrow> nat \<Rightarrow> packet_info \<Rightarrow> chain_type \<Rightarrow> acl_processor \<Rightarrow> (acl_result \<times> acl_processor) may_panic" where
  "process_packet L now wall info ct p =
     (let key = from_packet_info info ct
      in case map_of (rule_cache p) key of
           Some entry \<Rightarrow>
             let entry' = entry\<lparr>ce_last_access := now\<rparr>;
                 p1 = increment_stat CacheHits (p\<lparr>rule_cache := AList.update key entry' (rule_cache p)\<rparr>)
             in process_packet_with_cache_entry now wall info entry' p1
         | None \<Rightarrow>
             if ct = UnspecifiedChain
             then Some (\<lparr>ar_action = Drop, ar_matched_rule = Some DefaultRule, ar_should_log = False,
                         ar_log_context = Some UnsupportedChainType\<rparr>, p)
             else
               (case find (\<lambda>rule. fl_enabled rule \<and> rule_matches L rule info) (rules_for ct (ap_rules p)) of
                  Some rule \<Rightarrow> apply_rule now wall info ct key rule p
                | None \<Rightarrow> Some (apply_default now info ct key p)))"

end
