(* ===== verification/Acl_Policy.thy ===== *)
theory Acl_Policy
  imports Acl_Processor "HOL-Library.Multiset"
begin

text \<open>
  What the processor of access control lists decides. The result cache, the rate limiters and the periodic
  clean-up are kept by one invariant; under it a packet gets the verdict of the configured policy, or is dropped
  by the rate limit of the rule that applies to it.
\<close>

section \<open>What a result should be\<close>

text \<open>Ports are known exactly for TCP and UDP, as the packet parser delivers them.\<close>

definition ports_ok :: "packet_info \<Rightarrow> bool" where
  "ports_ok info \<longleftrightarrow> (src_port info \<noteq> None \<longleftrightarrow> pi_protocol info \<in> {Tcp, Udp}) \<and>
     (dst_port info \<noteq> None \<longleftrightarrow> pi_protocol info \<in> {Tcp, Udp})"

definition matching :: "cidr_lib \<Rightarrow> rule_sets \<Rightarrow> chain_type \<Rightarrow> packet_info \<Rightarrow> fast_lookup_rule option" where
  "matching L sets ct info = find (\<lambda>rule. fl_enabled rule \<and> rule_matches L rule info) (rules_for ct sets)"

definition rule_result :: "packet_info \<Rightarrow> fast_lookup_rule \<Rightarrow> acl_result" where
  "rule_result info rule =
     (if fl_stateful rule \<and> fl_action rule = Allow
      then \<lparr>ar_action = Allow, ar_matched_rule = Some (Stateful (fl_priority rule)), ar_should_log = False,
            ar_log_context = Some (StatefulMatch (src_ip info) (dst_ip info))\<rparr>
      else \<lparr>ar_action = fl_action rule, ar_matched_rule = Some (Priority (fl_priority rule)), ar_should_log = False,
            ar_log_context = Some (RuleMatch (src_ip info) (dst_ip info) (fl_action rule))\<rparr>)"

definition default_result :: "acl_action \<Rightarrow> acl_result" where
  "default_result act = \<lparr>ar_action = act, ar_matched_rule = Some DefaultRule, ar_should_log = False,
     ar_log_context = Some (if act = Drop then DefaultDrop else DefaultAllow)\<rparr>"

definition verdict :: "cidr_lib \<Rightarrow> rule_sets \<Rightarrow> (chain_type \<Rightarrow> acl_action) \<Rightarrow> chain_type \<Rightarrow> packet_info \<Rightarrow> acl_result" where
  "verdict L sets dflt ct info =
     (case matching L sets ct info of Some rule \<Rightarrow> rule_result info rule | None \<Rightarrow> default_result (dflt ct))"

definition limited :: "cidr_lib \<Rightarrow> rule_sets \<Rightarrow> chain_type \<Rightarrow> packet_info \<Rightarrow> bool" where
  "limited L sets ct info \<longleftrightarrow> (\<exists>rule. matching L sets ct info = Some rule \<and> 0 < rate_limit rule)"

text \<open>The cache key tells packets apart as far as the rules do.\<close>

lemma same_key_same_match:
  assumes "ports_ok i" and "ports_ok j" and "from_packet_info i ct = from_packet_info j ct"
  shows "rule_matches L r i = rule_matches L r j" and "src_ip i = src_ip j" and "dst_ip i = dst_ip j"
proof -
  have eq: "pi_protocol i = pi_protocol j" "src_ip i = src_ip j" "dst_ip i = dst_ip j"
    "src_groups i = src_groups j" "dst_groups i = dst_groups j"
    "(case src_port i of Some p \<Rightarrow> p | None \<Rightarrow> 0) = (case src_port j of Some p \<Rightarrow> p | None \<Rightarrow> 0)"
    "(case dst_port i of Some p \<Rightarrow> p | None \<Rightarrow> 0) = (case dst_port j of Some p \<Rightarrow> p | None \<Rightarrow> 0)"
    using assms(3) by (simp_all add: from_packet_info_def)
  then have "src_port i = src_port j" "dst_port i = dst_port j"
    using assms(1,2) by (auto simp: ports_ok_def split: option.splits)
  then show "rule_matches L r i = rule_matches L r j" using eq by (simp add: rule_matches_def)
  show "src_ip i = src_ip j" "dst_ip i = dst_ip j" by (fact eq)+
qed

lemma same_key_same_verdict:
  assumes "ports_ok i" and "ports_ok j" and "from_packet_info i ct = from_packet_info j ct"
  shows "verdict L sets dflt ct i = verdict L sets dflt ct j" and "limited L sets ct i = limited L sets ct j"
proof -
  note same = same_key_same_match [OF assms]
  have "matching L sets ct i = matching L sets ct j" by (simp add: matching_def same(1))
  then show "verdict L sets dflt ct i = verdict L sets dflt ct j" "limited L sets ct i = limited L sets ct j"
    using same(2,3) by (cases "matching L sets ct j"; simp add: verdict_def limited_def rule_result_def)+
qed

section \<open>The invariant\<close>

definition limiters_ok :: "(rate_limit_key \<Rightarrow> rate_limit_value option) \<Rightarrow> bool" where
  "limiters_ok ls \<longleftrightarrow> (\<forall>k v. ls k = Some v \<longrightarrow> bucket_ok (rl_token_bucket v))"

text \<open>A cached entry holds the verdict of every packet with its key, and the limiters it names are at least
  as fresh as the entry.\<close>

definition entry_right :: "cidr_lib \<Rightarrow> rule_sets \<Rightarrow> (chain_type \<Rightarrow> acl_action) \<Rightarrow> acl_cache_key \<Rightarrow> acl_cache_entry \<Rightarrow> bool" where
  "entry_right L sets dflt key e \<longleftrightarrow> ce_acl_result e \<noteq> None \<and> length (ce_rate_limit_keys e) \<le> 1 \<and>
     (\<forall>info. ports_ok info \<and> from_packet_info info (ck_chain_type key) = key \<longrightarrow>
        ce_acl_result e = Some (verdict L sets dflt (ck_chain_type key) info) \<and>
        (ce_rate_limit_keys e \<noteq> [] \<longrightarrow> limited L sets (ck_chain_type key) info))"

definition entry_fresh :: "(rate_limit_key \<Rightarrow> rate_limit_value option) \<Rightarrow> acl_cache_entry \<Rightarrow> bool" where
  "entry_fresh ls e \<longleftrightarrow>
     (\<forall>k\<in>set (ce_rate_limit_keys e). \<exists>v. ls k = Some v \<and> ce_last_access e \<le> rl_last_update v)"

definition processor_inv :: "cidr_lib \<Rightarrow> nat \<Rightarrow> nat \<Rightarrow> acl_processor \<Rightarrow> bool" where
  "processor_inv L t w p \<longleftrightarrow> limiters_ok (rate_limiters p) \<and>
     (\<forall>(k, e)\<in>set (rule_cache p). entry_right L (ap_rules p) (\<lambda>ct. default_action ct p) k e \<and>
        entry_fresh (rate_limiters p) e \<and> ce_last_access e \<le> t) \<and>
     distinct (map fst (rule_cache p)) \<and> length (rule_cache p) \<le> 2 * cache_max_size p \<and>
     cache_cleanup_interval p = 20 * NANOS_PER_SECOND \<and>
     (\<forall>e\<in>ran (conn_track p). ct_last_seen e \<le> w)"

text \<open>Freshness survives when limiters are only renewed.\<close>

definition renewed :: "nat \<Rightarrow> (rate_limit_key \<Rightarrow> rate_limit_value option) \<Rightarrow> (rate_limit_key \<Rightarrow> rate_limit_value option) \<Rightarrow> bool" where
  "renewed now ls ls' \<longleftrightarrow> (\<forall>k v. ls k = Some v \<longrightarrow> (\<exists>v'. ls' k = Some v' \<and> (v' = v \<or> rl_last_update v' = now)))"

lemma renewed_refl: "renewed now ls ls"
  by (simp add: renewed_def)

lemma renewed_trans: "renewed now a b \<Longrightarrow> renewed now b c \<Longrightarrow> renewed now a c"
  unfolding renewed_def by metis

lemma entry_fresh_renewed: "entry_fresh ls e \<Longrightarrow> renewed now ls ls' \<Longrightarrow> ce_last_access e \<le> now \<Longrightarrow> entry_fresh ls' e"
  unfolding entry_fresh_def renewed_def by metis

lemma check_rate_limit_spec:
  assumes "limiters_ok (rate_limiters p)" and "allow_create \<or> rate_limiters p key \<noteq> None"
  obtains ok ls where "check_rate_limit now key rate burst allow_create p = Some (ok, p\<lparr>rate_limiters := ls\<rparr>)"
    and "limiters_ok ls" and "renewed now (rate_limiters p) ls"
    and "rate \<noteq> 0 \<longrightarrow> (\<exists>v. ls key = Some v \<and> rl_last_update v = now)" and "rate = 0 \<longrightarrow> ok"
proof (cases "rate = 0")
  case True
  then show thesis using that [of True "rate_limiters p"] assms(1) by (simp add: check_rate_limit_def renewed_refl)
next
  case False
  define v where "v = (case rate_limiters p key of Some v \<Rightarrow> v
    | None \<Rightarrow> \<lparr>rl_token_bucket = new_from_cfg now (bucket_config_new (unat burst) (unat rate)), rl_last_update = now\<rparr>)"
  have "unat burst < 2 ^ 32" using unsigned_less [of burst] by simp
  then have "unat burst \<le> U64_MAX" by (simp add: U64_MAX_def)
  then have "bucket_ok (rl_token_bucket v)"
    using assms(1) unfolding limiters_ok_def v_def
    by (cases "rate_limiters p key") (simp_all add: bucket_config_new_def new_from_cfg_ok, metis surj_pair)
  then obtain ok tb where tb: "try_consume now 1 (rl_token_bucket v) = Some (ok, tb)" "bucket_ok tb"
    using bucket.attempt_ok by blast
  let ?ls = "(rate_limiters p)(key \<mapsto> \<lparr>rl_token_bucket = tb, rl_last_update = now\<rparr>)"
  have "check_rate_limit now key rate burst allow_create p = Some (ok, p\<lparr>rate_limiters := ?ls\<rparr>)"
    using False assms(2) tb(1) by (auto simp: check_rate_limit_def v_def split: option.splits)
  moreover have "limiters_ok ?ls" using assms(1) tb(2) by (simp add: limiters_ok_def)
  moreover have "renewed now (rate_limiters p) ?ls" by (simp add: renewed_def)
  ultimately show thesis using that [of ok ?ls] False by simp
qed

lemma check_cached_limits_spec:
  assumes "limiters_ok (rate_limiters p)" and "\<forall>k\<in>set ks. rate_limiters p k \<noteq> None" and "length ks \<le> 1"
  obtains ok ls where "check_cached_limits now ks p = Some (ok, p\<lparr>rate_limiters := ls\<rparr>)"
    and "limiters_ok ls" and "renewed now (rate_limiters p) ls"
    and "ks = [] \<longrightarrow> ok" and "\<forall>k\<in>set ks. \<exists>v. ls k = Some v \<and> rl_last_update v = now"
proof (cases ks)
  case Nil
  then show thesis using that [of True "rate_limiters p"] assms(1) by (simp add: renewed_refl)
next
  case (Cons k ks')
  obtain ok ls where r: "check_rate_limit now k 1 1 False p = Some (ok, p\<lparr>rate_limiters := ls\<rparr>)" "limiters_ok ls"
      "renewed now (rate_limiters p) ls" "(1 :: u32) \<noteq> 0 \<longrightarrow> (\<exists>v. ls k = Some v \<and> rl_last_update v = now)"
    by (rule check_rate_limit_spec [OF assms(1), where allow_create = False and key = k and now = now and rate = 1 and burst = 1])
       (use assms(2) Cons in auto)
  moreover have "ks' = []" using Cons assms(3) by simp
  ultimately show thesis using that [of ok ls] Cons by simp
qed

section \<open>Preservation\<close>

lemma filter_cache_subset: "set (filter P xs) \<subseteq> set xs" by auto

lemma fold_delete_subset: "set (fold (\<lambda>(k, t). AList.delete k) ks c) \<subseteq> set c"
proof (induction ks arbitrary: c)
  case (Cons x ks)
  then show ?case by (cases x) (force simp: AList.delete_eq)
qed simp

lemma fold_delete_distinct: "distinct (map fst c) \<Longrightarrow> distinct (map fst (fold (\<lambda>(k, t). AList.delete k) ks c))"
  by (induction ks arbitrary: c) (auto simp: distinct_delete)

lemma length_delete: "distinct (map fst c) \<Longrightarrow> k \<in> fst ` set c \<Longrightarrow> length (AList.delete k c) = length c - 1"
proof (induction c)
  case (Cons x c)
  show ?case
  proof (cases "fst x = k")
    case True
    then have "k \<notin> fst ` set c" using Cons.prems(1) by simp
    then have "\<forall>y\<in>set c. fst y \<noteq> k" by auto
    then have "filter (\<lambda>(k', _). k \<noteq> k') c = c" by (intro filter_True) auto
    then show ?thesis using True by (simp add: AList.delete_eq case_prod_beta)
  next
    case False
    then have "k \<in> fst ` set c" using Cons.prems(2) by auto
    moreover from this have "0 < length c" by auto
    ultimately show ?thesis using False Cons by (simp add: AList.delete_eq case_prod_beta)
  qed
qed simp

lemma fold_delete_length:
  assumes "distinct (map fst c)" and "distinct (map fst ks)" and "fst ` set ks \<subseteq> fst ` set c"
  shows "length (fold (\<lambda>(k, t). AList.delete k) ks c) = length c - length ks"
  using assms
proof (induction ks arbitrary: c)
  case (Cons x ks)
  obtain k t where x: "x = (k, t)" by (cases x)
  have left: "fst ` set (AList.delete k c) = fst ` set c - {k}" by (force simp: AList.delete_eq)
  have "k \<notin> fst ` set ks" using Cons.prems(2) x by simp
  moreover have "fst ` set ks \<subseteq> fst ` set c" using Cons.prems(3) by simp
  ultimately have sub: "fst ` set ks \<subseteq> fst ` set (AList.delete k c)" unfolding left by (simp add: subset_Diff_insert)
  have "length (fold (\<lambda>(k, t). AList.delete k) ks (AList.delete k c)) = length (AList.delete k c) - length ks"
    using sub Cons.prems(1,2) by (intro Cons.IH) (simp_all add: distinct_delete)
  also have "length (AList.delete k c) = length c - 1"
    using Cons.prems x by (intro length_delete) auto
  finally show ?case by (simp add: x)
qed simp

lemma cleanup_cache_spec:
  assumes "distinct (map fst cache)"
  shows "set (cleanup_cache now n cache) \<subseteq> set cache" and "distinct (map fst (cleanup_cache now n cache))"
    and "length (cleanup_cache now n cache) \<le> n"
    and "(k, e) \<in> set (cleanup_cache now n cache) \<Longrightarrow> ce_last_access e \<le> now \<Longrightarrow> now < ce_last_access e + 15 * NANOS_PER_SECOND"
proof -
  define exp where "exp = (if 15 * NANOS_PER_SECOND \<le> now then now - 15 * NANOS_PER_SECOND else now)"
  define kept where "kept = filter (\<lambda>(k, e). exp < ce_last_access e) cache"
  define entries where "entries = sort_key snd (map (\<lambda>(k, e). (k, ce_last_access e)) kept)"
  define rem where "rem = length kept - n + n div 5"
  have c: "cleanup_cache now n cache = (if length kept \<le> n then kept
      else fold (\<lambda>(k, t). AList.delete k) (take rem entries) kept)"
    by (simp add: cleanup_cache_def Let_def kept_def entries_def rem_def exp_def)
  have dk: "distinct (map fst kept)" using assms by (simp add: kept_def distinct_map_filter)
  have sub: "set (cleanup_cache now n cache) \<subseteq> set kept" using fold_delete_subset c by auto
  then show "set (cleanup_cache now n cache) \<subseteq> set cache" by (auto simp: kept_def)
  show "distinct (map fst (cleanup_cache now n cache))"
    using dk fold_delete_distinct [OF dk, of "take rem entries"] by (simp add: c)
  show "now < ce_last_access e + 15 * NANOS_PER_SECOND"
    if "(k, e) \<in> set (cleanup_cache now n cache)" "ce_last_access e \<le> now"
    using that sub by (auto simp: kept_def exp_def split: if_splits)
  have keys: "mset (map fst entries) = mset (map fst kept)"
  proof -
    have "map fst (map (\<lambda>(k, e). (k, ce_last_access e)) kept) = map fst kept" by (simp add: case_prod_beta)
    then show ?thesis unfolding entries_def mset_map mset_sort by (metis mset_map)
  qed
  then have "distinct (map fst entries)" using dk mset_eq_imp_distinct_iff by blast
  then have "distinct (map fst (take rem entries))" by (simp add: take_map [symmetric])
  moreover have "fst ` set (take rem entries) \<subseteq> fst ` set kept"
    using keys by (metis image_mono mset_eq_setD set_map set_take_subset)
  ultimately have "length (fold (\<lambda>(k, t). AList.delete k) (take rem entries) kept) = length kept - length (take rem entries)"
    by (rule fold_delete_length [OF dk])
  moreover have "length entries = length kept" by (simp add: entries_def)
  ultimately show "length (cleanup_cache now n cache) \<le> n" unfolding c by (auto simp: rem_def)
qed

definition same_policy :: "acl_processor \<Rightarrow> acl_processor \<Rightarrow> bool" where
  "same_policy p p' \<longleftrightarrow> ap_rules p' = ap_rules p \<and> (\<forall>ct. default_action ct p' = default_action ct p) \<and>
     cache_max_size p' = cache_max_size p"

lemma default_action_update [simp]:
  "default_action ct (p\<lparr>ap_stats := x\<rparr>) = default_action ct p" "default_action ct (p\<lparr>ap_heap := h\<rparr>) = default_action ct p"
  "default_action ct (p\<lparr>conn_track := c\<rparr>) = default_action ct p" "default_action ct (p\<lparr>rate_limiters := l\<rparr>) = default_action ct p"
  "default_action ct (p\<lparr>rule_cache := r\<rparr>) = default_action ct p"
  by (cases ct; simp)+

lemma same_policy_simps [simp]:
  "same_policy p p" "same_policy p (increment_stat k p') = same_policy p p'"
  "same_policy p (inc_cache_entry_stats e info p') = same_policy p p'"
  "same_policy p (cache_result now key e p') = same_policy p p'"
  "same_policy p (check_connection_state wall k' info p') = same_policy p p'"
  "same_policy p (p'\<lparr>rate_limiters := l\<rparr>) = same_policy p p'"
  "same_policy p (p'\<lparr>rule_cache := r\<rparr>) = same_policy p p'"
  by (simp_all add: same_policy_def increment_stat_def inc_cache_entry_stats_def cache_result_def Let_def check_connection_state_def)

lemma processor_inv_stat [simp]:
  "processor_inv L t w (increment_stat k p) = processor_inv L t w p"
  "processor_inv L t w (inc_cache_entry_stats e info p) = processor_inv L t w p"
  by (simp_all add: processor_inv_def increment_stat_def inc_cache_entry_stats_def)

lemma processor_inv_mono: "processor_inv L t w p \<Longrightarrow> t \<le> t' \<Longrightarrow> w \<le> w' \<Longrightarrow> processor_inv L t' w' p"
  unfolding processor_inv_def by fastforce

lemma ran_upd_subset: "ran (m(k \<mapsto> v)) \<subseteq> insert v (ran m)"
  by (force simp: ran_def split: if_splits)

lemma processor_inv_conn:
  assumes "processor_inv L t w p" and "w \<le> wall"
  shows "processor_inv L t wall (check_connection_state wall key info p)"
proof -
  obtain v where v: "check_connection_state wall key info p = p\<lparr>conn_track := (conn_track p)(key \<mapsto> v)\<rparr>" "ct_last_seen v = wall"
    by (cases "conn_track p key") (auto simp: check_connection_state_def)
  have "ct_last_seen e \<le> wall" if "e \<in> ran ((conn_track p)(key \<mapsto> v))" for e
    using that ran_upd_subset [of "conn_track p" key v] v(2) assms by (fastforce simp: processor_inv_def)
  then show ?thesis using assms unfolding v(1) by (simp add: processor_inv_def)
qed

lemma processor_inv_limiters:
  assumes "processor_inv L t w p" and "t \<le> now" and "limiters_ok ls" and "renewed now (rate_limiters p) ls"
  shows "processor_inv L now w (p\<lparr>rate_limiters := ls\<rparr>)"
proof -
  have "entry_fresh ls e" if "(k, e) \<in> set (rule_cache p)" for k e
    using that assms by (intro entry_fresh_renewed [OF _ assms(4)]) (auto simp: processor_inv_def)
  then show ?thesis using assms by (auto simp: processor_inv_def)
qed

lemma set_update_subset: "set (AList.update k v xs) \<subseteq> insert (k, v) (set xs)"
  by (induction xs) auto

lemma length_update_le: "length (AList.update k v xs) \<le> Suc (length xs)"
  by (induction xs) auto

lemma length_update_present: "map_of xs k = Some v' \<Longrightarrow> length (AList.update k v xs) = length xs"
  by (induction xs) (auto split: if_splits)

lemma processor_inv_update:
  assumes "processor_inv L t w p" and "t \<le> now" and "ce_last_access e = now" and "length (AList.update key e (rule_cache p)) \<le> 2 * cache_max_size p"
    and "entry_right L (ap_rules p) (\<lambda>ct. default_action ct p) key e" and "entry_fresh (rate_limiters p) e"
  shows "processor_inv L now w (p\<lparr>rule_cache := AList.update key e (rule_cache p)\<rparr>)"
  using assms set_update_subset [of key e "rule_cache p"] distinct_update [of "rule_cache p" key e]
  unfolding processor_inv_def by fastforce

lemma processor_inv_cache_result:
  assumes "processor_inv L t w p" and "t \<le> now" and "ce_last_access e = now"
    and "entry_right L (ap_rules p) (\<lambda>ct. default_action ct p) key e" and "entry_fresh (rate_limiters p) e"
  shows "processor_inv L now w (cache_result now key e p)"
proof -
  let ?c = "AList.update key e (rule_cache p)"
  have d: "distinct (map fst ?c)" using assms(1) by (simp add: processor_inv_def distinct_update)
  show ?thesis
  proof (cases "cache_max_size p * 2 < length ?c")
    case False
    then show ?thesis using processor_inv_update [OF assms(1-3)] assms(4,5) by (simp add: cache_result_def Let_def)
  next
    case True
    let ?d = "cleanup_cache now (cache_max_size p) ?c"
    have "set ?d \<subseteq> insert (key, e) (set (rule_cache p))"
      using cleanup_cache_spec(1) [OF d] set_update_subset by fastforce
    moreover have "distinct (map fst ?d)" "length ?d \<le> 2 * cache_max_size p"
      using cleanup_cache_spec(2,3) [OF d, of now "cache_max_size p"] by simp_all
    moreover have "processor_inv L now w p" by (rule processor_inv_mono [OF assms(1,2)]) simp
    ultimately show ?thesis using True assms(3-5) by (auto simp: cache_result_def Let_def processor_inv_def)
  qed
qed

lemma entry_right_intro:
  assumes "ports_ok info" and "key = from_packet_info info ct" and "ce_acl_result e = Some (verdict L sets dflt ct info)"
    and "ce_rate_limit_keys e \<noteq> [] \<Longrightarrow> limited L sets ct info" and "length (ce_rate_limit_keys e) \<le> 1"
  shows "entry_right L sets dflt key e"
proof -
  have ct: "ck_chain_type key = ct" by (simp add: assms(2) from_packet_info_def)
  have "verdict L sets dflt ct i = verdict L sets dflt ct info" "limited L sets ct i = limited L sets ct info"
    if "ports_ok i" "from_packet_info i ct = key" for i
    using same_key_same_verdict [OF that(1) assms(1)] that(2) assms(2) by simp_all
  then show ?thesis unfolding entry_right_def ct using assms(3-5) by simp
qed

lemma cached_packet_spec:
  assumes inv: "processor_inv L t w p" and "t \<le> now" and "w \<le> wall" and ports: "ports_ok info"
    and entry: "map_of (rule_cache p) (from_packet_info info ct) = Some entry"
  obtains r p' where "process_packet L now wall info ct p = Some (r, p')" and "processor_inv L now wall p'"
    and "same_policy p p'" and "r = verdict L (ap_rules p) (\<lambda>ct. default_action ct p) ct info \<or>
      limited L (ap_rules p) ct info \<and> ar_action r = Drop \<and> ar_log_context r = Some RateLimitDrop"
proof -
  let ?key = "from_packet_info info ct"
  define e where "e = entry\<lparr>ce_last_access := now\<rparr>"
  define c where "c = AList.update ?key e (rule_cache p)"
  have ct: "ck_chain_type ?key = ct" by (simp add: from_packet_info_def)
  have old: "entry_right L (ap_rules p) (\<lambda>ct. default_action ct p) ?key entry" "entry_fresh (rate_limiters p) entry"
    using inv map_of_SomeD [OF entry] by (auto simp: processor_inv_def)
  have right: "entry_right L (ap_rules p) (\<lambda>ct. default_action ct p) ?key e" using old(1) by (simp add: entry_right_def e_def)
  then have res: "ce_acl_result e = Some (verdict L (ap_rules p) (\<lambda>ct. default_action ct p) ct info)"
    "ce_rate_limit_keys e \<noteq> [] \<longrightarrow> limited L (ap_rules p) ct info" "length (ce_rate_limit_keys e) \<le> 1"
    using ports unfolding entry_right_def ct by simp_all
  let ?p1 = "increment_stat CacheHits (p\<lparr>rule_cache := c\<rparr>)"
  have p1: "rate_limiters ?p1 = rate_limiters p" by (simp add: increment_stat_def)
  have "\<forall>k\<in>set (ce_rate_limit_keys e). rate_limiters ?p1 k \<noteq> None"
    using old(2) by (auto simp: entry_fresh_def e_def p1)
  moreover have "limiters_ok (rate_limiters ?p1)" using inv by (simp add: p1 processor_inv_def)
  ultimately obtain ok ls where lim: "check_cached_limits now (ce_rate_limit_keys e) ?p1 = Some (ok, ?p1\<lparr>rate_limiters := ls\<rparr>)"
      "limiters_ok ls" "renewed now (rate_limiters ?p1) ls" "ce_rate_limit_keys e = [] \<longrightarrow> ok"
      "\<forall>k\<in>set (ce_rate_limit_keys e). \<exists>v. ls k = Some v \<and> rl_last_update v = now"
    using res(3) by (rule_tac check_cached_limits_spec [of ?p1 "ce_rate_limit_keys e" now]) blast+
  define p2 where "p2 = increment_stat CacheHits (p\<lparr>rate_limiters := ls, rule_cache := c\<rparr>)"
  have p2: "?p1\<lparr>rate_limiters := ls\<rparr> = p2" by (simp add: p2_def increment_stat_def)
  have inv': "processor_inv L now w (p\<lparr>rate_limiters := ls\<rparr>)"
    using lim(3) unfolding p1 by (rule processor_inv_limiters [OF inv assms(2) lim(2)])
  have "entry_fresh ls e" using lim(5) by (auto simp: entry_fresh_def e_def)
  moreover have "length (AList.update ?key e (rule_cache p)) \<le> 2 * cache_max_size p"
    using inv length_update_present [OF entry, of e] by (simp add: processor_inv_def)
  ultimately have inv2: "processor_inv L now w p2"
    using processor_inv_update [OF inv' order_refl, of e ?key] right by (simp add: p2_def c_def e_def)
  have proc: "process_packet L now wall info ct p = process_packet_with_cache_entry now wall info e ?p1"
    using entry by (simp add: process_packet_def Let_def e_def c_def)
  show thesis
  proof (cases ok)
    case False
    then show thesis
      using that [of _ p2] proc lim(1,4) res(2) inv2 processor_inv_mono [OF inv2 order_refl assms(3)]
      by (auto simp: process_packet_with_cache_entry_def p2 p2_def)
  next
    case True
    define p3 where "p3 = (case ce_conn_track_key e of Some k \<Rightarrow> check_connection_state wall k info p2 | None \<Rightarrow> p2)"
    have "processor_inv L now wall p3" "same_policy p p3"
      using processor_inv_conn [OF inv2 assms(3)] processor_inv_mono [OF inv2 order_refl assms(3)]
      by (auto simp: p3_def p2_def split: option.split)
    then show thesis
      using that [of _ "inc_cache_entry_stats e info p3"] proc lim(1) True res(1)
      by (simp add: process_packet_with_cache_entry_def p2 p3_def)
  qed
qed

text \<open>The entry that a matching rule leaves in the cache, and the loop body in terms of it.\<close>

definition rule_entry :: "nat \<Rightarrow> packet_info \<Rightarrow> chain_type \<Rightarrow> fast_lookup_rule \<Rightarrow> acl_cache_entry" where
  "rule_entry now info ct rule =
     \<lparr>ce_matched_rule = (if fl_stateful rule \<and> fl_action rule = Allow then Stateful (fl_priority rule) else Priority (fl_priority rule)),
      ce_last_access = now,
      ce_conn_track_key = (if fl_stateful rule \<and> fl_action rule = Allow then Some (conn_track_key info) else None),
      ce_rate_limit_keys = (if 0 < rate_limit rule then [(ct, fl_priority rule)] else []),
      ce_acl_result = Some (rule_result info rule),
      ce_rule_stats = (if 0 < rate_limit rule then [fl_rule_stats rule] else []) @ [fl_rule_stats rule]\<rparr>"

lemma apply_rule_eq:
  "apply_rule now wall info ct key rule p = do {
     (ok, p1) \<leftarrow> check_rate_limit now (ct, fl_priority rule) (rate_limit rule) (burst_limit rule) True p;
     Some (if \<not> ok
       then (\<lparr>ar_action = Drop, ar_matched_rule = Some (Priority (fl_priority rule)), ar_should_log = False,
              ar_log_context = Some RateLimitDrop\<rparr>, p1)
       else (rule_result info rule, cache_result now key (rule_entry now info ct rule)
              (inc_cache_entry_stats (rule_entry now info ct rule) info (increment_stat RuleMatches
                (if fl_stateful rule \<and> fl_action rule = Allow
                 then check_connection_state wall (conn_track_key info) info p1 else p1)))))
   }"
proof -
  define X where "X = check_rate_limit now (ct, fl_priority rule) (rate_limit rule) (burst_limit rule) True p"
  have "(if 0 < rate_limit rule then X else Some (True, p)) = X" by (simp add: X_def check_rate_limit_def word_gt_0)
  then show ?thesis
    unfolding apply_rule_def Let_def X_def [symmetric]
    by (cases X; cases "fl_stateful rule \<and> fl_action rule = Allow"; cases "0 < rate_limit rule")
       (auto simp: rule_entry_def rule_result_def)
qed

lemma default_packet_spec:
  assumes inv: "processor_inv L now wall p" and ports: "ports_ok info" and ct: "ct \<noteq> UnspecifiedChain"
    and fresh: "map_of (rule_cache p) (from_packet_info info ct) = None" and none: "matching L (ap_rules p) ct info = None"
  obtains p' where "process_packet L now wall info ct p = Some (default_result (default_action ct p), p')"
    and "processor_inv L now wall p'" and "same_policy p p'"
proof -
  let ?key = "from_packet_info info ct" and ?d = "default_action ct p"
  define e where "e = \<lparr>ce_matched_rule = DefaultRule, ce_last_access = now, ce_conn_track_key = None,
      ce_rate_limit_keys = [], ce_acl_result = Some (default_result ?d), ce_rule_stats = [default_rule_stats p]\<rparr>"
  define q where "q = inc_cache_entry_stats e info (increment_stat (if ?d = Drop then DefaultDrops else DefaultAllows) p)"
  have "process_packet L now wall info ct p = Some (default_result ?d, cache_result now ?key e q)"
    using fresh ct none
    by (simp add: process_packet_def Let_def matching_def apply_default_def default_result_def e_def q_def)
  moreover have "processor_inv L now wall (cache_result now ?key e q)"
  proof (rule processor_inv_cache_result [OF _ order_refl])
    show "processor_inv L now wall q" using inv by (simp add: q_def)
    have "ap_rules q = ap_rules p" "\<And>c. default_action c q = default_action c p"
      by (simp_all add: q_def increment_stat_def inc_cache_entry_stats_def)
    then show "entry_right L (ap_rules q) (\<lambda>ct. default_action ct q) ?key e"
      using none by (intro entry_right_intro [OF ports refl]) (simp_all add: e_def verdict_def)
  qed (simp_all add: e_def entry_fresh_def)
  ultimately show thesis using that by (simp add: q_def)
qed

lemma rule_packet_spec:
  assumes inv: "processor_inv L now wall p" and ports: "ports_ok info" and ct: "ct \<noteq> UnspecifiedChain"
    and fresh: "map_of (rule_cache p) (from_packet_info info ct) = None" and some: "matching L (ap_rules p) ct info = Some rule"
  obtains r p' where "process_packet L now wall info ct p = Some (r, p')" and "processor_inv L now wall p'" and "same_policy p p'"
    and "r = rule_result info rule \<or> 0 < rate_limit rule \<and> ar_action r = Drop \<and> ar_log_context r = Some RateLimitDrop"
proof -
  let ?key = "from_packet_info info ct"
  have "limiters_ok (rate_limiters p)" using inv by (simp add: processor_inv_def)
  note limit = check_rate_limit_spec [OF this, where allow_create = True and key = "(ct, fl_priority rule)"
      and now = now and rate = "rate_limit rule" and burst = "burst_limit rule"]
  obtain ok ls where lim: "check_rate_limit now (ct, fl_priority rule) (rate_limit rule) (burst_limit rule) True p = Some (ok, p\<lparr>rate_limiters := ls\<rparr>)"
      "limiters_ok ls" "renewed now (rate_limiters p) ls"
      "rate_limit rule \<noteq> 0 \<longrightarrow> (\<exists>v. ls (ct, fl_priority rule) = Some v \<and> rl_last_update v = now)" "rate_limit rule = 0 \<longrightarrow> ok"
    by (rule limit) simp_all
  have proc: "process_packet L now wall info ct p = apply_rule now wall info ct ?key rule p"
    using fresh ct some by (simp add: process_packet_def Let_def matching_def)
  let ?p1 = "p\<lparr>rate_limiters := ls\<rparr>"
  have inv1: "processor_inv L now wall ?p1" by (rule processor_inv_limiters [OF inv order_refl lim(2,3)])
  show thesis
  proof (cases ok)
    case False
    then show thesis using that [of _ ?p1] proc lim(1,5) inv1 by (auto simp: apply_rule_eq word_gt_0)
  next
    case True
    define e where "e = rule_entry now info ct rule"
    define q0 where "q0 = (if fl_stateful rule \<and> fl_action rule = Allow then check_connection_state wall (conn_track_key info) info ?p1 else ?p1)"
    define q where "q = inc_cache_entry_stats e info (increment_stat RuleMatches q0)"
    have q: "ap_rules q = ap_rules p" "\<And>c. default_action c q = default_action c p" "rate_limiters q = ls"
      by (simp_all add: q_def q0_def increment_stat_def inc_cache_entry_stats_def check_connection_state_def)
    have "process_packet L now wall info ct p = Some (rule_result info rule, cache_result now ?key e q)"
      using proc lim(1) True by (simp add: apply_rule_eq e_def q_def q0_def)
    moreover have "processor_inv L now wall (cache_result now ?key e q)"
    proof (rule processor_inv_cache_result [OF _ order_refl])
      show "processor_inv L now wall q" using inv1 processor_inv_conn [OF inv1 order_refl] by (simp add: q_def q0_def)
      show "entry_right L (ap_rules q) (\<lambda>ct. default_action ct q) ?key e"
        unfolding q using some
        by (intro entry_right_intro [OF ports refl]) (auto simp: e_def rule_entry_def verdict_def limited_def split: if_splits)
      show "entry_fresh (rate_limiters q) e"
        using lim(4) by (auto simp: entry_fresh_def e_def rule_entry_def q word_gt_0)
    qed (simp add: e_def rule_entry_def)
    ultimately show thesis using that by (simp add: q_def q0_def)
  qed
qed

lemma process_packet_spec:
  assumes inv: "processor_inv L t w p" and "t \<le> now" and "w \<le> wall" and ports: "ports_ok info"
  obtains r p' where "process_packet L now wall info ct p = Some (r, p')" and "processor_inv L now wall p'"
    and "same_policy p p'"
    and "ct \<noteq> UnspecifiedChain \<longrightarrow> r = verdict L (ap_rules p) (\<lambda>ct. default_action ct p) ct info \<or>
      limited L (ap_rules p) ct info \<and> ar_action r = Drop \<and> ar_log_context r = Some RateLimitDrop"
proof (cases "map_of (rule_cache p) (from_packet_info info ct)")
  case (Some entry)
  obtain r p' where "process_packet L now wall info ct p = Some (r, p')" "processor_inv L now wall p'" "same_policy p p'"
      "r = verdict L (ap_rules p) (\<lambda>ct. default_action ct p) ct info \<or>
        limited L (ap_rules p) ct info \<and> ar_action r = Drop \<and> ar_log_context r = Some RateLimitDrop"
    by (rule cached_packet_spec [OF assms Some])
  then show thesis by (rule_tac that) blast+
next
  case fresh: None
  have inv1: "processor_inv L now wall p" by (rule processor_inv_mono [OF inv assms(2,3)])
  consider "ct = UnspecifiedChain" | "ct \<noteq> UnspecifiedChain" "matching L (ap_rules p) ct info = None"
    | rule where "ct \<noteq> UnspecifiedChain" "matching L (ap_rules p) ct info = Some rule" by fastforce
  then show thesis
  proof cases
    case 1
    then show thesis using that fresh inv1 by (simp add: process_packet_def Let_def)
  next
    case 2
    obtain p' where "process_packet L now wall info ct p = Some (default_result (default_action ct p), p')"
        "processor_inv L now wall p'" "same_policy p p'"
      by (rule default_packet_spec [OF inv1 ports 2(1) fresh 2(2)])
    then show thesis by (rule that) (simp add: verdict_def 2)
  next
    case (3 rule)
    obtain r p' where "process_packet L now wall info ct p = Some (r, p')" "processor_inv L now wall p'" "same_policy p p'"
        and r: "r = rule_result info rule \<or> 0 < rate_limit rule \<and> ar_action r = Drop \<and> ar_log_context r = Some RateLimitDrop"
      by (rule rule_packet_spec [OF inv1 ports 3(1) fresh 3(2)])
    then show thesis by (rule_tac that) (use r in \<open>auto simp: verdict_def limited_def 3\<close>)
  qed
qed

section \<open>Ticks\<close>

lemma cache_cleanup_tick_inv:
  assumes inv: "processor_inv L t w p" and "t \<le> now"
  shows "processor_inv L now w (cache_cleanup_tick now p)" and "same_policy p (cache_cleanup_tick now p)"
proof -
  let ?c = "cleanup_cache now (cache_max_size p) (rule_cache p)"
  let ?ls = "rate_limiters (cache_cleanup_tick now p)"
  have d: "distinct (map fst (rule_cache p))" using inv by (simp add: processor_inv_def)
  note clean = cleanup_cache_spec [OF d, where now = now and n = "cache_max_size p"]
  have interval: "cache_cleanup_interval p = 20 * NANOS_PER_SECOND" using inv by (simp add: processor_inv_def)
  have fresh: "entry_fresh ?ls e" if e: "(k, e) \<in> set ?c" for k e
  proof -
    have old: "entry_fresh (rate_limiters p) e" "ce_last_access e \<le> now"
      using e clean(1) inv assms(2) by (fastforce simp: processor_inv_def)+
    have "now < ce_last_access e + 15 * NANOS_PER_SECOND" using clean(4) e old(2) by blast
    moreover have "0 < NANOS_PER_SECOND" by (simp add: NANOS_PER_SECOND_def)
    ultimately have recent: "now - u < 20 * NANOS_PER_SECOND" if "ce_last_access e \<le> u" for u using that by linarith
    show ?thesis unfolding entry_fresh_def
    proof
      fix k assume "k \<in> set (ce_rate_limit_keys e)"
      then obtain v where "rate_limiters p k = Some v" "ce_last_access e \<le> rl_last_update v"
        using old(1) unfolding entry_fresh_def by blast
      then show "\<exists>v. ?ls k = Some v \<and> ce_last_access e \<le> rl_last_update v"
        using recent interval by (simp add: cache_cleanup_tick_def)
    qed
  qed
  have "limiters_ok ?ls"
    using inv by (auto simp: limiters_ok_def processor_inv_def cache_cleanup_tick_def split: option.splits if_splits)
  then show "processor_inv L now w (cache_cleanup_tick now p)"
    using inv clean(1-3) fresh assms(2) by (fastforce simp: processor_inv_def cache_cleanup_tick_def)
  show "same_policy p (cache_cleanup_tick now p)" by (simp add: same_policy_def cache_cleanup_tick_def)
qed

lemma conn_cleanup_tick_inv:
  assumes "processor_inv L t w p" and "w \<le> wall"
  obtains p' where "conn_cleanup_tick checked wall p = Some p'" and "processor_inv L t wall p'" and "same_policy p p'"
    and "ap_stats p' = ap_stats p"
proof -
  have seen: "\<forall>e\<in>ran (conn_track p). ct_last_seen e \<le> wall"
    using assms by (auto simp: processor_inv_def intro: order_trans)
  let ?c = "\<lambda>k. case conn_track p k of None \<Rightarrow> None
        | Some e \<Rightarrow> if wall < ct_last_seen e \<or> 60 < wall - ct_last_seen e then None else Some e"
  have "cleanup_expired_connections checked wall 60 (conn_track p) = Some ?c"
    using seen by (auto simp: cleanup_expired_connections_def not_less)
  moreover have "ran ?c \<subseteq> ran (conn_track p)" by (force simp: ran_def split: option.splits if_splits)
  ultimately show thesis
    using that [of "p\<lparr>conn_track := ?c\<rparr>"] assms seen
    by (auto simp: conn_cleanup_tick_def processor_inv_def same_policy_def)
qed

section \<open>The configured policy\<close>

definition implements :: "cidr_lib \<Rightarrow> acl_config \<Rightarrow> acl_processor \<Rightarrow> bool" where
  "implements L cfg p \<longleftrightarrow> ap_rules p = fst (build_rules L cfg) \<and>
     (\<forall>ct. ct \<noteq> UnspecifiedChain \<longrightarrow> default_action ct p = default_action_for ct cfg)"

lemma implements_same_policy: "implements L cfg p \<Longrightarrow> same_policy p p' \<Longrightarrow> implements L cfg p'"
  by (simp add: implements_def same_policy_def)

lemma find_map: "find P (map f xs) = map_option f (find (\<lambda>x. P (f x)) xs)"
  by (induction xs) auto

lemma find_erase: "map_option erase (find (\<lambda>r. fl_enabled r \<and> rule_matches L r info) rs) =
    find (\<lambda>r. fl_enabled r \<and> rule_matches L r info) (map erase rs)"
  by (simp add: find_map)

lemma policy_rules_enabled: "r \<in> set (policy_rules ct cfg) \<Longrightarrow> ru_enabled r"
  by (auto simp: policy_rules_def)

lemma find_cong_set: "(\<And>x. x \<in> set xs \<Longrightarrow> P x = Q x) \<Longrightarrow> find P xs = find Q xs"
  by (induction xs) auto

lemma matching_policy_rule:
  assumes "implements L cfg p" and "ct \<noteq> UnspecifiedChain"
  shows "map_option erase (matching L (ap_rules p) ct info) =
    map_option (convert_to_fast_lookup_rule L 0) (policy_rule L cfg ct info)"
proof -
  have "map_option erase (matching L (ap_rules p) ct info) =
      find (\<lambda>r. fl_enabled r \<and> rule_matches L r info) (map (convert_to_fast_lookup_rule L 0) (policy_rules ct cfg))"
    using assms build_rules_policy [OF assms(2), of L cfg] by (simp add: matching_def find_erase implements_def)
  also have "\<dots> = map_option (convert_to_fast_lookup_rule L 0)
      (find (\<lambda>r. ru_enabled r \<and> rule_applies L info r) (policy_rules ct cfg))"
    by (simp add: find_map rule_applies_def)
  also have "find (\<lambda>r. ru_enabled r \<and> rule_applies L info r) (policy_rules ct cfg) = policy_rule L cfg ct info"
    unfolding policy_rule_def by (rule find_cong_set) (simp add: policy_rules_enabled)
  finally show ?thesis .
qed

definition rate_limited :: "cidr_lib \<Rightarrow> acl_config \<Rightarrow> chain_type \<Rightarrow> packet_info \<Rightarrow> bool" where
  "rate_limited L cfg ct info \<longleftrightarrow> (\<exists>r. policy_rule L cfg ct info = Some r \<and> 0 < ru_rate_limit r)"

lemma verdict_policy:
  assumes "implements L cfg p" and "ct \<noteq> UnspecifiedChain"
  shows "ar_action (verdict L (ap_rules p) (\<lambda>ct. default_action ct p) ct info) = policy_action L cfg ct info"
    and "limited L (ap_rules p) ct info = rate_limited L cfg ct info"
proof -
  note m = matching_policy_rule [OF assms, of info]
  show "limited L (ap_rules p) ct info = rate_limited L cfg ct info"
  proof (cases "matching L (ap_rules p) ct info")
    case None
    then show ?thesis using m by (simp add: limited_def rate_limited_def)
  next
    case (Some rule)
    then obtain r where r: "policy_rule L cfg ct info = Some r" "erase rule = convert_to_fast_lookup_rule L 0 r"
      using m by (cases "policy_rule L cfg ct info") auto
    then have "rate_limit rule = ru_rate_limit r" by (metis erase_fields(4) convert_fields(4))
    then show ?thesis using Some r(1) by (simp add: limited_def rate_limited_def)
  qed
  show "ar_action (verdict L (ap_rules p) (\<lambda>ct. default_action ct p) ct info) = policy_action L cfg ct info"
  proof (cases "matching L (ap_rules p) ct info")
    case None
    then show ?thesis using m assms
      by (simp add: verdict_def policy_action_def default_result_def implements_def)
  next
    case (Some rule)
    then obtain r where r: "policy_rule L cfg ct info = Some r" "erase rule = convert_to_fast_lookup_rule L 0 r"
      using m by (cases "policy_rule L cfg ct info") auto
    then have "fl_action rule = action_of_i32 (ru_action r)" by (metis erase_fields(2) convert_fields(2))
    then show ?thesis using Some r(1) by (simp add: verdict_def policy_action_def rule_result_def)
  qed
qed

lemma new_processor:
  assumes "limiters_ok ls" and "\<forall>e\<in>ran conn. ct_last_seen e \<le> w"
  shows "processor_inv L t w (new_with_shared_state L cfg (Some conn) (Some ls) (Some st))"
    and "implements L cfg (new_with_shared_state L cfg (Some conn) (Some ls) (Some st))"
    and "ap_stats (new_with_shared_state L cfg (Some conn) (Some ls) (Some st)) = st"
proof -
  show "implements L cfg (new_with_shared_state L cfg (Some conn) (Some ls) (Some st))"
    unfolding implements_def
  proof (intro conjI allI impI)
    fix ct assume "ct \<noteq> UnspecifiedChain"
    then show "default_action ct (new_with_shared_state L cfg (Some conn) (Some ls) (Some st)) = default_action_for ct cfg"
      by (cases ct) (simp_all add: new_with_shared_state_def build_default_actions_def case_prod_beta Let_def)
  qed (simp add: new_with_shared_state_def case_prod_beta Let_def)
qed (use assms in \<open>simp_all add: processor_inv_def new_with_shared_state_def case_prod_beta Let_def\<close>)

section \<open>Counting\<close>

lemma check_rate_limit_heap: "check_rate_limit now key rate burst c p = Some (ok, p') \<Longrightarrow> ap_heap p' = ap_heap p"
  by (auto simp: check_rate_limit_def bind_eq_Some_conv split: if_splits)

lemma heap_frames [simp]:
  "ap_heap (cache_result now key e p) = ap_heap p" "ap_heap (increment_stat k p) = ap_heap p"
  "ap_heap (check_connection_state wall ck info p) = ap_heap p"
  by (simp_all add: cache_result_def Let_def increment_stat_def check_connection_state_def)


definition demo_limited_rule :: acl_rule where
  "demo_limited_rule = \<lparr>ru_name = [], ru_description = [], ru_priority = 7, ru_enabled = True, ru_protocol = 5, ru_ports = [],
     ru_source_ips = [], ru_destination_ips = [], ru_source_ports = [], ru_action = 1, ru_rate_limit = 10, ru_burst_limit = 5,
     ru_stateful = False, ru_source_groups = [], ru_destination_groups = []\<rparr>"

definition demo_limited_acl :: acl_config where
  "demo_limited_acl = \<lparr>acl_v1 = Some [\<lparr>ch_name = [], ch_chain_type = 1, ch_enabled = True, ch_rules = [demo_limited_rule], ch_default_action = 2\<rparr>]\<rparr>"

definition demo_info :: packet_info where
  "demo_info = \<lparr>src_ip = V4 1, dst_ip = V4 2, src_port = None, dst_port = None, pi_protocol = Icmp, packet_size = 100,
     src_groups = [], dst_groups = []\<rparr>"


end
