(* ===== verification/Acl_Filter.thy ===== *)
theory Acl_Filter
  imports Acl_Policy Packet
begin

unbundle bit_operations_syntax

text \<open>
  The packet filter, \<open>easytier-core/src/peers/acl/filter.rs\<close>: reading addresses and ports out of an IP packet, the
  choice of the chain, the processor of access control lists, its statistics, the records that let replies in,
  and the reload of the rules.

  The groups of a peer come from the route object that is passed in, a function of the peer id. The filter is
  shown to refine a specification of a stateful firewall that knows only the configuration and the flows it let
  out.
\<close>

section \<open>Reading a packet\<close>

definition IP_PROTO_ICMP :: u8 where "IP_PROTO_ICMP = 1"
definition IP_PROTO_TCP :: u8 where "IP_PROTO_TCP = 6"
definition IP_PROTO_UDP :: u8 where "IP_PROTO_UDP = 17"
definition IP_PROTO_ICMPV6 :: u8 where "IP_PROTO_ICMPV6 = 58"

lemmas ip_proto_defs = IP_PROTO_ICMP_def IP_PROTO_TCP_def IP_PROTO_UDP_def IP_PROTO_ICMPV6_def

record parsed_ip_packet =
  ip_src :: ip_addr
  ip_dst :: ip_addr
  ip_protocol :: u8
  transport_payload :: bytes

definition v6_of_bytes :: "bytes \<Rightarrow> ip_addr" where
  "v6_of_bytes bs = V6 (word_of_nat (nat_of_le (rev bs)))"

definition parse_ipv4_packet :: "bytes \<Rightarrow> parsed_ip_packet option" where
  "parse_ipv4_packet pl =
     (if length pl < 20 then None
      else
        let header_len = unat (pl ! 0 AND 0x0F) * 4;
            options_len = header_len - 20;
            payload_offset = 20 + options_len;
            payload_start = min payload_offset (length pl);
            total_length = unat (u16_of_be [pl ! 2, pl ! 3]);
            payload_len = total_length - header_len;
            payload_end = min (payload_start + payload_len) (length pl)
        in Some \<lparr>ip_src = V4 (u32_of_be (take 4 (drop 12 pl))), ip_dst = V4 (u32_of_be (take 4 (drop 16 pl))),
                 ip_protocol = pl ! 9, transport_payload = take (payload_end - payload_start) (drop payload_start pl)\<rparr>)"

definition parse_ipv6_packet :: "bytes \<Rightarrow> parsed_ip_packet option" where
  "parse_ipv6_packet pl =
     (if length pl < 40 then None
      else
        let payload_len = unat (u16_of_be [pl ! 4, pl ! 5]);
            payload_end = min (40 + payload_len) (length pl)
        in Some \<lparr>ip_src = v6_of_bytes (take 16 (drop 8 pl)), ip_dst = v6_of_bytes (take 16 (drop 24 pl)),
                 ip_protocol = pl ! 6, transport_payload = take (payload_end - 40) (drop 40 pl)\<rparr>)"

definition parse_ip_packet :: "bytes \<Rightarrow> parsed_ip_packet option" where
  "parse_ip_packet pl =
     (case pl of
        [] \<Rightarrow> None
      | b # _ \<Rightarrow>
          let version = drop_bit 4 b
          in if version = 4 then parse_ipv4_packet pl
             else if version = 6 then parse_ipv6_packet pl
             else None)"

definition parse_transport_ports :: "u8 \<Rightarrow> bytes \<Rightarrow> (u16 option \<times> u16 option) option" where
  "parse_transport_ports protocol pl =
     (if protocol = IP_PROTO_TCP \<or> protocol = IP_PROTO_UDP
      then let min_len = (if protocol = IP_PROTO_TCP then 20 else 8)
           in if length pl < min_len then None
              else Some (Some (u16_of_be [pl ! 0, pl ! 1]), Some (u16_of_be [pl ! 2, pl ! 3]))
      else Some (None, None))"

definition acl_protocol :: "u8 \<Rightarrow> protocol" where
  "acl_protocol protocol =
     (if protocol = IP_PROTO_TCP then Tcp else if protocol = IP_PROTO_UDP then Udp
      else if protocol = IP_PROTO_ICMP then Icmp else if protocol = IP_PROTO_ICMPV6 then IcmPv6 else Unspecified)"

definition extract_packet_info :: "zcpacket \<Rightarrow> (u32 \<Rightarrow> string list) \<Rightarrow> packet_info option may_panic" where
  "extract_packet_info packet get_peer_groups = do {
     pl \<leftarrow> payload packet;
     Some (do {
       parsed \<leftarrow> parse_ip_packet pl;
       (sport, dport) \<leftarrow> parse_transport_ports (ip_protocol parsed) (transport_payload parsed);
       Some \<lparr>src_ip = ip_src parsed, dst_ip = ip_dst parsed, src_port = sport, dst_port = dport,
             pi_protocol = acl_protocol (ip_protocol parsed), packet_size = length pl,
             src_groups = (case get_src_peer_id packet of Some i \<Rightarrow> get_peer_groups i | None \<Rightarrow> []),
             dst_groups = (case get_dst_peer_id packet of Some i \<Rightarrow> get_peer_groups i | None \<Rightarrow> [])\<rparr>
     })
   }"

section \<open>The filter\<close>

record outbound_allow_record =
  or_src_ip :: ip_addr
  or_dst_ip :: ip_addr
  or_src_port :: "u16 option"
  or_dst_port :: "u16 option"
  or_protocol :: protocol

definition new_from_inbound_packet :: "packet_info \<Rightarrow> outbound_allow_record" where
  "new_from_inbound_packet p =
     \<lparr>or_src_ip = src_ip p, or_dst_ip = dst_ip p, or_src_port = src_port p, or_dst_port = dst_port p,
      or_protocol = pi_protocol p\<rparr>"

definition new_from_outbound_packet :: "packet_info \<Rightarrow> outbound_allow_record" where
  "new_from_outbound_packet p =
     \<lparr>or_src_ip = dst_ip p, or_dst_ip = src_ip p, or_src_port = dst_port p, or_dst_port = src_port p,
      or_protocol = pi_protocol p\<rparr>"

record acl_filter =
  af_processor :: acl_processor
  acl_enabled :: bool
  outbound_allow_records :: "outbound_allow_record \<Rightarrow> nat option"

definition filter_new :: "cidr_lib \<Rightarrow> acl_filter" where
  "filter_new L = \<lparr>af_processor = processor_new L acl_default, acl_enabled = False, outbound_allow_records = Map.empty\<rparr>"

text \<open>One round of the task that \<open>new\<close> starts.\<close>

definition clean_records :: "nat \<Rightarrow> acl_filter \<Rightarrow> acl_filter" where
  "clean_records now f = f\<lparr>outbound_allow_records := (\<lambda>k. case outbound_allow_records f k of
       None \<Rightarrow> None
     | Some t \<Rightarrow> if now - t < 30 * NANOS_PER_SECOND then Some t else None)\<rparr>"

definition reload_rules :: "cidr_lib \<Rightarrow> acl_config option \<Rightarrow> acl_filter \<Rightarrow> acl_filter" where
  "reload_rules L acl_config f =
     (let f1 = f\<lparr>outbound_allow_records := Map.empty\<rparr>
      in case acl_config of
           None \<Rightarrow> f1\<lparr>acl_enabled := False\<rparr>
         | Some cfg \<Rightarrow>
             let (conn, limiters, st) = get_shared_state (af_processor f1)
             in f1\<lparr>af_processor := new_with_shared_state L cfg (Some conn) (Some limiters) (Some st), acl_enabled := True\<rparr>)"

definition handle_acl_result :: "acl_result \<Rightarrow> chain_type \<Rightarrow> acl_processor \<Rightarrow> acl_processor" where
  "handle_acl_result result ct p =
     (let p1 = (case ar_action result of
                  Allow \<Rightarrow> increment_stat (from_chain_and_action ct Allowed) (increment_stat PacketsAllowed p)
                | Drop \<Rightarrow> increment_stat (from_chain_and_action ct Dropped) (increment_stat PacketsDropped p)
                | Noop \<Rightarrow> increment_stat (from_chain_and_action ct NoopStat) (increment_stat PacketsNoop p))
      in increment_stat PacketsTotal (increment_stat (from_chain_and_action ct Total) p1))"

definition classify_chain_type ::
  "bool \<Rightarrow> packet_info \<Rightarrow> u32 option \<Rightarrow> (128 word \<Rightarrow> bool) \<Rightarrow> chain_type" where
  "classify_chain_type is_in info my_ipv4 is_local_ipv6 =
     (if \<not> is_in then Outbound
      else
        let is_local_dst = (dst_ip info = V4 (case my_ipv4 of Some a \<Rightarrow> a | None \<Rightarrow> 0) \<or>
              (case dst_ip info of V6 dst \<Rightarrow> is_local_ipv6 dst | V4 _ \<Rightarrow> False))
        in if is_local_dst then Inbound else Forward)"

definition process_packet_with_acl ::
  "cidr_lib \<Rightarrow> nat \<Rightarrow> nat \<Rightarrow> zcpacket \<Rightarrow> bool \<Rightarrow> u32 option \<Rightarrow> (128 word \<Rightarrow> bool) \<Rightarrow> (u32 \<Rightarrow> string list) \<Rightarrow> acl_filter \<Rightarrow>
   (bool \<times> acl_filter) may_panic" where
  "process_packet_with_acl L now wall packet is_in my_ipv4 is_local_ipv6 get_peer_groups f =
     (if \<not> acl_enabled f then Some (True, f)
      else do {
        h \<leftarrow> peer_manager_header packet;
        if hdr_packet_type h \<noteq> packet_type_code Data then Some (True, f)
        else do {
          extracted \<leftarrow> extract_packet_info packet get_peer_groups;
          case extracted of
            None \<Rightarrow> Some (True, f)
          | Some info \<Rightarrow> do {
              let ct = classify_chain_type is_in info my_ipv4 is_local_ipv6;
              (result, p1) \<leftarrow> process_packet L now wall info ct (af_processor f);
              let f1 = f\<lparr>af_processor := handle_acl_result result ct p1\<rparr>;
              if ar_action result = Drop
              then
                let record = new_from_inbound_packet info
                in if is_in \<and> outbound_allow_records f1 record \<noteq> None
                   then Some (True, f1\<lparr>outbound_allow_records := (outbound_allow_records f1)(record \<mapsto> now)\<rparr>)
                   else Some (False, f1)
              else Some (True,
                if ct = Outbound
                then f1\<lparr>outbound_allow_records := (outbound_allow_records f1)(new_from_outbound_packet info \<mapsto> now)\<rparr>
                else f1)
            }
        }
      })"

section \<open>Specification\<close>

text \<open>A stateful firewall: the configuration, if there is one, and the time each flow of expected replies was
  last used. A step says which answers are allowed.\<close>

record firewall =
  fw_config :: "acl_config option"
  fw_replies :: "outbound_allow_record \<Rightarrow> nat option"

definition REPLY_WINDOW :: nat where "REPLY_WINDOW = 30 * NANOS_PER_SECOND"

inductive fw_decides ::
  "cidr_lib \<Rightarrow> nat \<Rightarrow> packet_info \<Rightarrow> chain_type \<Rightarrow> bool \<Rightarrow> firewall \<Rightarrow> bool \<Rightarrow> firewall \<Rightarrow> bool"
  for L now info ct is_in where
  fw_off: "fw_config w = None \<Longrightarrow> fw_decides L now info ct is_in w True w"
| fw_pass: "fw_config w = Some cfg \<Longrightarrow> policy_action L cfg ct info \<noteq> Drop \<Longrightarrow>
    fw_decides L now info ct is_in w True
      (if ct = Outbound then w\<lparr>fw_replies := (fw_replies w)(new_from_outbound_packet info \<mapsto> now)\<rparr> else w)"
| fw_reply: "fw_config w = Some cfg \<Longrightarrow> policy_action L cfg ct info = Drop \<or> rate_limited L cfg ct info \<Longrightarrow> is_in \<Longrightarrow>
    fw_replies w (new_from_inbound_packet info) = Some t \<Longrightarrow>
    fw_decides L now info ct is_in w True (w\<lparr>fw_replies := (fw_replies w)(new_from_inbound_packet info \<mapsto> now)\<rparr>)"
| fw_block: "fw_config w = Some cfg \<Longrightarrow> policy_action L cfg ct info = Drop \<or> rate_limited L cfg ct info \<Longrightarrow>
    (\<And>t. is_in \<Longrightarrow> fw_replies w (new_from_inbound_packet info) = Some t \<Longrightarrow> t + REPLY_WINDOW \<le> now) \<Longrightarrow>
    fw_decides L now info ct is_in w False w"

datatype filter_op =
    FilterPacket nat nat zcpacket bool "u32 option" "128 word \<Rightarrow> bool" "u32 \<Rightarrow> string list"
  | Reload "acl_config option"
  | CleanRecords nat
  | CacheTick nat
  | ConnTick nat

text \<open>The answer of an operation: the decision for a packet, nothing for the others.\<close>

primrec filter_exec :: "cidr_lib \<Rightarrow> bool \<Rightarrow> filter_op \<Rightarrow> acl_filter \<Rightarrow> (bool option \<times> acl_filter) may_panic" where
  "filter_exec L checked (FilterPacket now wall packet is_in my_ipv4 is_local groups) f =
     map_option (map_prod Some id) (process_packet_with_acl L now wall packet is_in my_ipv4 is_local groups f)"
| "filter_exec L checked (Reload cfg) f = Some (None, reload_rules L cfg f)"
| "filter_exec L checked (CleanRecords now) f = Some (None, clean_records now f)"
| "filter_exec L checked (CacheTick now) f = Some (None, f\<lparr>af_processor := cache_cleanup_tick now (af_processor f)\<rparr>)"
| "filter_exec L checked (ConnTick wall) f = do {
     p \<leftarrow> conn_cleanup_tick checked wall (af_processor f);
     Some (None, f\<lparr>af_processor := p\<rparr>)
   }"

text \<open>Packets that carry no data, or that cannot be read, pass.\<close>

definition relevant_info :: "zcpacket \<Rightarrow> (u32 \<Rightarrow> string list) \<Rightarrow> packet_info option" where
  "relevant_info packet groups = do {
     h \<leftarrow> peer_manager_header packet;
     if hdr_packet_type h \<noteq> packet_type_code Data then None
     else Option.bind (extract_packet_info packet groups) id
   }"

primrec fw_step :: "cidr_lib \<Rightarrow> filter_op \<Rightarrow> firewall \<Rightarrow> bool option \<Rightarrow> firewall \<Rightarrow> bool" where
  "fw_step L (FilterPacket now wall packet is_in my_ipv4 is_local groups) w d w' =
     (case relevant_info packet groups of
        None \<Rightarrow> d = Some True \<and> w' = w
      | Some info \<Rightarrow> \<exists>b. d = Some b \<and> fw_decides L now info (classify_chain_type is_in info my_ipv4 is_local) is_in w b w')"
| "fw_step L (Reload cfg) w d w' \<longleftrightarrow> d = None \<and> w' = \<lparr>fw_config = cfg, fw_replies = Map.empty\<rparr>"
| "fw_step L (CleanRecords now) w d w' \<longleftrightarrow> d = None \<and> w' = w"
| "fw_step L (CacheTick now) w d w' \<longleftrightarrow> d = None \<and> w' = w"
| "fw_step L (ConnTick wall) w d w' \<longleftrightarrow> d = None \<and> w' = w"

primrec filter_run :: "cidr_lib \<Rightarrow> bool \<Rightarrow> filter_op list \<Rightarrow> acl_filter \<Rightarrow> (bool option list \<times> acl_filter) may_panic" where
  "filter_run L checked [] f = Some ([], f)"
| "filter_run L checked (x # xs) f = do {
     (d, f1) \<leftarrow> filter_exec L checked x f;
     (ds, f2) \<leftarrow> filter_run L checked xs f1;
     Some (d # ds, f2)
   }"

inductive fw_run :: "cidr_lib \<Rightarrow> filter_op list \<Rightarrow> firewall \<Rightarrow> bool option list \<Rightarrow> firewall \<Rightarrow> bool" for L where
  fw_done: "fw_run L [] w [] w"
| fw_more: "fw_step L x w d w1 \<Longrightarrow> fw_run L xs w1 ds w2 \<Longrightarrow> fw_run L (x # xs) w (d # ds) w2"

inductive_cases fw_decides_elims: "fw_decides L now info ct is_in w b w'"
inductive_cases fw_run_ConsE: "fw_run L (x # xs) w ds w2"
inductive_simps fw_run_Nil: "fw_run L [] w ds w'"

text \<open>Clocks: the monotonic one must not go back, nor the wall clock.\<close>

primrec op_now :: "filter_op \<Rightarrow> nat option" where
  "op_now (FilterPacket now wall packet is_in my_ipv4 is_local groups) = Some now"
| "op_now (Reload cfg) = None"
| "op_now (CleanRecords now) = Some now"
| "op_now (CacheTick now) = Some now"
| "op_now (ConnTick wall) = None"

primrec op_wall :: "filter_op \<Rightarrow> nat option" where
  "op_wall (FilterPacket now wall packet is_in my_ipv4 is_local groups) = Some wall"
| "op_wall (Reload cfg) = None"
| "op_wall (CleanRecords now) = None"
| "op_wall (CacheTick now) = None"
| "op_wall (ConnTick wall) = Some wall"

primrec op_readable :: "filter_op \<Rightarrow> bool" where
  "op_readable (FilterPacket now wall packet is_in my_ipv4 is_local groups) = (peer_manager_header packet \<noteq> None)"
| "op_readable (Reload cfg) = True"
| "op_readable (CleanRecords now) = True"
| "op_readable (CacheTick now) = True"
| "op_readable (ConnTick wall) = True"

definition after :: "nat \<Rightarrow> nat option \<Rightarrow> nat" where
  "after t x = (case x of None \<Rightarrow> t | Some u \<Rightarrow> u)"

fun clocks_ok :: "nat \<Rightarrow> nat \<Rightarrow> filter_op list \<Rightarrow> bool" where
  "clocks_ok t w [] \<longleftrightarrow> True"
| "clocks_ok t w (x # xs) \<longleftrightarrow> t \<le> after t (op_now x) \<and> w \<le> after w (op_wall x) \<and> clocks_ok (after t (op_now x)) (after w (op_wall x)) xs"

section \<open>Refinement\<close>

lemma extract_ports_ok: "extract_packet_info packet groups = Some (Some info) \<Longrightarrow> ports_ok info"
  by (auto simp: extract_packet_info_def bind_eq_Some_conv parse_transport_ports_def acl_protocol_def ports_ok_def
      ip_proto_defs Let_def split: if_splits)

lemma extract_defined: "peer_manager_header packet \<noteq> None \<Longrightarrow> \<exists>x. extract_packet_info packet groups = Some x"
  using header_iff_payload [of packet] by (auto simp: extract_packet_info_def)

lemma handle_acl_result_inv [simp]:
  "processor_inv L t w (handle_acl_result r ct p) = processor_inv L t w p"
  "same_policy q (handle_acl_result r ct p) = same_policy q p"
  by (cases "ar_action r"; simp add: handle_acl_result_def)+

text \<open>The filter may have forgotten a flow whose window is over.\<close>

definition replies_rel :: "nat \<Rightarrow> ('k \<Rightarrow> nat option) \<Rightarrow> ('k \<Rightarrow> nat option) \<Rightarrow> bool" where
  "replies_rel t recs reps \<longleftrightarrow>
     recs \<subseteq>\<^sub>m reps \<and> (\<forall>k v. reps k = Some v \<longrightarrow> recs k = None \<longrightarrow> v + REPLY_WINDOW \<le> t)"

lemma replies_relD:
  assumes "replies_rel t recs reps"
  shows "recs k = Some v \<Longrightarrow> reps k = Some v" and "reps k = Some v \<Longrightarrow> recs k = None \<Longrightarrow> v + REPLY_WINDOW \<le> t"
  using assms by (simp_all add: replies_rel_def map_le_def dom_def)

lemma replies_rel_simps [simp]:
  "replies_rel t Map.empty Map.empty"
  "replies_rel t recs reps \<Longrightarrow> replies_rel t (recs(k \<mapsto> t)) (reps(k \<mapsto> t))"
  by (simp_all add: replies_rel_def map_le_upd)

lemma replies_rel_mono: "replies_rel t recs reps \<Longrightarrow> t \<le> t' \<Longrightarrow> replies_rel t' recs reps"
  unfolding replies_rel_def by (meson order_trans)

lemma replies_rel_clean:
  assumes "replies_rel t recs reps" and "t \<le> now"
  shows "replies_rel now (\<lambda>k. case recs k of None \<Rightarrow> None
     | Some v \<Rightarrow> if now - v < 30 * NANOS_PER_SECOND then Some v else None) reps"
proof -
  let ?recs = "\<lambda>k. case recs k of None \<Rightarrow> None | Some v \<Rightarrow> if now - v < 30 * NANOS_PER_SECOND then Some v else None"
  have "?recs \<subseteq>\<^sub>m recs" by (auto simp: map_le_def split: option.splits if_splits)
  then have "?recs \<subseteq>\<^sub>m reps" using assms(1) map_le_trans unfolding replies_rel_def by blast
  moreover have "v + REPLY_WINDOW \<le> now" if "reps k = Some v" "?recs k = None" for k v
  proof (cases "recs k")
    case None
    then show ?thesis using replies_relD(2) [OF assms(1) that(1)] assms(2) by simp
  next
    case (Some u)
    then have "u = v" using replies_relD(1) [OF assms(1) Some] that(1) by simp
    then show ?thesis using that(2) Some by (simp add: REPLY_WINDOW_def NANOS_PER_SECOND_def split: if_splits)
  qed
  ultimately show ?thesis unfolding replies_rel_def by blast
qed

definition filter_rel :: "cidr_lib \<Rightarrow> nat \<Rightarrow> nat \<Rightarrow> acl_filter \<Rightarrow> firewall \<Rightarrow> bool" where
  "filter_rel L t w f fw \<longleftrightarrow> processor_inv L t w (af_processor f) \<and> (acl_enabled f \<longleftrightarrow> fw_config fw \<noteq> None) \<and>
     (\<forall>cfg. fw_config fw = Some cfg \<longrightarrow> implements L cfg (af_processor f)) \<and>
     replies_rel t (outbound_allow_records f) (fw_replies fw)"

lemma filter_rel_mono: "filter_rel L t w f fw \<Longrightarrow> t \<le> t' \<Longrightarrow> w \<le> w' \<Longrightarrow> filter_rel L t' w' f fw"
  using processor_inv_mono [of L t w "af_processor f" t' w']
    replies_rel_mono [of t "outbound_allow_records f" "fw_replies fw" t'] by (simp add: filter_rel_def)

lemma filter_rel_processor:
  assumes "filter_rel L t w f fw" and "processor_inv L t w p" and "same_policy (af_processor f) p"
  shows "filter_rel L t w (f\<lparr>af_processor := p\<rparr>) fw"
  using assms implements_same_policy [OF _ assms(3)] by (simp add: filter_rel_def)

lemma filter_rel_record:
  "filter_rel L t w f fw \<Longrightarrow> filter_rel L t w (f\<lparr>outbound_allow_records := (outbound_allow_records f)(k \<mapsto> t)\<rparr>)
     (fw\<lparr>fw_replies := (fw_replies fw)(k \<mapsto> t)\<rparr>)"
  by (simp add: filter_rel_def)

lemma filter_new_rel: "filter_rel L t w (filter_new L) \<lparr>fw_config = None, fw_replies = Map.empty\<rparr>"
proof -
  have "processor_new L acl_default = new_with_shared_state L acl_default (Some Map.empty) (Some Map.empty) (Some Map.empty)"
    by (simp add: processor_new_def new_with_shared_state_def)
  then show ?thesis
    using new_processor(1) [of Map.empty Map.empty w L t acl_default Map.empty]
    by (simp add: filter_rel_def filter_new_def limiters_ok_def)
qed

lemma reload_rel:
  assumes "filter_rel L t w f fw"
  shows "filter_rel L t w (reload_rules L cfg f) \<lparr>fw_config = cfg, fw_replies = Map.empty\<rparr>"
proof (cases cfg)
  case (Some c)
  have "limiters_ok (rate_limiters (af_processor f))" "\<forall>e\<in>ran (conn_track (af_processor f)). ct_last_seen e \<le> w"
    using assms by (simp_all add: filter_rel_def processor_inv_def)
  then show ?thesis using Some new_processor [of "rate_limiters (af_processor f)" "conn_track (af_processor f)" w L]
    by (simp add: filter_rel_def reload_rules_def get_shared_state_def Let_def)
qed (use assms in \<open>simp add: filter_rel_def reload_rules_def Let_def\<close>)

lemma clean_records_rel: "filter_rel L t w f fw \<Longrightarrow> t \<le> now \<Longrightarrow> filter_rel L now w (clean_records now f) fw"
  using processor_inv_mono [of L t w "af_processor f" now w]
    replies_rel_clean [of t "outbound_allow_records f" "fw_replies fw" now]
  by (simp add: filter_rel_def clean_records_def)

text \<open>One data packet.\<close>

lemma packet_rel:
  assumes rel: "filter_rel L t w f fw" and "t \<le> now" and "w \<le> wall" and "acl_enabled f"
    and h: "peer_manager_header packet = Some h" "hdr_packet_type h = packet_type_code Data"
    and info: "extract_packet_info packet groups = Some (Some info)"
  obtains b f' fw' where "process_packet_with_acl L now wall packet is_in my_ipv4 is_local groups f = Some (b, f')"
    and "fw_decides L now info (classify_chain_type is_in info my_ipv4 is_local) is_in fw b fw'"
    and "filter_rel L now wall f' fw'"
proof -
  let ?ct = "classify_chain_type is_in info my_ipv4 is_local" and ?p = "af_processor f"
  have ct: "?ct \<noteq> UnspecifiedChain" by (simp add: classify_chain_type_def Let_def)
  obtain cfg where cfg: "fw_config fw = Some cfg" "implements L cfg ?p" using rel assms(4) unfolding filter_rel_def by blast
  have inv: "processor_inv L t w ?p" using rel by (simp add: filter_rel_def)
  obtain r p' where p': "process_packet L now wall info ?ct ?p = Some (r, p')" "processor_inv L now wall p'" "same_policy ?p p'"
    and r: "?ct \<noteq> UnspecifiedChain \<longrightarrow> r = verdict L (ap_rules ?p) (\<lambda>ct. default_action ct ?p) ?ct info \<or>
      limited L (ap_rules ?p) ?ct info \<and> ar_action r = Drop \<and> ar_log_context r = Some RateLimitDrop"
    by (rule process_packet_spec [OF inv assms(2,3) extract_ports_ok [OF info]])
  have act: "ar_action r \<noteq> Drop \<longrightarrow> policy_action L cfg ?ct info \<noteq> Drop"
    "ar_action r = Drop \<longrightarrow> policy_action L cfg ?ct info = Drop \<or> rate_limited L cfg ?ct info"
    using r ct verdict_policy [OF cfg(2) ct, of info] by auto
  let ?f1 = "f\<lparr>af_processor := handle_acl_result r ?ct p'\<rparr>"
  have rel1: "filter_rel L now wall ?f1 fw"
    using filter_rel_processor [OF filter_rel_mono [OF rel assms(2,3)]] p'(2,3) by simp
  note step = process_packet_with_acl_def [of L now wall packet is_in my_ipv4 is_local groups f]
  show thesis
  proof (cases "ar_action r = Drop")
    case False
    let ?k = "new_from_outbound_packet info"
    show thesis
    proof (rule that)
      show "process_packet_with_acl L now wall packet is_in my_ipv4 is_local groups f =
          Some (True, if ?ct = Outbound then ?f1\<lparr>outbound_allow_records := (outbound_allow_records ?f1)(?k \<mapsto> now)\<rparr> else ?f1)"
        using step h info p'(1) False assms(4) by (simp add: Let_def)
      show "fw_decides L now info ?ct is_in fw True (if ?ct = Outbound then fw\<lparr>fw_replies := (fw_replies fw)(?k \<mapsto> now)\<rparr> else fw)"
        using act(1) False by (intro fw_pass [OF cfg(1)]) simp
      show "filter_rel L now wall (if ?ct = Outbound then ?f1\<lparr>outbound_allow_records := (outbound_allow_records ?f1)(?k \<mapsto> now)\<rparr> else ?f1)
          (if ?ct = Outbound then fw\<lparr>fw_replies := (fw_replies fw)(?k \<mapsto> now)\<rparr> else fw)"
        using filter_rel_record [OF rel1, of ?k] rel1 by (simp only: split: if_split) simp
    qed
  next
    case True
    let ?k = "new_from_inbound_packet info"
    show thesis
    proof (cases "is_in \<and> outbound_allow_records f ?k \<noteq> None")
      case reply: True
      then obtain u where "fw_replies fw ?k = Some u"
        using rel replies_relD(1) [of t "outbound_allow_records f" "fw_replies fw" ?k] unfolding filter_rel_def by blast
      then have "fw_decides L now info ?ct is_in fw True (fw\<lparr>fw_replies := (fw_replies fw)(?k \<mapsto> now)\<rparr>)"
        using act(2) True reply by (intro fw_reply [OF cfg(1)]) simp_all
      moreover have "process_packet_with_acl L now wall packet is_in my_ipv4 is_local groups f =
          Some (True, ?f1\<lparr>outbound_allow_records := (outbound_allow_records ?f1)(?k \<mapsto> now)\<rparr>)"
        using step h info p'(1) True reply assms(4) by (simp add: Let_def)
      ultimately show thesis using that filter_rel_record [OF rel1, of ?k] by blast
    next
      case block: False
      have "u + REPLY_WINDOW \<le> now" if "is_in" "fw_replies fw ?k = Some u" for u
        using block that rel1 by (intro replies_relD(2) [of now "outbound_allow_records f" "fw_replies fw" ?k]) (simp_all add: filter_rel_def)
      then have "fw_decides L now info ?ct is_in fw False fw"
        using act(2) True by (intro fw_block [OF cfg(1)]) simp_all
      moreover have "process_packet_with_acl L now wall packet is_in my_ipv4 is_local groups f = Some (False, ?f1)"
        using step h info p'(1) True block assms(4) by (auto simp: Let_def)
      ultimately show thesis using that rel1 by blast
    qed
  qed
qed

lemma filter_exec_rel:
  assumes "filter_rel L t w f fw" and "t \<le> after t (op_now x)" and "w \<le> after w (op_wall x)" and "op_readable x"
  shows "\<exists>d f' fw'. filter_exec L checked x f = Some (d, f') \<and> fw_step L x fw d fw' \<and>
    filter_rel L (after t (op_now x)) (after w (op_wall x)) f' fw'"
proof (cases x)
  case (FilterPacket now wall packet is_in my_ipv4 is_local groups)
  then have time: "t \<le> now" "w \<le> wall" and now: "after t (op_now x) = now" "after w (op_wall x) = wall"
    using assms(2,3) by (simp_all add: after_def)
  obtain h where h: "peer_manager_header packet = Some h" using assms(4) FilterPacket by auto
  obtain e where e: "extract_packet_info packet groups = Some e" using extract_defined [of packet groups] h by auto
  have idle: ?thesis if "process_packet_with_acl L now wall packet is_in my_ipv4 is_local groups f = Some (True, f)"
      "fw_step L x fw (Some True) fw"
    using that FilterPacket filter_rel_mono [OF assms(1) time] unfolding now by auto
  consider "relevant_info packet groups = None" | info where "relevant_info packet groups = Some info" "\<not> acl_enabled f"
    | info where "relevant_info packet groups = Some info" "acl_enabled f" by blast
  then show ?thesis
  proof cases
    case 1
    then have "process_packet_with_acl L now wall packet is_in my_ipv4 is_local groups f = Some (True, f)"
      using h e by (auto simp: relevant_info_def process_packet_with_acl_def split: if_splits)
    then show ?thesis using 1 FilterPacket by (intro idle) simp_all
  next
    case 2
    then have "fw_config fw = None" using assms(1) by (simp add: filter_rel_def)
    then show ?thesis using 2 FilterPacket fw_off by (intro idle) (auto simp: process_packet_with_acl_def)
  next
    case 3
    then have "hdr_packet_type h = packet_type_code Data" "extract_packet_info packet groups = Some (Some info)"
      using h e by (auto simp: relevant_info_def split: if_splits)
    then obtain b f' fw' where "process_packet_with_acl L now wall packet is_in my_ipv4 is_local groups f = Some (b, f')"
        "fw_decides L now info (classify_chain_type is_in info my_ipv4 is_local) is_in fw b fw'" "filter_rel L now wall f' fw'"
      by (rule packet_rel [OF assms(1) time 3(2) h])
    then show ?thesis using FilterPacket 3(1) unfolding now by auto
  qed
next
  case (Reload cfg)
  then show ?thesis using reload_rel [OF assms(1)] by (simp add: after_def)
next
  case (CleanRecords now)
  then show ?thesis using clean_records_rel [OF assms(1)] assms(2) by (simp add: after_def)
next
  case (CacheTick now)
  have inv: "processor_inv L t w (af_processor f)" and le: "t \<le> now" using assms(1,2) CacheTick by (simp_all add: filter_rel_def after_def)
  show ?thesis
    using cache_cleanup_tick_inv [OF inv le] filter_rel_processor [OF filter_rel_mono [OF assms(1) le order_refl]] CacheTick
    by (simp add: after_def)
next
  case (ConnTick wall)
  have inv: "processor_inv L t w (af_processor f)" and le: "w \<le> wall" using assms(1,3) ConnTick by (simp_all add: filter_rel_def after_def)
  obtain p' where "conn_cleanup_tick checked wall (af_processor f) = Some p'" "processor_inv L t wall p'" "same_policy (af_processor f) p'"
    by (rule conn_cleanup_tick_inv [OF inv le])
  then show ?thesis using filter_rel_processor [OF filter_rel_mono [OF assms(1) order_refl le]] ConnTick by (simp add: after_def)
qed

lemma filter_run_rel:
  assumes "filter_rel L t w f fw" and "clocks_ok t w ops" and "list_all op_readable ops"
  shows "\<exists>ds f' fw'. filter_run L checked ops f = Some (ds, f') \<and> fw_run L ops fw ds fw'"
  using assms
proof (induction ops arbitrary: t w f fw)
  case Nil
  then show ?case using fw_done by auto
next
  case (Cons x xs)
  obtain d f1 fw1 where x: "filter_exec L checked x f = Some (d, f1)" "fw_step L x fw d fw1"
      "filter_rel L (after t (op_now x)) (after w (op_wall x)) f1 fw1"
    using filter_exec_rel [OF Cons.prems(1), of x checked] Cons.prems by auto
  obtain ds f2 fw2 where "filter_run L checked xs f1 = Some (ds, f2)" "fw_run L xs fw1 ds fw2"
    using Cons.IH [OF x(3)] Cons.prems by auto
  then show ?case using x fw_more by (intro exI [of _ "d # ds"] exI [of _ f2] exI [of _ fw2]) simp
qed

text \<open>C32. The packet filter is the configured firewall. Over any history of packets, reloads, clean-ups of the
  reply records, of the result cache with its rate limiters and of the tracked connections, in any order and with
  clocks that do not go back, no step panics and every decision is one that the specification allows: without a
  configuration, and for packets that carry no readable data, everything passes; otherwise the first rule
  by chain and priority that matches decides, or the default action of the chain; a packet may be refused against
  that only by the rate limit of its rule, and let in against it only as the reply to a flow that was let out after
  the last reload, which it must be within thirty seconds. Caching of results never shows.\<close>

theorem filter_refines_firewall:
  assumes "clocks_ok 0 0 ops" and "list_all op_readable ops"
  shows "\<exists>ds f fw. filter_run L checked ops (filter_new L) = Some (ds, f) \<and>
    fw_run L ops \<lparr>fw_config = None, fw_replies = Map.empty\<rparr> ds fw"
  using filter_run_rel [OF filter_new_rel assms] .

text \<open>A history for evaluating the model: inbound traffic is dropped by default, a UDP packet leaves, its answer
  comes in.\<close>

definition demo_acl :: acl_config where
  "demo_acl = \<lparr>acl_v1 = Some [\<lparr>ch_name = ''in'', ch_chain_type = 1, ch_enabled = True, ch_rules = [], ch_default_action = 2\<rparr>]\<rparr>"

definition demo_datagram :: "u8 \<Rightarrow> u8 \<Rightarrow> u8 \<Rightarrow> u8 \<Rightarrow> zcpacket" where
  "demo_datagram a b p q = \<lparr>inner = replicate 20 0 @ [0, 0, 0, 0, 0, 0, 0, 0, 1, 0, 0, 0, 0, 0, 0, 0] @
     [0x45, 0, 0, 28, 0, 0, 0, 0, 64, 17, 0, 0, 10, 0, 0, a, 10, 0, 0, b, 0, p, 0, q, 0, 8, 0, 0], zc_type = NIC\<rparr>"

definition demo_history :: "filter_op list" where
  "demo_history =
     [Reload (Some demo_acl), FilterPacket 1000 1 (demo_datagram 1 2 9 53) False (Some 0x0A000001) (\<lambda>_. False) (\<lambda>_. []),
      CacheTick 2000, CleanRecords 3000,
      FilterPacket 4000 2 (demo_datagram 2 1 53 9) True (Some 0x0A000001) (\<lambda>_. False) (\<lambda>_. []), ConnTick 100]"

lemma demo_history_ok: "clocks_ok 0 0 demo_history" "list_all op_readable demo_history"
  by (simp_all add: demo_history_def after_def demo_datagram_def peer_manager_header_def bytes_from_offset_def
      pm_header_offset_def slice_from_def ref_from_prefix_def wire_simps)

theorem filter_refines_firewall_witness:
  "\<exists>ds f fw. filter_run prefix_lib True demo_history (filter_new prefix_lib) = Some (ds, f) \<and>
    fw_run prefix_lib demo_history \<lparr>fw_config = None, fw_replies = Map.empty\<rparr> ds fw"
  using filter_refines_firewall [OF demo_history_ok] .

section \<open>Statistics\<close>

definition stat :: "acl_processor \<Rightarrow> acl_stat_key \<Rightarrow> u64" where
  "stat p k = (case ap_stats p k of Some n \<Rightarrow> n | None \<Rightarrow> 0)"

text \<open>The outcomes add up, the chains add up, and so do the outcomes of each chain, as 64-bit words.\<close>

definition outcomes_add_up :: "acl_processor \<Rightarrow> bool" where
  "outcomes_add_up p \<longleftrightarrow> stat p PacketsTotal = stat p PacketsAllowed + stat p PacketsDropped + stat p PacketsNoop"

definition chains_add_up :: "acl_processor \<Rightarrow> bool" where
  "chains_add_up p \<longleftrightarrow>
     stat p PacketsTotal = stat p InboundPacketsTotal + stat p OutboundPacketsTotal + stat p ForwardPacketsTotal"

definition chain_adds_up :: "chain_type \<Rightarrow> acl_processor \<Rightarrow> bool" where
  "chain_adds_up ct p \<longleftrightarrow> stat p (from_chain_and_action ct Total) =
     stat p (from_chain_and_action ct Allowed) + stat p (from_chain_and_action ct Dropped) + stat p (from_chain_and_action ct NoopStat)"

definition stats_balanced :: "acl_processor \<Rightarrow> bool" where
  "stats_balanced p \<longleftrightarrow> outcomes_add_up p \<and> chains_add_up p \<and>
     chain_adds_up Inbound p \<and> chain_adds_up Outbound p \<and> chain_adds_up Forward p"

lemma stat_increment [simp]: "stat (increment_stat k p) j = (if j = k then stat p j + 1 else stat p j)"
  by (simp add: stat_def increment_stat_def split: option.split)

lemma stat_cong: "ap_stats p' = ap_stats p \<Longrightarrow> stat p' = stat p"
  by (simp add: stat_def fun_eq_iff)

lemma stat_frames [simp]:
  "stat (inc_cache_entry_stats e info p) = stat p" "stat (check_connection_state wall k info p) = stat p"
  "stat (p\<lparr>rule_cache := c\<rparr>) = stat p" "stat (p\<lparr>rate_limiters := l\<rparr>) = stat p" "stat (cache_result now key e p) = stat p"
  by (rule stat_cong; simp add: inc_cache_entry_stats_def check_connection_state_def cache_result_def Let_def)+

definition packet_keys_same :: "acl_processor \<Rightarrow> acl_processor \<Rightarrow> bool" where
  "packet_keys_same p p' \<longleftrightarrow> (\<forall>k. k \<notin> {CacheHits, RuleMatches, DefaultAllows, DefaultDrops} \<longrightarrow> stat p' k = stat p k)"

lemma packet_keys_same_refl [simp]: "packet_keys_same p p"
  by (simp add: packet_keys_same_def)

lemma check_rate_limit_stat: "check_rate_limit now key rate burst c p = Some (ok, p') \<Longrightarrow> stat p' = stat p"
  by (auto simp: check_rate_limit_def bind_eq_Some_conv split: if_splits)

lemma check_cached_limits_stat: "check_cached_limits now ks p = Some (ok, p') \<Longrightarrow> stat p' = stat p"
proof (induction ks arbitrary: p)
  case (Cons k ks)
  then obtain ok1 p1 where "check_rate_limit now k 1 1 False p = Some (ok1, p1)" by (auto simp: bind_eq_Some_conv)
  then show ?case using Cons check_rate_limit_stat by (fastforce split: if_splits)
qed simp

lemma process_packet_stat: "process_packet L now wall info ct p = Some (r, p') \<Longrightarrow> packet_keys_same p p'"
proof -
  assume step: "process_packet L now wall info ct p = Some (r, p')"
  have cached: "packet_keys_same p p'"
    if "process_packet_with_cache_entry now wall info e (increment_stat CacheHits (p\<lparr>rule_cache := c\<rparr>)) = Some (r, p')" for e c
    using that
    by (auto simp: process_packet_with_cache_entry_def bind_eq_Some_conv packet_keys_same_def dest!: check_cached_limits_stat
        split: if_splits option.splits)
  have rule: "packet_keys_same p p'" if "apply_rule now wall info ct key rule p = Some (r, p')" for key rule
    using that by (auto simp: apply_rule_eq bind_eq_Some_conv packet_keys_same_def dest!: check_rate_limit_stat split: if_splits)
  have dflt: "packet_keys_same p p'" if "apply_default now info ct key p = (r, p')" for key
    using that by (auto simp: apply_default_def Let_def packet_keys_same_def split: if_splits)
  show "packet_keys_same p p'"
    using step cached rule dflt
    by (auto simp: process_packet_def Let_def split: option.splits if_splits)
qed

lemma handle_acl_result_stat:
  assumes "ct \<noteq> UnspecifiedChain"
  shows "outcomes_add_up p \<Longrightarrow> outcomes_add_up (handle_acl_result r ct p)"
    and "chains_add_up p \<Longrightarrow> chains_add_up (handle_acl_result r ct p)"
    and "c \<noteq> UnspecifiedChain \<Longrightarrow> chain_adds_up c p \<Longrightarrow> chain_adds_up c (handle_acl_result r ct p)"
proof -
  show "outcomes_add_up p \<Longrightarrow> outcomes_add_up (handle_acl_result r ct p)"
    using assms by (cases ct; cases "ar_action r") (simp_all add: handle_acl_result_def outcomes_add_up_def)
  show "chains_add_up p \<Longrightarrow> chains_add_up (handle_acl_result r ct p)"
    using assms by (cases ct; cases "ar_action r") (simp_all add: handle_acl_result_def chains_add_up_def)
  show "c \<noteq> UnspecifiedChain \<Longrightarrow> chain_adds_up c p \<Longrightarrow> chain_adds_up c (handle_acl_result r ct p)"
    using assms by (cases c; cases ct; cases "ar_action r") (simp_all add: handle_acl_result_def chain_adds_up_def)
qed

lemma stats_balanced_cong: "packet_keys_same p p' \<Longrightarrow> stats_balanced p \<Longrightarrow> stats_balanced p'"
proof -
  assume same: "packet_keys_same p p'"
  have "outcomes_add_up p' = outcomes_add_up p" "chains_add_up p' = chains_add_up p"
    using same by (simp_all add: outcomes_add_up_def chains_add_up_def packet_keys_same_def)
  moreover have "chain_adds_up ct p' = chain_adds_up ct p" if "ct \<noteq> UnspecifiedChain" for ct
    using same that by (cases ct) (simp_all add: chain_adds_up_def packet_keys_same_def)
  ultimately show "stats_balanced p \<Longrightarrow> stats_balanced p'" by (simp add: stats_balanced_def)
qed

lemma process_packet_with_acl_cases:
  assumes "process_packet_with_acl L now wall packet is_in my_ipv4 is_local groups f = Some (b, f')"
  shows "f' = f \<or> (\<exists>info r p1. process_packet L now wall info (classify_chain_type is_in info my_ipv4 is_local) (af_processor f) = Some (r, p1) \<and>
    af_processor f' = handle_acl_result r (classify_chain_type is_in info my_ipv4 is_local) p1)"
proof (cases "acl_enabled f")
  case True
  obtain h where h: "peer_manager_header packet = Some h" using assms True by (auto simp: process_packet_with_acl_def bind_eq_Some_conv)
  show ?thesis
  proof (cases "hdr_packet_type h = packet_type_code Data")
    case data: True
    obtain e where e: "extract_packet_info packet groups = Some e"
      using assms True h data by (auto simp: process_packet_with_acl_def bind_eq_Some_conv)
    show ?thesis
    proof (cases e)
      case None
      then show ?thesis using assms True h data e by (simp add: process_packet_with_acl_def)
    next
      case (Some info)
      let ?ct = "classify_chain_type is_in info my_ipv4 is_local"
      obtain r p1 where p1: "process_packet L now wall info ?ct (af_processor f) = Some (r, p1)"
        using assms True h data e Some by (auto simp: process_packet_with_acl_def bind_eq_Some_conv Let_def)
      have "af_processor f' = handle_acl_result r ?ct p1"
        using assms True h data e Some p1 by (auto simp: process_packet_with_acl_def Let_def split: if_splits)
      then show ?thesis using p1 by blast
    qed
  qed (use assms True h in \<open>simp add: process_packet_with_acl_def\<close>)
qed (use assms in \<open>simp add: process_packet_with_acl_def\<close>)

lemma stats_balanced_packet:
  assumes "stats_balanced (af_processor f)"
    and "process_packet_with_acl L now wall packet is_in my_ipv4 is_local groups f = Some (b, f')"
  shows "stats_balanced (af_processor f')"
proof (cases "f' = f")
  case False
  then obtain info r p1 where p1: "process_packet L now wall info (classify_chain_type is_in info my_ipv4 is_local) (af_processor f) = Some (r, p1)"
    and f': "af_processor f' = handle_acl_result r (classify_chain_type is_in info my_ipv4 is_local) p1"
    using process_packet_with_acl_cases [OF assms(2)] by blast
  have "classify_chain_type is_in info my_ipv4 is_local \<noteq> UnspecifiedChain" by (simp add: classify_chain_type_def Let_def)
  note h = handle_acl_result_stat [OF this, where p = p1 and r = r]
  have "stats_balanced p1" by (rule stats_balanced_cong [OF process_packet_stat [OF p1] assms(1)])
  then show ?thesis unfolding f' stats_balanced_def using h by simp
qed (use assms in simp)

lemma stats_balanced_exec:
  assumes "stats_balanced (af_processor f)" and "filter_exec L checked x f = Some (d, f')"
  shows "stats_balanced (af_processor f')"
proof -
  have same: "stats_balanced p'" if "ap_stats p' = ap_stats (af_processor f)" for p'
    using assms(1) stat_cong [OF that] by (rule_tac stats_balanced_cong [of "af_processor f"]) (simp_all add: packet_keys_same_def)
  show ?thesis
  proof (cases x)
    case (FilterPacket now wall packet is_in my_ipv4 is_local groups)
    then show ?thesis using assms(2) stats_balanced_packet [OF assms(1)] by auto
  next
    case (Reload cfg)
    then show ?thesis using assms(2)
      by (intro same) (auto simp: reload_rules_def get_shared_state_def Let_def new_with_shared_state_def split: option.splits prod.splits)
  next
    case (ConnTick wall)
    then show ?thesis using assms(2) by (intro same) (auto simp: conn_cleanup_tick_def bind_eq_Some_conv)
  qed (use assms(2) in \<open>auto intro!: same simp: clean_records_def cache_cleanup_tick_def\<close>)
qed



end
